(* ===== verification/Prelude.thy ===== *)
theory Prelude
  imports "HOL-Library.Word"
begin

text \<open>
  What every component of the development shares: the machine types of the sources, the
  exceptions the sources throw as values of a result type, C++ integer arithmetic
  (truncating division, 64-bit two's complement), and big-endian byte strings.

  \<^item> \<open>exn\<close>, \<open>'a res\<close>, \<open>rbind\<close>: a C++ function that may throw returns \<open>exn + 'a\<close>;
    \<open>Inl\<close> carries the exception. A failed \<^verbatim>\<open>assert\<close> is the exception \<open>Assertion_failed\<close>; a loop
    that does not end gives \<open>Diverges\<close>; a null pointer that is read through, or an index past the end of a
    buffer, gives \<open>Undefined_behaviour\<close>.
  \<^item> \<open>cdiv\<close>, \<open>to_i64\<close> and \<open>to_i32\<close>: C++ signed division and the wrap-around of \<^verbatim>\<open>std::int64_t\<close> and \<^verbatim>\<open>int\<close>.
  \<^item> \<open>be_bytes\<close>, \<open>be_val\<close>: the big-endian representation of a number, the reference for
    every fixed-width reader and writer of the serializer.
\<close>

unbundle bit_operations_syntax

type_synonym byte = "8 word"
type_synonym u16 = "16 word"
type_synonym u32 = "32 word"
type_synonym u64 = "64 word"
type_synonym uint128 = "128 word"
type_synonym uint160 = "160 word"
type_synonym uint256 = "256 word"
type_synonym blob = "byte list"

named_theorems res_simps \<open>evaluation of computations that may throw\<close>
named_theorems byte_simps \<open>lengths and values of byte strings\<close>
named_theorems be_eval \<open>evaluation of concrete byte strings\<close>
named_theorems u64_simps \<open>unsigned 64-bit arithmetic read as natural numbers\<close>

section \<open>Exceptions as values\<close>

datatype exn =
    Runtime_error string
  | Overflow_error string
  | Assertion_failed
  | Diverges
  | Undefined_behaviour

type_synonym 'a res = "exn + 'a"

definition rbind :: "'a res \<Rightarrow> ('a \<Rightarrow> 'b res) \<Rightarrow> 'b res" where
  "rbind m f = (case m of Inl e \<Rightarrow> Inl e | Inr x \<Rightarrow> f x)"

definition rthrow_if :: "bool \<Rightarrow> string \<Rightarrow> 'a res \<Rightarrow> 'a res" where
  "rthrow_if c msg k = (if c then Inl (Runtime_error msg) else k)"

lemma rbind_Inl [simp, res_simps]: "rbind (Inl e) f = Inl e"
  by (simp add: rbind_def)

lemma rbind_Inr [simp, res_simps]: "rbind (Inr x) f = f x"
  by (simp add: rbind_def)

lemma rbind_cong [fundef_cong]:
  "m = m' \<Longrightarrow> (\<And>x. m' = Inr x \<Longrightarrow> f x = f' x) \<Longrightarrow> rbind m f = rbind m' f'"
  by (simp add: rbind_def split: sum.split)

text \<open>A pointer that may be null is an option; reading through it is undefined when it is null.\<close>

definition deref :: "'a option \<Rightarrow> 'a res" where
  "deref p = (case p of None \<Rightarrow> Inl Undefined_behaviour | Some x \<Rightarrow> Inr x)"

lemma deref_simps [simp]: "deref None = Inl Undefined_behaviour" "deref (Some x) = Inr x"
  by (simp_all add: deref_def)

definition rassert :: "bool \<Rightarrow> 'a res \<Rightarrow> 'a res" where
  "rassert c k = (if c then k else Inl Assertion_failed)"

lemma rassert_simps [simp]: "rassert True k = k" "rassert False k = Inl Assertion_failed"
  by (simp_all add: rassert_def)

lemma rassert_cong [fundef_cong]: "c = c' \<Longrightarrow> (c' \<Longrightarrow> k = k') \<Longrightarrow> rassert c k = rassert c' k'"
  by (simp add: rassert_def)

lemma rassert_eq_Inr_iff: "rassert c k = Inr x \<longleftrightarrow> c \<and> k = Inr x"
  by (simp add: rassert_def)

lemma rbind_assoc: "rbind (rbind m f) g = rbind m (\<lambda>x. rbind (f x) g)"
  by (simp add: rbind_def split: sum.split)

lemma rbind_eq_Inr_iff [res_simps]:
  "rbind m f = Inr y \<longleftrightarrow> (\<exists>x. m = Inr x \<and> f x = Inr y)"
  by (simp add: rbind_def split: sum.split)

lemma rbind_eq_Inl_iff:
  "rbind m f = Inl e \<longleftrightarrow> m = Inl e \<or> (\<exists>x. m = Inr x \<and> f x = Inl e)"
  by (auto simp add: rbind_def split: sum.split)

lemma rthrow_if_True [simp, res_simps]: "c \<Longrightarrow> rthrow_if c msg k = Inl (Runtime_error msg)"
  by (simp add: rthrow_if_def)

lemma rthrow_if_False [simp, res_simps]: "\<not> c \<Longrightarrow> rthrow_if c msg k = k"
  by (simp add: rthrow_if_def)

lemma rthrow_if_eq_Inr_iff [res_simps]: "rthrow_if c msg k = Inr y \<longleftrightarrow> \<not> c \<and> k = Inr y"
  by (simp add: rthrow_if_def)

section \<open>C++ integer arithmetic\<close>

text \<open>Signed division truncates towards zero; a signed 64-bit result wraps around.\<close>

definition cdiv :: "int \<Rightarrow> int \<Rightarrow> int" where
  "cdiv a b = sgn a * sgn b * (\<bar>a\<bar> div \<bar>b\<bar>)"

definition to_i64 :: "int \<Rightarrow> int" where
  "to_i64 x = (x + 2 ^ 63) mod 2 ^ 64 - 2 ^ 63"

definition u64_of_int :: "int \<Rightarrow> u64" where
  "u64_of_int x = word_of_int x"

lemma cdiv_nonneg: "0 \<le> a \<Longrightarrow> 0 < b \<Longrightarrow> cdiv a b = a div b"
  by (cases "a = 0") (auto simp: cdiv_def sgn_if)

lemma cdiv_neg: "cdiv (- a) b = - cdiv a b"
  by (simp add: cdiv_def sgn_if)

lemma abs_cdiv: "0 < b \<Longrightarrow> \<bar>cdiv a b\<bar> = \<bar>a\<bar> div b"
  by (cases "a = 0") (auto simp: cdiv_def abs_mult sgn_if pos_imp_zdiv_nonneg_iff div_nonneg_neg_le0)

definition to_i32 :: "int \<Rightarrow> int" where
  "to_i32 x = (x + 2 ^ 31) mod 2 ^ 32 - 2 ^ 31"

lemma to_i32_id: "- (2 ^ 31) \<le> x \<Longrightarrow> x < 2 ^ 31 \<Longrightarrow> to_i32 x = x"
  by (simp add: to_i32_def)

lemma to_i64_id: "- (2 ^ 63) \<le> x \<Longrightarrow> x < 2 ^ 63 \<Longrightarrow> to_i64 x = x"
  by (simp add: to_i64_def)

lemma to_i64_range: "- (2 ^ 63) \<le> to_i64 x" "to_i64 x < 2 ^ 63"
proof -
  have "0 \<le> (x + 2 ^ 63) mod 2 ^ 64" "(x + 2 ^ 63) mod 2 ^ 64 < 2 ^ 64"
    by (simp_all only: pos_mod_sign pos_mod_bound zero_less_power zero_less_numeral)
  then show "- (2 ^ 63) \<le> to_i64 x" "to_i64 x < 2 ^ 63"
    by (simp_all add: to_i64_def)
qed

lemma unat_u64_of_int: "0 \<le> x \<Longrightarrow> x < 2 ^ 64 \<Longrightarrow> unat (u64_of_int x) = nat x"
  by (simp add: u64_of_int_def unat_eq_nat_uint uint_word_of_int)

lemma unat_u64_lt [simp]: "unat (x :: u64) < 2 ^ 64"
  using unsigned_less [of x] by simp

lemma unat_u64_lt_numeral [simp]: "unat (x :: u64) < 18446744073709551616"
  using unat_u64_lt [of x] by simp

lemma unat_times_10 [u64_simps]:
  assumes "unat (v :: u64) < 1844674407370955161"
  shows "unat (v * 10) = unat v * 10"
  using assms by (simp add: unat_word_ariths)

lemma unat_div_10 [u64_simps]: "unat ((v :: u64) div 10) = unat v div 10"
  by (simp add: unat_div)

section \<open>Big-endian byte strings\<close>

fun be_val :: "byte list \<Rightarrow> nat" where
  "be_val [] = 0"
| "be_val (b # bs) = unat b * 256 ^ length bs + be_val bs"

fun be_bytes :: "nat \<Rightarrow> nat \<Rightarrow> byte list" where
  "be_bytes 0 v = []"
| "be_bytes (Suc n) v = of_nat (v div 256 ^ n) # be_bytes n v"

lemma be_bytes_numeral [be_eval]:
  "be_bytes (numeral k) v = of_nat (v div 256 ^ pred_numeral k) # be_bytes (pred_numeral k) v"
  by (simp add: numeral_eq_Suc)

lemma length_be_bytes [simp, byte_simps]: "length (be_bytes n v) = n"
  by (induction n) auto

lemma be_val_append [byte_simps]: "be_val (xs @ ys) = be_val xs * 256 ^ length ys + be_val ys"
  by (induction xs) (auto simp: power_add algebra_simps)

lemma unat_byte_lt: "unat (b :: byte) < 256"
  using unsigned_less [of b] by simp

lemma be_val_bound: "be_val bs < 256 ^ length bs"
proof (induction bs)
  case Nil
  then show ?case by simp
next
  case (Cons b bs)
  have "unat b * 256 ^ length bs + be_val bs < (unat b + 1) * 256 ^ length bs"
    using Cons.IH by (simp add: algebra_simps)
  also have "\<dots> \<le> 256 * 256 ^ length bs"
    using unat_byte_lt [of b] by (intro mult_right_mono) auto
  finally show ?case by simp
qed

lemma unat_of_nat_byte: "unat (of_nat n :: byte) = n mod 256"
  by (simp add: unat_of_nat)

lemma be_val_be_bytes [byte_simps]: "be_val (be_bytes n v) = v mod 256 ^ n"
proof (induction n)
  case 0
  then show ?case by simp
next
  case (Suc n)
  have "v mod 256 ^ Suc n = (v div 256 ^ n) mod 256 * 256 ^ n + v mod 256 ^ n"
    using mod_mult2_eq [of v "256 ^ n" 256] by (simp add: mult.commute)
  with Suc show ?case by (simp add: unat_of_nat_byte)
qed

lemma be_bytes_mod: "be_bytes n (v mod 256 ^ n) = be_bytes n v"
proof -
  have "m \<le> n \<Longrightarrow> be_bytes m (v mod 256 ^ n) = be_bytes m v" for m
  proof (induction m)
    case 0
    then show ?case by simp
  next
    case (Suc m)
    have split: "(256 :: nat) ^ n = 256 ^ m * 256 ^ (n - m)"
      using Suc.prems by (simp flip: power_add)
    have "v mod 256 ^ n div 256 ^ m = v div 256 ^ m mod 256 ^ (n - m)"
      unfolding split by (simp add: mod_mult2_eq)
    moreover have "(256 :: nat) dvd 256 ^ (n - m)"
      using Suc.prems by (simp add: dvd_power)
    ultimately have "(v mod 256 ^ n div 256 ^ m) mod 256 = v div 256 ^ m mod 256"
      by (simp add: mod_mod_cancel)
    then have "(of_nat (v mod 256 ^ n div 256 ^ m) :: byte) = of_nat (v div 256 ^ m)"
      by (simp flip: unat_of_nat_byte add: word_unat_eq_iff)
    with Suc show ?case by simp
  qed
  then show ?thesis by simp
qed

lemma be_bytes_be_val [byte_simps]: "be_bytes (length bs) (be_val bs) = bs"
proof (induction bs)
  case Nil
  then show ?case by simp
next
  case (Cons b bs)
  have hd: "be_val (b # bs) div 256 ^ length bs = unat b"
    using be_val_bound [of bs] by simp
  have "be_bytes (length bs) (be_val (b # bs)) = be_bytes (length bs) (be_val (b # bs) mod 256 ^ length bs)"
    by (simp only: be_bytes_mod)
  also have "be_val (b # bs) mod 256 ^ length bs = be_val bs"
    using be_val_bound [of bs] by simp
  finally show ?case using hd Cons by simp
qed

lemma be_val_inject: "length xs = length ys \<Longrightarrow> be_val xs = be_val ys \<Longrightarrow> xs = ys"
  by (metis be_bytes_be_val)

section \<open>Sequences of operations that simulate an abstract machine\<close>

text \<open>
  A component whose operations \<open>cstep\<close> never throw on states that satisfy \<open>inv\<close>, keep \<open>inv\<close> and act on
  the abstraction \<open>abs\<close> as the operations \<open>astep\<close> of a specification.
\<close>

fun run_ops :: "('o \<Rightarrow> 's \<Rightarrow> 's res) \<Rightarrow> 'o list \<Rightarrow> 's \<Rightarrow> 's res" where
  "run_ops f [] s = Inr s"
| "run_ops f (op # ops) s = rbind (f op s) (run_ops f ops)"

text \<open>each operation is permitted in the abstract state the operations before it lead to\<close>

fun run_ok :: "('o \<Rightarrow> 'a \<Rightarrow> bool) \<Rightarrow> ('o \<Rightarrow> 'a \<Rightarrow> 'a) \<Rightarrow> 'o list \<Rightarrow> 'a \<Rightarrow> bool" where
  "run_ok ok astep [] a \<longleftrightarrow> True"
| "run_ok ok astep (op # ops) a \<longleftrightarrow> ok op a \<and> run_ok ok astep ops (astep op a)"

lemma run_ok_list_all: "run_ok (\<lambda>op _. ok op) astep ops a \<longleftrightarrow> list_all ok ops"
  by (induction ops arbitrary: a) simp_all

locale simulation =
  fixes ok :: "'o \<Rightarrow> 'a \<Rightarrow> bool"
    and inv :: "'s \<Rightarrow> bool"
    and abs :: "'s \<Rightarrow> 'a"
    and cstep :: "'o \<Rightarrow> 's \<Rightarrow> 's res"
    and astep :: "'o \<Rightarrow> 'a \<Rightarrow> 'a"
  assumes step: "ok op (abs s) \<Longrightarrow> inv s \<Longrightarrow> \<exists>s'. cstep op s = Inr s' \<and> inv s' \<and> abs s' = astep op (abs s)"
begin

lemma run:
  "run_ok ok astep ops (abs s) \<Longrightarrow> inv s \<Longrightarrow>
     \<exists>s'. run_ops cstep ops s = Inr s' \<and> inv s' \<and> abs s' = fold astep ops (abs s)"
proof (induction ops arbitrary: s)
  case (Cons op ops)
  then obtain s1 where "cstep op s = Inr s1" "inv s1" "abs s1 = astep op (abs s)"
    using step [of op s] by auto
  then show ?case using Cons.IH [of s1] Cons.prems by auto
qed simp

end

end
