(* ===== verification/Base_Uint.thy ===== *)
theory Base_Uint
  imports Prelude
begin

text \<open>
  The fixed-width big-endian integers of \<^verbatim>\<open>src/ripple/basics/base_uint.h\<close> and the hex
  conversions they use (\<^verbatim>\<open>strHex.cpp\<close>, \<^verbatim>\<open>StringUtilities.cpp\<close>). A \<^verbatim>\<open>base_uint<bits>\<close> is an
  array \<^verbatim>\<open>pn\<close> of \<^verbatim>\<open>bits / 32\<close> words in big-endian order; here it is the list of the values
  \<^verbatim>\<open>be32toh (pn[i])\<close>, most significant first. The lemmas show that the loops with their
  carries compute arithmetic modulo \<open>2 ^ bits\<close> and that the byte-wise comparison is the
  numeric order, which is why the other theories take an \<open>n word\<close> for a \<^verbatim>\<open>base_uint<n>\<close>.
\<close>

type_synonym base_uint = "u32 list"

section \<open>Hex digits\<close>

definition charhex :: "int \<Rightarrow> char" where
  "charhex idigit =
     (if 0 \<le> idigit
      then if idigit < 10 then char_of (48 + nat idigit)
           else if idigit < 16 then char_of (97 - 10 + nat idigit)
           else char_of (0 :: nat)
      else char_of (0 :: nat))"

definition charunhex :: "char \<Rightarrow> int" where
  "charunhex c =
     (let n = of_char c :: nat
      in if 48 \<le> n \<and> n < 58 then int n - 48
         else if 97 \<le> n \<and> n < 103 then int n - 97 + 10
         else -1)"

definition strhex :: "byte list \<Rightarrow> string" where
  "strhex bs = concat (map (\<lambda>c. [charhex (uint (drop_bit 4 c)), charhex (uint (c AND 15))]) bs)"

fun strunhex_pairs :: "string \<Rightarrow> byte list option" where
  "strunhex_pairs [] = Some []"
| "strunhex_pairs [c] = None"
| "strunhex_pairs (h # l # cs) =
     (if charunhex h < 0 then None
      else if charunhex l < 0 then None
      else map_option (Cons (push_bit 4 (word_of_int (charunhex h)) OR word_of_int (charunhex l)))
             (strunhex_pairs cs))"

definition strunhex :: "string \<Rightarrow> byte list option" where
  "strunhex s =
     (if odd (length s)
      then (case s of
              [] \<Rightarrow> None
            | c # cs \<Rightarrow>
                if charunhex c < 0 then None
                else map_option (Cons (word_of_int (charunhex c))) (strunhex_pairs cs))
      else strunhex_pairs s)"

text \<open>
  \<^verbatim>\<open>base_uint::setHex\<close>: leading white space and a leading \<^verbatim>\<open>0x\<close> are skipped unless \<open>bstrict\<close>,
  the longest run of hex digits is read, of an overlong run only the last digits, and the
  bytes are stored right-aligned over zero. The result says whether the string ended there.
\<close>

definition isspace :: "char \<Rightarrow> bool" where
  "isspace c = (let n = of_char c :: nat in n = 32 \<or> (9 \<le> n \<and> n \<le> 13))"

definition skip_0x :: "string \<Rightarrow> string" where
  "skip_0x s = (case s of
      a # b # cs \<Rightarrow> if a = CHR ''0'' \<and> (b = CHR ''x'' \<or> b = CHR ''X'') then cs else s
    | _ \<Rightarrow> s)"

definition sethex :: "nat \<Rightarrow> bool \<Rightarrow> string \<Rightarrow> bool \<times> byte list" where
  "sethex nbytes bstrict psz =
     (let s1 = (if bstrict then psz else dropWhile isspace psz);
          s2 = (if bstrict then s1 else skip_0x s1);
          digits = takeWhile (\<lambda>c. charunhex c \<noteq> -1) s2;
          rest = dropWhile (\<lambda>c. charunhex c \<noteq> -1) s2;
          kept = (if length digits > 2 * nbytes then drop (length digits - 2 * nbytes) digits else digits)
      in case strunhex kept of
           None \<Rightarrow> (False, replicate nbytes 0)
         | Some bs \<Rightarrow> (rest = [], replicate (nbytes - length bs) 0 @ bs))"

section \<open>The array of words\<close>

fun bu_signum :: "base_uint \<Rightarrow> int" where
  "bu_signum [] = 0"
| "bu_signum (w # ws) = (if w \<noteq> 0 then 1 else bu_signum ws)"

definition bu_not :: "base_uint \<Rightarrow> base_uint" where
  "bu_not ws = map NOT ws"

definition bu_of_u64 :: "nat \<Rightarrow> u64 \<Rightarrow> base_uint" where
  "bu_of_u64 width u = replicate (width - 2) 0 @ [ucast (drop_bit 32 u), ucast u]"

definition bu_xor :: "base_uint \<Rightarrow> base_uint \<Rightarrow> base_uint" where
  "bu_xor xs ys = map2 (XOR) xs ys"

definition bu_and :: "base_uint \<Rightarrow> base_uint \<Rightarrow> base_uint" where
  "bu_and xs ys = map2 (AND) xs ys"

definition bu_or :: "base_uint \<Rightarrow> base_uint \<Rightarrow> base_uint" where
  "bu_or xs ys = map2 (OR) xs ys"

text \<open>The loops run from the last word to the first: over the reversed list.\<close>

fun inc_loop :: "u32 list \<Rightarrow> u32 list" where
  "inc_loop [] = []"
| "inc_loop (w # ws) = (if w + 1 \<noteq> 0 then (w + 1) # ws else (w + 1) # inc_loop ws)"

definition bu_inc :: "base_uint \<Rightarrow> base_uint" where
  "bu_inc ws = rev (inc_loop (rev ws))"

fun dec_loop :: "u32 list \<Rightarrow> u32 list" where
  "dec_loop [] = []"
| "dec_loop (w # ws) = (if w \<noteq> 0 then (w - 1) # ws else (w - 1) # dec_loop ws)"

definition bu_dec :: "base_uint \<Rightarrow> base_uint" where
  "bu_dec ws = rev (dec_loop (rev ws))"

fun add_loop :: "u64 \<Rightarrow> u32 list \<Rightarrow> u32 list \<Rightarrow> u32 list" where
  "add_loop carry (x # xs) (y # ys) =
     (let n = carry + ucast x + ucast y
      in ucast (n AND 0xffffffff) # add_loop (drop_bit 32 n) xs ys)"
| "add_loop carry _ _ = []"

definition bu_add :: "base_uint \<Rightarrow> base_uint \<Rightarrow> base_uint" where
  "bu_add xs ys = rev (add_loop 0 (rev xs) (rev ys))"

definition bu_bytes :: "base_uint \<Rightarrow> byte list" where
  "bu_bytes ws = concat (map (\<lambda>w. be_bytes 4 (unat w)) ws)"

fun bytes_compare :: "byte list \<Rightarrow> byte list \<Rightarrow> int" where
  "bytes_compare (a # as) (b # bs) =
     (if a = b then bytes_compare as bs else if a > b then 1 else -1)"
| "bytes_compare _ _ = 0"

definition bu_compare :: "base_uint \<Rightarrow> base_uint \<Rightarrow> int" where
  "bu_compare a b = bytes_compare (bu_bytes a) (bu_bytes b)"

section \<open>The number an array stands for\<close>

fun le_num :: "u32 list \<Rightarrow> nat" where
  "le_num [] = 0"
| "le_num (w # ws) = unat w + 2 ^ 32 * le_num ws"

definition bu_num :: "base_uint \<Rightarrow> nat" where
  "bu_num ws = le_num (rev ws)"

lemma unat_u32_lt: "unat (w :: u32) < 2 ^ 32"
  using unsigned_less [of w] by simp

lemma le_num_bound: "le_num ws < 2 ^ (32 * length ws)"
proof (induction ws)
  case Nil
  then show ?case by simp
next
  case (Cons w ws)
  have "unat w + 2 ^ 32 * le_num ws < 2 ^ 32 * (le_num ws + 1)"
    using unat_u32_lt [of w] by simp
  also have "\<dots> \<le> 2 ^ 32 * 2 ^ (32 * length ws)"
    using Cons.IH by (intro mult_left_mono) auto
  finally show ?case by (simp add: power_add)
qed

lemma le_num_append: "le_num (xs @ ys) = le_num xs + 2 ^ (32 * length xs) * le_num ys"
  by (induction xs) (auto simp: power_add algebra_simps)

lemma length_inc_loop [simp]: "length (inc_loop ws) = length ws"
  by (induction ws) auto

lemma length_dec_loop [simp]: "length (dec_loop ws) = length ws"
  by (induction ws) auto

lemma length_add_loop [simp]: "length xs = length ys \<Longrightarrow> length (add_loop c xs ys) = length xs"
  by (induction c xs ys rule: add_loop.induct) (auto simp: Let_def)

text \<open>A low word \<open>d < m\<close> under a high part reduced modulo \<open>k\<close>.\<close>

lemma mod_low_high: "(d :: nat) < m \<Longrightarrow> d + m * (h mod k) = (d + m * h) mod (m * k)"
  by (simp add: mod_mult2_eq)

lemma unat_u32_succ: "unat ((w :: u32) + 1) = (unat w + 1) mod 2 ^ 32"
  by (simp add: unat_word_ariths)

lemma word_succ_eq_0: "(w :: u32) + 1 = 0 \<Longrightarrow> unat w + 1 = 2 ^ 32"
proof -
  assume "w + 1 = 0"
  then have "(unat w + 1) mod 2 ^ 32 = 0"
    by (metis unat_u32_succ unsigned_0)
  moreover have "unat w + 1 \<le> 2 ^ 32"
    using unat_u32_lt [of w] by simp
  ultimately show ?thesis
    by (metis le_neq_implies_less mod_less add_is_0 one_neq_zero)
qed

lemma unat_and_low32: "unat (ucast ((n :: u64) AND 0xffffffff) :: u32) = unat n mod 2 ^ 32"
proof -
  have "n AND 0xffffffff = take_bit 32 n"
    by (simp add: take_bit_eq_mask mask_eq_exp_minus_1)
  then show ?thesis
    by (simp add: unsigned_ucast_eq take_bit_eq_mod unat_mod_distrib)
qed

lemma unat_u64_drop32: "unat (drop_bit 32 (n :: u64)) = unat n div 2 ^ 32"
  by (simp add: drop_bit_eq_div unat_div_distrib)

lemma unat_ucast_u64: "unat (ucast (x :: u32) :: u64) = unat x"
  by (simp add: unsigned_ucast_eq take_bit_nat_eq_self_iff unat_u32_lt [THEN less_trans])

lemma le_num_inc_loop: "le_num (inc_loop ws) = (le_num ws + 1) mod 2 ^ (32 * length ws)"
proof (induction ws)
  case Nil
  then show ?case by simp
next
  case (Cons w ws)
  have pow: "(2 :: nat) ^ (32 * length (w # ws)) = 2 ^ 32 * 2 ^ (32 * length ws)"
    by (simp add: power_add)
  show ?case
  proof (cases "w + 1 = 0")
    case False
    then have "unat (w + 1) = unat w + 1"
      by (metis Suc_eq_plus1 add.commute unatSuc)
    then have *: "le_num (inc_loop (w # ws)) = le_num (w # ws) + 1"
      using False by simp
    from le_num_bound [of "inc_loop (w # ws)"] have "le_num (w # ws) + 1 < 2 ^ (32 * length (w # ws))"
      by (simp only: * length_inc_loop)
    then show ?thesis by (simp only: * mod_less)
  next
    case True
    then have "le_num (w # ws) + 1 = 2 ^ 32 * (le_num ws + 1)"
      using word_succ_eq_0 [OF True] by simp
    then show ?thesis
      unfolding pow using True Cons.IH by (simp add: mult_mod_right)
  qed
qed

lemma le_num_dec_loop:
  "le_num (dec_loop ws) = (le_num ws + (2 ^ (32 * length ws) - 1)) mod 2 ^ (32 * length ws)"
proof (induction ws)
  case Nil
  then show ?case by simp
next
  case (Cons w ws)
  let ?m = "(2 :: nat) ^ (32 * length ws)"
  have pow: "(2 :: nat) ^ (32 * length (w # ws)) = 2 ^ 32 * ?m"
    by (simp add: power_add)
  show ?case
  proof (cases "w = 0")
    case False
    then have "unat (w - 1) = unat w - 1" and "0 < unat w"
      by (auto simp: unat_minus_one unat_gt_0)
    then have *: "le_num (dec_loop (w # ws)) + 1 = le_num (w # ws)"
      using False by simp
    have "le_num (w # ws) + (2 ^ 32 * ?m - 1) = le_num (dec_loop (w # ws)) + 2 ^ 32 * ?m"
      using * by simp
    moreover have "le_num (dec_loop (w # ws)) < 2 ^ 32 * ?m"
      using le_num_bound [of "dec_loop (w # ws)"] by (simp only: pow length_dec_loop)
    ultimately show ?thesis
      unfolding pow by (simp only: mod_add_self2 mod_less)
  next
    case True
    let ?d = "unat (w - 1)"
    have d: "?d + 1 = 2 ^ 32"
      using word_succ_eq_0 [of "w - 1"] True by simp
    have "le_num (dec_loop (w # ws)) = ?d + 2 ^ 32 * ((le_num ws + (?m - 1)) mod ?m)"
      using True Cons.IH by simp
    also have "\<dots> = (?d + 2 ^ 32 * (le_num ws + (?m - 1))) mod (2 ^ 32 * ?m)"
      by (rule mod_low_high) (use d in linarith)
    also have "?d + 2 ^ 32 * (le_num ws + (?m - 1)) = le_num (w # ws) + (2 ^ 32 * ?m - 1)"
    proof -
      have "0 < ?m" by simp
      then obtain k where k: "?m = Suc k" using gr0_implies_Suc by blast
      show ?thesis using True d unfolding k by simp
    qed
    finally show ?thesis unfolding pow .
  qed
qed

lemma unat_carry_sum:
  assumes "unat (c :: u64) \<le> 1"
  shows "unat (c + ucast (x :: u32) + ucast (y :: u32)) = unat c + unat x + unat y"
  using assms unat_u32_lt [of x] unat_u32_lt [of y]
  by (simp add: unat_word_ariths unat_ucast_u64 mod_less)

lemma le_num_add_loop:
  "length xs = length ys \<Longrightarrow> unat c \<le> 1 \<Longrightarrow>
   le_num (add_loop c xs ys) = (unat c + le_num xs + le_num ys) mod 2 ^ (32 * length xs)"
proof (induction c xs ys rule: add_loop.induct)
  case (1 c x xs y ys)
  let ?n = "c + ucast x + ucast y :: u64" and ?m = "(2 :: nat) ^ (32 * length xs)"
  have n: "unat ?n = unat c + unat x + unat y"
    using "1.prems" by (intro unat_carry_sum) simp
  have carry: "unat (drop_bit 32 ?n) \<le> 1"
    using n "1.prems" unat_u32_lt [of x] unat_u32_lt [of y]
    by (simp only: unat_u64_drop32 n) simp
  have len: "length xs = length ys"
    using "1.prems" by simp
  have "le_num (add_loop c (x # xs) (y # ys)) =
        unat ?n mod 2 ^ 32 + 2 ^ 32 * ((unat ?n div 2 ^ 32 + le_num xs + le_num ys) mod ?m)"
    using "1.IH" [OF refl len carry] by (simp only: add_loop.simps Let_def le_num.simps
      unat_and_low32 unat_u64_drop32)
  also have "\<dots> = (unat ?n mod 2 ^ 32 + 2 ^ 32 * (unat ?n div 2 ^ 32 + le_num xs + le_num ys)) mod (2 ^ 32 * ?m)"
    by (rule mod_low_high) simp
  also have "unat ?n mod 2 ^ 32 + 2 ^ 32 * (unat ?n div 2 ^ 32 + le_num xs + le_num ys)
           = unat ?n + 2 ^ 32 * (le_num xs + le_num ys)"
    by (simp add: algebra_simps)
  finally show ?case
    unfolding n by (simp add: power_add algebra_simps)
qed auto

lemma be_val_concat_words: "be_val (bu_bytes ws) = bu_num ws"
proof (induction ws)
  case Nil
  then show ?case by (simp add: bu_bytes_def bu_num_def)
next
  case (Cons w ws)
  have len: "length (bu_bytes ws) = 4 * length ws"
    by (induction ws) (auto simp: bu_bytes_def)
  have "be_val (bu_bytes (w # ws)) = unat w mod 256 ^ 4 * 256 ^ length (bu_bytes ws) + bu_num ws"
    using Cons by (simp add: bu_bytes_def be_val_append be_val_be_bytes)
  also have "unat w mod 256 ^ 4 = unat w"
    using unat_u32_lt [of w] by simp
  also have "(256 :: nat) ^ length (bu_bytes ws) = 2 ^ (32 * length ws)"
    by (simp add: len power_mult)
  finally show ?case
    by (simp add: bu_num_def le_num_append algebra_simps)
qed

lemma length_bu_bytes: "length (bu_bytes ws) = 4 * length ws"
  by (induction ws) (auto simp: bu_bytes_def)

lemma bytes_compare_sgn:
  "length as = length bs \<Longrightarrow> bytes_compare as bs = sgn (int (be_val as) - int (be_val bs))"
proof (induction as bs rule: bytes_compare.induct)
  case (1 a as b bs)
  let ?k = "(256 :: nat) ^ length as"
  have bounds: "be_val as < ?k" "be_val bs < ?k" and len: "length bs = length as"
    using be_val_bound [of as] be_val_bound [of bs] "1.prems" by simp_all
  consider "a = b" | "unat b < unat a" | "unat a < unat b"
    by (metis linorder_neqE_nat word_unat_eq_iff)
  then show ?case
  proof cases
    case 1
    with "1.IH" "1.prems" show ?thesis by simp
  next
    case 2
    then have "(unat b + 1) * ?k \<le> unat a * ?k" by (intro mult_right_mono) auto
    with bounds len have "be_val (b # bs) < be_val (a # as)" by simp
    with 2 show ?thesis by (auto simp: word_less_nat_alt simp del: be_val.simps)
  next
    case 3
    then have "(unat a + 1) * ?k \<le> unat b * ?k" by (intro mult_right_mono) auto
    with bounds len have "be_val (a # as) < be_val (b # bs)" by simp
    with 3 show ?thesis by (auto simp: word_less_nat_alt simp del: be_val.simps)
  qed
qed auto

lemma charunhex_charhex: "0 \<le> d \<Longrightarrow> d < 16 \<Longrightarrow> charunhex (charhex d) = d"
  by (auto simp: charhex_def charunhex_def of_char_of)

lemma nibbles_byte:
  "push_bit 4 (word_of_int (uint (drop_bit 4 (c :: byte)))) OR word_of_int (uint (c AND 15)) = c"
proof -
  have "push_bit 4 (drop_bit 4 c) OR (c AND mask 4) = c"
    by (rule bit_word_eqI) (auto simp: bit_simps)
  then show ?thesis by (simp add: mask_eq_exp_minus_1)
qed

lemma strunhex_pairs_strhex: "strunhex_pairs (strhex bs) = Some bs"
proof (induction bs)
  case Nil
  then show ?case by (simp add: strhex_def)
next
  case (Cons c bs)
  have hi: "0 \<le> uint (drop_bit 4 c)" "uint (drop_bit 4 c) < 16"
    using unat_byte_lt [of c] by (simp_all add: uint_nat drop_bit_eq_div unat_div_distrib)
  have "c AND 15 = take_bit 4 c"
    by (simp add: take_bit_eq_mask mask_eq_exp_minus_1)
  then have lo: "0 \<le> uint (c AND 15)" "uint (c AND 15) < 16"
    by (simp_all add: uint_nat unat_mod_distrib take_bit_eq_mod)
  have ih: "strunhex_pairs (concat (map (\<lambda>c. [charhex (uint (drop_bit 4 c)), charhex (uint (c AND 15))]) bs)) = Some bs"
    using Cons by (simp add: strhex_def)
  show ?case
    using nibbles_byte [of c] hi lo
    by (simp add: strhex_def ih charunhex_charhex)
qed

lemma strunhex_strhex_aux: "strunhex (strhex bs) = Some bs"
proof -
  have "even (length (strhex bs))"
    by (induction bs) (auto simp: strhex_def)
  then show ?thesis by (simp add: strunhex_def strunhex_pairs_strhex)
qed

lemma length_strhex [simp]: "length (strhex bs) = 2 * length bs"
  by (induction bs) (auto simp: strhex_def)

lemma strhex_digits: "c \<in> set (strhex bs) \<Longrightarrow> \<exists>d. 0 \<le> d \<and> d < 16 \<and> c = charhex d"
proof -
  have hi: "uint (drop_bit 4 (b :: byte)) < 16" for b
    using unat_byte_lt [of b] by (simp add: uint_nat drop_bit_eq_div unat_div_distrib)
  have lo: "uint ((b :: byte) AND 15) < 16" for b
  proof -
    have "b AND 15 = take_bit 4 b"
      by (simp add: take_bit_eq_mask mask_eq_exp_minus_1)
    then show ?thesis by (simp add: uint_nat unat_mod_distrib take_bit_eq_mod)
  qed
  assume "c \<in> set (strhex bs)"
  then show ?thesis
    using hi lo by (auto simp: strhex_def)
qed

lemma charhex_not_space:
  "0 \<le> d \<Longrightarrow> d < 16 \<Longrightarrow> \<not> isspace (charhex d) \<and> charhex d \<noteq> CHR ''x'' \<and> charhex d \<noteq> CHR ''X''"
proof -
  assume d: "0 \<le> d" "d < 16"
  then have code: "of_char (charhex d) = (if d < 10 then 48 + nat d else 87 + nat d)"
    by (auto simp: charhex_def of_char_of)
  then have "of_char (charhex d) \<noteq> (of_char (CHR ''x'') :: nat)"
      "of_char (charhex d) \<noteq> (of_char (CHR ''X'') :: nat)"
    using d by (auto split: if_splits)
  then show ?thesis
    using code d by (auto simp: isspace_def)
qed

lemma sethex_strhex_aux:
  assumes "length bs = nbytes"
  shows "sethex nbytes bstrict (strhex bs) = (True, bs)"
proof -
  let ?s = "strhex bs"
  have hex: "charunhex c \<noteq> -1 \<and> \<not> isspace c \<and> c \<noteq> CHR ''x'' \<and> c \<noteq> CHR ''X''" if "c \<in> set ?s" for c
    using strhex_digits [OF that] charhex_not_space charunhex_charhex by fastforce
  have sp: "dropWhile isspace ?s = ?s"
    using hex by (cases ?s) auto
  have x: "skip_0x ?s = ?s"
    using hex by (auto simp: skip_0x_def split: list.split)
  have all: "takeWhile (\<lambda>c. charunhex c \<noteq> -1) ?s = ?s" "dropWhile (\<lambda>c. charunhex c \<noteq> -1) ?s = []"
    using hex by (auto simp: takeWhile_eq_all_conv dropWhile_eq_Nil_conv)
  show ?thesis
    unfolding sethex_def Let_def
    using assms by (simp add: sp x all strunhex_strhex_aux)
qed

lemma le_num_zeros: "le_num (replicate n 0) = 0"
  by (induction n) simp_all

lemma le_num_of_u64: "le_num (rev (bu_of_u64 width u)) = unat u"
proof -
  have "unat u < 2 ^ LENGTH(64)" by (rule unsigned_less)
  then have "unat u div 2 ^ 32 < 2 ^ 32" by (simp add: div_less_iff_less_mult)
  then have "unat (ucast (drop_bit 32 u) :: u32) = unat u div 2 ^ 32"
    by (simp only: unsigned_ucast_eq take_bit_eq_mod unat_u64_drop32) simp
  moreover have "unat (ucast u :: u32) = unat u mod 2 ^ 32"
    by (simp add: unsigned_ucast_eq take_bit_eq_mod)
  ultimately show ?thesis by (simp add: bu_of_u64_def le_num_zeros)
qed

section \<open>Properties\<close>

text \<open>
  C38. The word-by-word loops of \<^verbatim>\<open>operator++\<close>, \<^verbatim>\<open>operator--\<close> and \<^verbatim>\<open>operator+=\<close>, with their early
  exits and their carry, compute the successor, the predecessor and the sum of the numbers
  the arrays stand for, modulo \<open>2 ^ bits\<close>, for arrays of every width; assigning a 64-bit integer to an array of
  at least two words gives the array of that number.
\<close>

theorem base_uint_arith_mod:
  "bu_num (bu_inc xs) = (bu_num xs + 1) mod 2 ^ (32 * length xs) \<and>
   bu_num (bu_dec xs) = (bu_num xs + (2 ^ (32 * length xs) - 1)) mod 2 ^ (32 * length xs) \<and>
   (length xs = length ys \<longrightarrow>
      bu_num (bu_add xs ys) = (bu_num xs + bu_num ys) mod 2 ^ (32 * length xs)) \<and>
   (2 \<le> width \<longrightarrow> length (bu_of_u64 width u) = width \<and> bu_num (bu_of_u64 width u) = unat u)"
  by (auto simp: bu_num_def bu_inc_def bu_dec_def bu_add_def le_num_inc_loop le_num_dec_loop
      le_num_add_loop le_num_of_u64) (simp add: bu_of_u64_def)

theorem base_uint_arith_mod_witness:
  "bu_num (bu_add [0, 0xffffffff, 0xffffffff] [0, 0, 1]) = 2 ^ 64 \<and> bu_num (bu_of_u64 5 0x100000002) = 0x100000002"
proof -
  have "bu_num (bu_add [0, 0xffffffff, 0xffffffff] [0, 0, 1])
      = (bu_num [0, 0xffffffff, 0xffffffff] + bu_num [0, 0, 1]) mod 2 ^ (32 * 3)"
    using base_uint_arith_mod [of "[0, 0xffffffff, 0xffffffff]" "[0, 0, 1]"] by simp
  moreover have "bu_num (bu_of_u64 5 0x100000002) = 0x100000002"
    using base_uint_arith_mod [where width = 5 and u = "0x100000002"] by simp
  ultimately show ?thesis by (simp add: bu_num_def)
qed

text \<open>
  C39. \<^verbatim>\<open>compare\<close> looks for the first differing byte; its result is the sign of the difference
  of the two numbers, so the byte-wise order of two \<^verbatim>\<open>base_uint\<close>s of one width is the numeric
  order.
\<close>

theorem base_uint_compare_numeric:
  assumes "length a = length b"
  shows "bu_compare a b = sgn (int (bu_num a) - int (bu_num b))"
  using assms by (simp add: bu_compare_def bytes_compare_sgn length_bu_bytes be_val_concat_words)

theorem base_uint_compare_numeric_witness:
  "bu_compare [0, 1, 0] [0, 0, 0xffffffff] = 1"
proof -
  have "bu_compare [0, 1, 0] [0, 0, 0xffffffff]
      = sgn (int (bu_num [0, 1, 0]) - int (bu_num [0, 0, 0xffffffff]))"
    by (rule base_uint_compare_numeric) simp
  then show ?thesis by (simp add: bu_num_def)
qed

text \<open>
  C40. Hex text round trip: \<^verbatim>\<open>strUnHex\<close> inverts \<^verbatim>\<open>strHex\<close> on every blob, and \<^verbatim>\<open>setHex\<close>, strict or
  not, reads back the \<^verbatim>\<open>to_string\<close> form of a \<^verbatim>\<open>base_uint\<close> of its own width, reporting success.
\<close>

theorem hex_roundtrip:
  "strunhex (strhex bs) = Some bs \<and> sethex (length bs) bstrict (strhex bs) = (True, bs)"
  by (simp add: strunhex_strhex_aux sethex_strhex_aux)

end
