(* ===== verification/Uint_Types.thy ===== *)
theory Uint_Types
  imports Base_Uint
begin

text \<open>
  Accounts, currencies, issues and order books: \<^verbatim>\<open>src/ripple/protocol/UintTypes.h\<close>,
  \<^verbatim>\<open>UintTypes.cpp\<close>, \<^verbatim>\<open>Issue.h\<close> and \<^verbatim>\<open>Book.h\<close>. The two native currencies are XRP (all zero
  bits) and VBC (\<^verbatim>\<open>0xff\<close>). The locale \<open>three_way\<close> is the contract of the \<^verbatim>\<open>compare\<close> functions
  the sources build their relational operators on; it is interpreted for \<^verbatim>\<open>base_uint\<close>,
  \<^verbatim>\<open>Issue\<close> and \<^verbatim>\<open>Book\<close>.
\<close>

type_synonym account = uint160
type_synonym currency = uint160
type_synonym directory = uint256

record issue =
  currency :: currency
  account :: account

record book =
  book_in :: issue
  book_out :: issue

section \<open>Three-way comparison\<close>

text \<open>What \<^verbatim>\<open>operator<\<close>, \<^verbatim>\<open>==\<close> and the rest need of a \<^verbatim>\<open>compare\<close> function on the values \<open>dom\<close>.\<close>

locale three_way =
  fixes dom :: "'a \<Rightarrow> bool"
    and cmp :: "'a \<Rightarrow> 'a \<Rightarrow> int"
  assumes cmp_swap: "dom a \<Longrightarrow> dom b \<Longrightarrow> sgn (cmp b a) = - sgn (cmp a b)"
    and cmp_trans: "dom a \<Longrightarrow> dom b \<Longrightarrow> dom c \<Longrightarrow> cmp a b \<le> 0 \<Longrightarrow> cmp b c \<le> 0 \<Longrightarrow> cmp a c \<le> 0"
begin

lemma cmp_refl: "dom a \<Longrightarrow> cmp a a = 0"
  using cmp_swap [of a a] by (simp add: sgn_if split: if_splits)

lemma cmp_neg_iff: "dom a \<Longrightarrow> dom b \<Longrightarrow> cmp b a < 0 \<longleftrightarrow> 0 < cmp a b"
  using cmp_swap [of a b] by (simp add: sgn_if split: if_splits)

lemma cmp_zero_sym: "dom a \<Longrightarrow> dom b \<Longrightarrow> cmp a b = 0 \<longleftrightarrow> cmp b a = 0"
  using cmp_swap [of a b] by (simp add: sgn_if split: if_splits)

lemma less_irrefl: "dom a \<Longrightarrow> \<not> cmp a a < 0"
  by (simp add: cmp_refl)

lemma less_trans:
  assumes "dom a" "dom b" "dom c" "cmp a b < 0" "cmp b c < 0"
  shows "cmp a c < 0"
proof (rule ccontr)
  assume "\<not> cmp a c < 0"
  then have "cmp c a \<le> 0"
    using assms cmp_neg_iff [of c a] by linarith
  then have "cmp b a \<le> 0"
    using assms cmp_trans [of b c a] by simp
  moreover have "cmp b a > 0"
    using assms cmp_neg_iff [of b a] by simp
  ultimately show False by simp
qed

lemma less_total: "dom a \<Longrightarrow> dom b \<Longrightarrow> cmp a b < 0 \<or> cmp a b = 0 \<or> cmp b a < 0"
  using cmp_neg_iff [of a b] by linarith

lemma incomparable_iff:
  "dom a \<Longrightarrow> dom b \<Longrightarrow> cmp a b = 0 \<longleftrightarrow> \<not> cmp a b < 0 \<and> \<not> cmp b a < 0"
  using cmp_neg_iff [of a b] by auto

lemma equiv_trans:
  assumes "dom a" "dom b" "dom c" "cmp a b = 0" "cmp b c = 0"
  shows "cmp a c = 0"
proof -
  have "cmp a c \<le> 0" using assms cmp_trans [of a b c] by simp
  moreover have "cmp c a \<le> 0"
    using assms cmp_trans [of c b a] cmp_zero_sym [of a b] cmp_zero_sym [of b c] by simp
  ultimately show ?thesis
    using assms cmp_neg_iff [of c a] by linarith
qed

lemma less_equiv_trans:
  assumes "dom a" "dom b" "dom c" "cmp a b < 0" "cmp b c = 0"
  shows "cmp a c < 0"
proof -
  have "cmp a c \<le> 0" using assms cmp_trans [of a b c] by simp
  moreover have "cmp a c \<noteq> 0"
    using assms equiv_trans [of a c b] cmp_zero_sym [of b c] by auto
  ultimately show ?thesis by simp
qed

lemmas strict_weak_order = less_irrefl less_trans equiv_trans

end

section \<open>Special values\<close>

definition xrpaccount :: account where "xrpaccount = 0"
definition xrpcurrency :: currency where "xrpcurrency = 0"
definition vbcaccount :: account where "vbcaccount = 0xff"
definition vbccurrency :: currency where "vbccurrency = 0xff"
definition noaccount :: account where "noaccount = 1"
definition nocurrency :: currency where "nocurrency = 1"
definition badcurrency :: currency where "badcurrency = 0x5652500000000000"
definition assetcurrency :: currency where
  "assetcurrency = 0x4153534554000000000000000000000000000000"

lemmas special_defs = xrpaccount_def xrpcurrency_def vbcaccount_def vbccurrency_def
  noaccount_def nocurrency_def

text \<open>Accounts and currencies have the same width, so one definition serves both overloads.\<close>

definition isxrp :: "uint160 \<Rightarrow> bool" where
  "isxrp c = (c = 0)"

definition isvbc :: "uint160 \<Rightarrow> bool" where
  "isvbc c = (c = vbccurrency)"

definition isnative :: "uint160 \<Rightarrow> bool" where
  "isnative c = (isxrp c \<or> isvbc c)"

definition xrpissue :: issue where
  "xrpissue = \<lparr>currency = xrpcurrency, account = xrpaccount\<rparr>"

definition vbcissue :: issue where
  "vbcissue = \<lparr>currency = vbccurrency, account = vbcaccount\<rparr>"

definition noissue :: issue where
  "noissue = \<lparr>currency = nocurrency, account = noaccount\<rparr>"

lemma native_values [simp]:
  "isnative xrpcurrency" "isnative vbccurrency" "isxrp xrpcurrency" "isvbc vbccurrency"
  "\<not> isvbc xrpcurrency" "\<not> isxrp vbccurrency" "\<not> isnative nocurrency" "\<not> isnative assetcurrency"
  by (simp_all add: isnative_def isxrp_def isvbc_def special_defs assetcurrency_def)

section \<open>Comparison of integers, issues and books\<close>

definition uint_compare :: "'a::len word \<Rightarrow> 'a word \<Rightarrow> int" where
  "uint_compare a b = (if a = b then 0 else if a > b then 1 else -1)"

definition isconsistent :: "issue \<Rightarrow> bool" where
  "isconsistent ac =
     (isxrp (currency ac) = isxrp (account ac) \<or> isvbc (currency ac) = isvbc (account ac))"

definition issue_compare :: "issue \<Rightarrow> issue \<Rightarrow> int" where
  "issue_compare lhs rhs =
     (let diff = uint_compare (currency lhs) (currency rhs)
      in if diff \<noteq> 0 then diff
         else if isnative (currency lhs) then 0
         else uint_compare (account lhs) (account rhs))"

definition issue_eq :: "issue \<Rightarrow> issue \<Rightarrow> bool" where
  "issue_eq lhs rhs = (issue_compare lhs rhs = 0)"

definition issue_less :: "issue \<Rightarrow> issue \<Rightarrow> bool" where
  "issue_less lhs rhs = (issue_compare lhs rhs < 0)"

definition issue_greater :: "issue \<Rightarrow> issue \<Rightarrow> bool" where
  "issue_greater lhs rhs = issue_less rhs lhs"

definition issue_geq :: "issue \<Rightarrow> issue \<Rightarrow> bool" where
  "issue_geq lhs rhs = (\<not> issue_less lhs rhs)"

definition issue_leq :: "issue \<Rightarrow> issue \<Rightarrow> bool" where
  "issue_leq lhs rhs = (\<not> issue_less rhs lhs)"

definition book_isconsistent :: "book \<Rightarrow> bool" where
  "book_isconsistent b =
     (isconsistent (book_in b) \<and> isconsistent (book_out b) \<and> \<not> issue_eq (book_in b) (book_out b))"

definition reversed :: "book \<Rightarrow> book" where
  "reversed b = \<lparr>book_in = book_out b, book_out = book_in b\<rparr>"

definition book_compare :: "book \<Rightarrow> book \<Rightarrow> int" where
  "book_compare lhs rhs =
     (let diff = issue_compare (book_in lhs) (book_in rhs)
      in if diff \<noteq> 0 then diff else issue_compare (book_out lhs) (book_out rhs))"

definition book_eq :: "book \<Rightarrow> book \<Rightarrow> bool" where
  "book_eq lhs rhs = (issue_eq (book_in lhs) (book_in rhs) \<and> issue_eq (book_out lhs) (book_out rhs))"

definition book_less :: "book \<Rightarrow> book \<Rightarrow> bool" where
  "book_less lhs rhs =
     (let diff = issue_compare (book_in lhs) (book_in rhs)
      in if diff \<noteq> 0 then diff < 0 else issue_less (book_out lhs) (book_out rhs))"

lemma uint_compare_bytes:
  "uint_compare a b = sgn (int (unat a) - int (unat b))"
  by (auto simp: uint_compare_def word_less_alt word_uint_eq_iff)

interpretation uint_cmp: three_way "\<lambda>_. True" "uint_compare :: 'a::len word \<Rightarrow> 'a word \<Rightarrow> int"
  by unfold_locales (auto simp: uint_compare_def split: if_splits)

lemma uint_compare_0 [simp]: "uint_compare a b = 0 \<longleftrightarrow> a = b"
  by (simp add: uint_compare_def)

text \<open>A comparison that looks at a first key and, where that is equal, at a second one.\<close>

lemma three_way_lex:
  assumes "three_way (\<lambda>_. True) f" "three_way (\<lambda>_. True) g"
  shows "three_way (\<lambda>_. True) (\<lambda>a b. if f a b \<noteq> 0 then f a b else g a b)"
proof -
  note f_swap = three_way.cmp_swap [OF assms(1) TrueI TrueI]
   and f_trans = three_way.cmp_trans [OF assms(1) TrueI TrueI TrueI]
   and f_zero = three_way.cmp_zero_sym [OF assms(1) TrueI TrueI]
   and f_less = three_way.less_trans [OF assms(1) TrueI TrueI TrueI]
   and f_equiv = three_way.equiv_trans [OF assms(1) TrueI TrueI TrueI]
   and f_le = three_way.less_equiv_trans [OF assms(1) TrueI TrueI TrueI]
   and g_swap = three_way.cmp_swap [OF assms(2) TrueI TrueI]
   and g_trans = three_way.cmp_trans [OF assms(2) TrueI TrueI TrueI]
  show ?thesis
  proof
    fix a b
    show "sgn (if f b a \<noteq> 0 then f b a else g b a) = - sgn (if f a b \<noteq> 0 then f a b else g a b)"
      using f_swap [of a b] g_swap [of a b] f_zero [of a b] by simp
  next
    fix a b c
    assume ab: "(if f a b \<noteq> 0 then f a b else g a b) \<le> 0"
      and bc: "(if f b c \<noteq> 0 then f b c else g b c) \<le> 0"
    then have le: "f a b \<le> 0" "f b c \<le> 0" by (auto split: if_splits)
    show "(if f a c \<noteq> 0 then f a c else g a c) \<le> 0"
    proof (cases "f a c = 0")
      case False
      then show ?thesis using f_trans [OF le] by simp
    next
      case True
      have "f c a = 0" using True f_zero by blast
      then have "f b a \<le> 0" "f c b \<le> 0"
        using f_trans [of b c a] f_trans [of c a b] le by simp_all
      then have "f a b = 0" "f b c = 0"
        using le f_swap [of a b] f_swap [of b c] by (auto simp: sgn_if split: if_splits)
      then show ?thesis using True ab bc g_trans [of a b c] by simp
    qed
  qed
qed

lemma three_way_pullback:
  "three_way (\<lambda>_. True) f \<Longrightarrow> three_way (\<lambda>_. True) (\<lambda>a b. f (k a) (k b))"
  by (rule three_way.intro) (auto dest: three_way.cmp_swap three_way.cmp_trans)

lemma issue_compare_lex:
  "issue_compare = (\<lambda>a b. if uint_compare (currency a) (currency b) \<noteq> 0
     then uint_compare (currency a) (currency b)
     else (\<lambda>a b. uint_compare (if isnative (currency a) then 0 else account a)
                            (if isnative (currency b) then 0 else account b)) a b)"
  by (intro ext) (simp add: issue_compare_def Let_def)

interpretation issue_cmp: three_way "\<lambda>_. True" issue_compare
  unfolding issue_compare_lex
  by (rule three_way_lex
       [OF three_way_pullback [OF uint_cmp.three_way_axioms, where k = currency]
           three_way_pullback [OF uint_cmp.three_way_axioms,
             where k = "\<lambda>i. if isnative (currency i) then 0 else account i"]])

lemma book_compare_lex:
  "book_compare = (\<lambda>a b. if issue_compare (book_in a) (book_in b) \<noteq> 0
     then issue_compare (book_in a) (book_in b)
     else issue_compare (book_out a) (book_out b))"
  by (intro ext) (simp add: book_compare_def Let_def)

interpretation book_cmp: three_way "\<lambda>_. True" book_compare
  unfolding book_compare_lex
  by (rule three_way_lex
       [OF three_way_pullback [OF issue_cmp.three_way_axioms, where k = book_in]
           three_way_pullback [OF issue_cmp.three_way_axioms, where k = book_out]])

lemma issue_eq_iff:
  "issue_eq a b \<longleftrightarrow>
     currency a = currency b \<and> (isnative (currency a) \<or> account a = account b)"
  by (simp add: issue_eq_def issue_compare_def Let_def)

lemma book_less_compare: "book_less a b \<longleftrightarrow> book_compare a b < 0"
  by (simp add: book_less_def book_compare_def issue_less_def Let_def)

lemma book_eq_compare: "book_eq a b \<longleftrightarrow> book_compare a b = 0"
  by (simp add: book_eq_def book_compare_def issue_eq_def Let_def)

lemma issue_eq_trans: "issue_eq i j \<Longrightarrow> issue_eq j k \<Longrightarrow> issue_eq i k"
  by (auto simp: issue_eq_iff)

lemma book_eq_trans: "book_eq a b \<Longrightarrow> book_eq b c \<Longrightarrow> book_eq a c"
  using issue_eq_trans by (auto simp: book_eq_def)

section \<open>Currency codes\<close>

definition systemcurrencycode :: string where "systemcurrencycode = ''vrp''"
definition systemcurrencycodevbc :: string where "systemcurrencycodevbc = ''vbc''"

definition allowed_characters :: string where
  "allowed_characters =
     ''abcdefghijklmnopqrstuvwxyz'' @ ''abcdefghijklmnopqrstuvwxyz'' @ ''0123456789'' @
     ''<>(){}[]|?!@#$%^&*''"

definition sisobits :: currency where
  "sisobits = 0xffffffffffffffffffffffff000000ffffffffff"

text \<open>The bytes \<^verbatim>\<open>begin ()\<close> to \<^verbatim>\<open>end ()\<close> of a 160-bit value, and back.\<close>

definition bytes160 :: "uint160 \<Rightarrow> byte list" where
  "bytes160 w = be_bytes 20 (unat w)"

definition word160 :: "byte list \<Rightarrow> uint160" where
  "word160 bs = of_nat (be_val bs)"

definition iso_code :: "currency \<Rightarrow> string" where
  "iso_code c = map (\<lambda>b. char_of (unat b)) (take 3 (drop 12 (bytes160 c)))"

definition currency_to_string :: "currency \<Rightarrow> string" where
  "currency_to_string c =
     (if c = 0 then systemcurrencycode
      else if c = vbccurrency then systemcurrencycodevbc
      else if c = nocurrency then ''1''
      else if c AND sisobits = 0
              \<and> iso_code c \<noteq> systemcurrencycode \<and> iso_code c \<noteq> systemcurrencycodevbc
              \<and> (\<forall>x\<in>set (iso_code c). x \<in> set allowed_characters)
      then iso_code c
      else strhex (bytes160 c))"

definition toupper :: "char \<Rightarrow> char" where
  "toupper c =
     (let n = of_char c :: nat in if 97 \<le> n \<and> n \<le> 122 then char_of (n - 32) else c)"

definition to_currency_opt :: "string \<Rightarrow> currency option" where
  "to_currency_opt code =
     (if code = [] \<or> code = systemcurrencycode then Some 0
      else if code = [] \<or> code = systemcurrencycodevbc then Some vbccurrency
      else if length code = 3
      then Some (word160 (replicate 12 0 @ map (\<lambda>c. of_nat (of_char (toupper c))) code
                          @ replicate 2 0 @ replicate 3 0))
      else if length code = 40
      then (case sethex 20 False code of (ok, bs) \<Rightarrow> if ok then Some (word160 bs) else None)
      else None)"

definition to_currency :: "string \<Rightarrow> currency" where
  "to_currency code = (case to_currency_opt code of None \<Rightarrow> nocurrency | Some c \<Rightarrow> c)"

lemma word160_bytes160 [simp]: "word160 (bytes160 w) = w"
proof -
  have "unat w < 256 ^ 20"
    using unsigned_less [of w] by simp
  then show ?thesis
    by (simp add: word160_def bytes160_def be_val_be_bytes)
qed

lemma length_bytes160 [simp]: "length (bytes160 w) = 20"
  by (simp add: bytes160_def)

lemma be_val_eq_0: "be_val bs = 0 \<Longrightarrow> bs = replicate (length bs) 0"
proof (rule be_val_inject)
  show "be_val bs = 0 \<Longrightarrow> be_val bs = be_val (replicate (length bs) 0)"
    by (induction bs) auto
qed simp

lemma sisobits_word:
  assumes "c AND sisobits = 0"
  shows "\<exists>y. unat c = y * 2 ^ 40 \<and> y < 2 ^ 24"
proof -
  have mask: "sisobits = NOT (push_bit 40 (mask 24))"
    by (simp add: sisobits_def mask_eq_exp_minus_1)
  have "bit c n \<longrightarrow> 40 \<le> n \<and> n < 64" for n
    using assms bit_and_iff [of c sisobits n]
    by (cases "n < 160") (auto simp: mask bit_simps dest: bit_imp_le_length)
  then have "c = push_bit 40 (take_bit 24 (drop_bit 40 c))"
    by (intro bit_word_eqI) (fastforce simp: bit_simps)
  moreover have "unat (take_bit 24 (drop_bit 40 c)) < 2 ^ 24"
    by (simp add: take_bit_eq_mod unat_mod_distrib)
  moreover have "unat (push_bit 40 y) = unat y * 2 ^ 40" if "unat y < 2 ^ 24" for y :: currency
    using that by (simp add: push_bit_eq_mult unat_word_ariths)
  ultimately show ?thesis by metis
qed

lemma low_high_zero:
  assumes "y * 2 ^ 40 = a * 2 ^ 64 + b * 2 ^ 40 + (c :: nat)" "c < 2 ^ 40" "b < 2 ^ 24" "y < 2 ^ 24"
  shows "a = 0 \<and> c = 0"
proof -
  have eq: "y * 2 ^ 40 = (a * 2 ^ 24 + b) * 2 ^ 40 + c"
    using assms(1) by simp
  have "(y * 2 ^ 40) mod 2 ^ 40 = c"
    by (simp only: eq mod_mult_self3 mod_less assms(2))
  moreover have "(y * 2 ^ 40) div 2 ^ 40 = a * 2 ^ 24 + b"
    using assms(2) div_mult_self3 [of "2 ^ 40" "a * 2 ^ 24 + b" c] unfolding eq by (simp only: div_less)
  ultimately show ?thesis using assms(3,4) by simp
qed

lemma iso_bytes:
  assumes "c AND sisobits = 0"
  shows "bytes160 c = replicate 12 0 @ take 3 (drop 12 (bytes160 c)) @ replicate 5 0"
proof -
  obtain y where y: "unat c = y * 2 ^ 40" "y < 2 ^ 24"
    using sisobits_word [OF assms] by blast
  let ?b = "bytes160 c"
  let ?A = "take 12 ?b" and ?B = "take 3 (drop 12 ?b)" and ?C = "drop 15 ?b"
  have split: "?b = ?A @ ?B @ ?C"
    by (metis append_take_drop_id drop_drop numeral_plus_numeral add_num_simps(2,4) semiring_norm(3,9))
  have "be_val ?b = unat c"
  proof -
    have "unat c < 256 ^ 20" using unsigned_less [of c] by simp
    then show ?thesis by (simp only: bytes160_def be_val_be_bytes mod_less)
  qed
  moreover have "be_val ?b = be_val ?A * 256 ^ 8 + be_val ?B * 256 ^ 5 + be_val ?C"
    by (subst split) (simp add: be_val_append)
  moreover have "be_val ?C < 256 ^ 5" "be_val ?B < 256 ^ 3"
    using be_val_bound [of ?C] be_val_bound [of ?B] by simp_all
  ultimately have "be_val ?A = 0 \<and> be_val ?C = 0"
    using y low_high_zero [of y "be_val ?A" "be_val ?B" "be_val ?C"] by simp
  then have "?A = replicate 12 0" "?C = replicate 5 0"
    using be_val_eq_0 [of ?A] be_val_eq_0 [of ?C] by simp_all
  with split show ?thesis by simp
qed

lemma to_currency_iso:
  assumes iso: "c AND sisobits = 0" and upper: "\<forall>x\<in>set (iso_code c). toupper x = x"
    and code: "iso_code c \<noteq> systemcurrencycode" "iso_code c \<noteq> systemcurrencycodevbc"
  shows "to_currency_opt (iso_code c) = Some c"
proof -
  let ?b3 = "take 3 (drop 12 (bytes160 c))"
  have len: "length (iso_code c) = 3" by (simp add: iso_code_def)
  have "map (\<lambda>x. of_nat (of_char (toupper x))) (iso_code c) = ?b3"
    using upper by (simp add: iso_code_def of_char_of unat_byte_lt cong: map_cong)
  then have "replicate 12 0 @ map (\<lambda>x. of_nat (of_char (toupper x))) (iso_code c)
      @ replicate 2 0 @ replicate 3 0 = bytes160 c"
    using iso_bytes [OF iso] by (simp add: numeral_eq_Suc)
  moreover have "iso_code c \<noteq> []" using len by auto
  ultimately show ?thesis
    using len code by (simp only: to_currency_opt_def word160_bytes160 if_False if_True simp_thms)
qed

lemma to_currency_hex:
  "to_currency_opt (strhex (bytes160 c)) = Some c"
proof -
  have "length (strhex (bytes160 c)) = 40" by simp
  then have "strhex (bytes160 c) \<noteq> []" "strhex (bytes160 c) \<noteq> systemcurrencycode"
      "strhex (bytes160 c) \<noteq> systemcurrencycodevbc" "length (strhex (bytes160 c)) \<noteq> 3"
    by (auto simp: systemcurrencycode_def systemcurrencycodevbc_def simp del: length_strhex)
  moreover have "sethex 20 False (strhex (bytes160 c)) = (True, bytes160 c)"
    by (simp add: sethex_strhex_aux)
  ultimately show ?thesis by (simp add: to_currency_opt_def)
qed

section \<open>Properties\<close>

text \<open>
  C36. \<^verbatim>\<open>Issue\<close> and \<^verbatim>\<open>Book\<close> have a strict weak ordering: \<^verbatim>\<open>operator<\<close> is irreflexive and
  transitive, two values are incomparable exactly when \<^verbatim>\<open>operator==\<close> holds, and that is transitive too. Issues
  of either native currency are equal whatever account they name, where the comment on \<^verbatim>\<open>compare\<close> names XRP only.
\<close>

theorem issue_book_strict_weak_order:
  "\<not> issue_less i i \<and>
   (issue_less i j \<and> issue_less j k \<longrightarrow> issue_less i k) \<and>
   (issue_eq i j \<longleftrightarrow> \<not> issue_less i j \<and> \<not> issue_less j i) \<and>
   (issue_eq i j \<and> issue_eq j k \<longrightarrow> issue_eq i k) \<and>
   (issue_eq i j \<longleftrightarrow> currency i = currency j \<and> (isnative (currency i) \<or> account i = account j)) \<and>
   \<not> book_less a a \<and>
   (book_less a b \<and> book_less b c \<longrightarrow> book_less a c) \<and>
   (book_eq a b \<longleftrightarrow> \<not> book_less a b \<and> \<not> book_less b a) \<and>
   (book_eq a b \<and> book_eq b c \<longrightarrow> book_eq a c)"
  using issue_eq_trans [of i j k] book_eq_trans [of a b c] issue_cmp.less_irrefl [of i] issue_cmp.less_trans [of i j k] issue_cmp.incomparable_iff [of i j]
    book_cmp.less_irrefl [of a] book_cmp.less_trans [of a b c] book_cmp.incomparable_iff [of a b]
    issue_eq_iff [of i j]
  unfolding issue_less_def issue_eq_def book_less_compare book_eq_compare by blast

theorem issue_book_strict_weak_order_witness:
  "issue_less xrpissue vbcissue \<and> issue_less vbcissue \<lparr>currency = 0x100, account = 7\<rparr> \<and>
   issue_less xrpissue \<lparr>currency = 0x100, account = 7\<rparr> \<and>
   book_less \<lparr>book_in = xrpissue, book_out = vbcissue\<rparr> \<lparr>book_in = vbcissue, book_out = xrpissue\<rparr>"
proof -
  let ?k = "\<lparr>currency = 0x100, account = 7\<rparr>"
  have 1: "issue_less xrpissue vbcissue" "issue_less vbcissue ?k"
    by (simp_all add: issue_less_def issue_compare_def uint_compare_def xrpissue_def vbcissue_def
        special_defs)
  then have "issue_less xrpissue ?k"
    using issue_book_strict_weak_order [of xrpissue vbcissue ?k] by blast
  with 1 show ?thesis
    by (simp add: book_less_def issue_less_def issue_compare_def uint_compare_def xrpissue_def
        vbcissue_def special_defs)
qed

text \<open>
  \<^verbatim>\<open>isConsistent\<close> (\<^verbatim>\<open>Issue.h\<close>) joins its two tests with \<^verbatim>\<open>||\<close>, so it rejects an issue only
  when the issue mixes the two native currencies: XRP issued by the VBC account, or VBC by the
  XRP account. In particular an issue of a non-native currency by a native account passes.
\<close>

theorem isconsistent_rejects_only_mixed_natives:
  "(\<not> isconsistent i \<longleftrightarrow>
      isxrp (currency i) \<and> isvbc (account i) \<or> isvbc (currency i) \<and> isxrp (account i)) \<and>
   isconsistent \<lparr>currency = assetcurrency, account = xrpaccount\<rparr>"
  by (auto simp: isconsistent_def isxrp_def isvbc_def special_defs assetcurrency_def)

text \<open>
  C37. Parsing the text of a currency gives the currency back, for the native currencies, the
  placeholder, hex codes and every three-character code that upper-casing leaves alone.
\<close>

theorem currency_text_roundtrip:
  assumes "c AND sisobits = 0 \<longrightarrow> (\<forall>x\<in>set (iso_code c). toupper x = x)"
  shows "to_currency (currency_to_string c) = c"
proof -
  have special: "to_currency systemcurrencycode = 0" "to_currency systemcurrencycodevbc = vbccurrency"
      "to_currency ''1'' = nocurrency"
    by (simp_all add: to_currency_def to_currency_opt_def systemcurrencycode_def systemcurrencycodevbc_def)
  show ?thesis
    using assms special to_currency_hex [of c] to_currency_iso [of c]
    by (auto simp: currency_to_string_def) (auto simp: to_currency_def)
qed

theorem currency_text_roundtrip_witness:
  "to_currency (currency_to_string 0x3132330000000000) = 0x3132330000000000 \<and>
   currency_to_string 0x3132330000000000 = ''123''"
proof -
  let ?c = "0x3132330000000000 :: currency"
  have iso: "iso_code ?c = ''123''"
    by (simp add: iso_code_def bytes160_def be_eval char_of_eq_iff)
  have "to_currency (currency_to_string ?c) = ?c"
    by (rule currency_text_roundtrip) (simp add: iso toupper_def)
  moreover have "currency_to_string ?c = ''123''"
    by (simp add: currency_to_string_def iso sisobits_def special_defs systemcurrencycode_def
        systemcurrencycodevbc_def allowed_characters_def)
  ultimately show ?thesis by simp
qed

end
