(* ===== verification/Serializer.thy ===== *)
theory Serializer
  imports Uint_Types
begin

text \<open>
  The binary format of \<^verbatim>\<open>src/ripple/protocol/Serializer.h\<close> and \<^verbatim>\<open>Serializer.cpp\<close>: the writer
  \<^verbatim>\<open>Serializer\<close> (a growing byte vector; each \<^verbatim>\<open>add\<close> returns the old length), its positional
  readers, and the throwing reader \<^verbatim>\<open>SerializerIterator\<close>; and \<^verbatim>\<open>STVector256\<close>, a client that is
  needed by the directories. The locale \<open>codec\<close> is the contract of a writer and its iterator
  reader; it is interpreted for every fixed-width integer, for bit strings, for
  variable-length blobs, for field identifiers and for \<^verbatim>\<open>STVector256\<close>.
\<close>

type_synonym serializer = blob
type_synonym hash = "blob \<Rightarrow> uint256"

record seriter =
  mserializer :: serializer
  mpos :: nat

section \<open>Writing\<close>

definition addzeros :: "serializer \<Rightarrow> nat \<Rightarrow> nat \<times> serializer" where
  "addzeros s n = (length s, s @ replicate n 0)"

definition addraw :: "serializer \<Rightarrow> blob \<Rightarrow> nat \<times> serializer" where
  "addraw s v = (length s, s @ v)"

definition add8 :: "serializer \<Rightarrow> byte \<Rightarrow> nat \<times> serializer" where
  "add8 s b = (length s, s @ [b])"

definition add16 :: "serializer \<Rightarrow> u16 \<Rightarrow> nat \<times> serializer" where
  "add16 s i = (length s, s @ [ucast (drop_bit 8 i), ucast (i AND 0xff)])"

definition add32 :: "serializer \<Rightarrow> u32 \<Rightarrow> nat \<times> serializer" where
  "add32 s i = (length s, s @
     [ucast (drop_bit 24 i), ucast (drop_bit 16 i AND 0xff), ucast (drop_bit 8 i AND 0xff),
      ucast (i AND 0xff)])"

definition add64 :: "serializer \<Rightarrow> u64 \<Rightarrow> nat \<times> serializer" where
  "add64 s i = (length s, s @
     [ucast (drop_bit 56 i), ucast (drop_bit 48 i AND 0xff), ucast (drop_bit 40 i AND 0xff),
      ucast (drop_bit 32 i AND 0xff), ucast (drop_bit 24 i AND 0xff), ucast (drop_bit 16 i AND 0xff),
      ucast (drop_bit 8 i AND 0xff), ucast (i AND 0xff)])"

definition addbitstring :: "serializer \<Rightarrow> 'a::len word \<Rightarrow> nat \<times> serializer" where
  "addbitstring s v = (length s, s @ be_bytes (LENGTH('a) div 8) (unat v))"

definition add128 :: "serializer \<Rightarrow> uint128 \<Rightarrow> nat \<times> serializer" where
  "add128 s i = addbitstring s i"

definition add160 :: "serializer \<Rightarrow> uint160 \<Rightarrow> nat \<times> serializer" where
  "add160 s i = addbitstring s i"

definition add256 :: "serializer \<Rightarrow> uint256 \<Rightarrow> nat \<times> serializer" where
  "add256 s i = addbitstring s i"

definition addfieldid :: "serializer \<Rightarrow> int \<Rightarrow> int \<Rightarrow> (nat \<times> serializer) res" where
  "addfieldid s type name =
     (if \<not> (0 < type \<and> type < 256 \<and> 0 < name \<and> name < 256) then Inl Assertion_failed
      else if type < 16 then
        if name < 16
        then Inr (length s, s @ [word_of_int (type * 16) OR word_of_int name])
        else Inr (length s, s @ [word_of_int (type * 16), word_of_int name])
      else if name < 16
      then Inr (length s, s @ [word_of_int name, word_of_int type])
      else Inr (length s, s @ [0, word_of_int type, word_of_int name]))"

section \<open>Variable-length prefixes\<close>

definition encodevl :: "int \<Rightarrow> blob res" where
  "encodevl len =
     (if len \<le> 192 then Inr [word_of_int len]
      else if len \<le> 12480 then
        let l = len - 193 in Inr [193 + word_of_int (l div 256), word_of_int (l mod 256)]
      else if len \<le> 918744 then
        let l = len - 12481
        in Inr [241 + word_of_int (l div 65536), word_of_int (l div 256 mod 256), word_of_int (l mod 256)]
      else Inl (Overflow_error ''lenlen''))"

definition encodelengthlength :: "int \<Rightarrow> int res" where
  "encodelengthlength len =
     (if len < 0 then Inl (Overflow_error ''len<0'')
      else if len \<le> 192 then Inr 1
      else if len \<le> 12480 then Inr 2
      else if len \<le> 918744 then Inr 3
      else Inl (Overflow_error ''len>918744''))"

definition decodelengthlength :: "int \<Rightarrow> int res" where
  "decodelengthlength b1 =
     (if b1 < 0 then Inl (Overflow_error ''b1<0'')
      else if b1 \<le> 192 then Inr 1
      else if b1 \<le> 240 then Inr 2
      else if b1 \<le> 254 then Inr 3
      else Inl (Overflow_error ''b1>254''))"

definition decodevllength1 :: "int \<Rightarrow> int res" where
  "decodevllength1 b1 =
     (if b1 < 0 then Inl (Overflow_error ''b1<0'')
      else if b1 > 254 then Inl (Overflow_error ''b1>254'')
      else Inr b1)"

definition decodevllength2 :: "int \<Rightarrow> int \<Rightarrow> int res" where
  "decodevllength2 b1 b2 =
     (if b1 < 193 then Inl (Overflow_error ''b1<193'')
      else if b1 > 240 then Inl (Overflow_error ''b1>240'')
      else Inr (193 + (b1 - 193) * 256 + b2))"

definition decodevllength3 :: "int \<Rightarrow> int \<Rightarrow> int \<Rightarrow> int res" where
  "decodevllength3 b1 b2 b3 =
     (if b1 < 241 then Inl (Overflow_error ''b1<241'')
      else if b1 > 254 then Inl (Overflow_error ''b1>254'')
      else Inr (12481 + (b1 - 241) * 65536 + b2 * 256 + b3))"

text \<open>The size of the blob is converted to \<^verbatim>\<open>int\<close> on the way into \<^verbatim>\<open>encodeVL\<close>.\<close>

definition addvl :: "serializer \<Rightarrow> blob \<Rightarrow> (nat \<times> serializer) res" where
  "addvl s v =
     rbind (encodevl (to_i32 (int (length v)))) (\<lambda>p.
       let (ret, s1) = addraw s p; (_, s2) = addraw s1 v
       in rbind (encodelengthlength (to_i32 (int (length v)))) (\<lambda>n.
            rassert (int (length s2) = int ret + int (length v) + n) (Inr (ret, s2))))"

text \<open>
  The overload for \<^verbatim>\<open>std::string\<close> passes \<^verbatim>\<open>string.size ()\<close> to \<^verbatim>\<open>addRaw\<close>. The only viable overload
  takes a \<^verbatim>\<open>Serializer const&\<close>, which the converting constructor \<^verbatim>\<open>Serializer (int n)\<close> builds
  as an empty serializer with capacity \<^verbatim>\<open>n\<close>: nothing is written for the length.
\<close>

definition serializer_reserve :: "int \<Rightarrow> serializer" where
  "serializer_reserve n = []"

definition addvl_string :: "serializer \<Rightarrow> blob \<Rightarrow> nat \<times> serializer" where
  "addvl_string s str =
     (let (ret, s1) = addraw s (serializer_reserve (int (length str)))
      in if str = [] then (ret, s1) else (ret, snd (addraw s1 str)))"

section \<open>Positional reading\<close>

definition get8 :: "serializer \<Rightarrow> nat \<Rightarrow> int option" where
  "get8 s off = (if off \<ge> length s then None else Some (uint (s ! off)))"

text \<open>\<^verbatim>\<open>o <<= 8; o |= *ptr++\<close>\<close>

definition shl_or :: "'a::len word \<Rightarrow> byte \<Rightarrow> 'a word" where
  "shl_or out b = push_bit 8 out OR ucast b"

definition get16 :: "serializer \<Rightarrow> nat \<Rightarrow> u16 option" where
  "get16 s off =
     (if off + 2 > length s then None
      else Some (shl_or (ucast (s ! off)) (s ! (off + 1))))"

definition get32 :: "serializer \<Rightarrow> nat \<Rightarrow> u32 option" where
  "get32 s off =
     (if off + 4 > length s then None
      else Some (shl_or (shl_or (shl_or (ucast (s ! off)) (s ! (off + 1))) (s ! (off + 2))) (s ! (off + 3))))"

definition get64 :: "serializer \<Rightarrow> nat \<Rightarrow> u64 option" where
  "get64 s off =
     (if off + 8 > length s then None
      else Some (shl_or (shl_or (shl_or (shl_or (shl_or (shl_or (shl_or
             (ucast (s ! off)) (s ! (off + 1))) (s ! (off + 2))) (s ! (off + 3))) (s ! (off + 4)))
             (s ! (off + 5))) (s ! (off + 6))) (s ! (off + 7))))"

definition getbitstring :: "serializer \<Rightarrow> nat \<Rightarrow> 'a::len word option" where
  "getbitstring s off =
     (if off + LENGTH('a) div 8 \<le> length s
      then Some (of_nat (be_val (take (LENGTH('a) div 8) (drop off s)))) else None)"

definition getraw :: "serializer \<Rightarrow> nat \<Rightarrow> nat \<Rightarrow> blob option" where
  "getraw s off len = (if off + len > length s then None else Some (take len (drop off s)))"

definition getfieldid :: "serializer \<Rightarrow> nat \<Rightarrow> (int \<times> int) option" where
  "getfieldid s off =
     (case get8 s off of
        None \<Rightarrow> None
      | Some b \<Rightarrow>
          let name = b mod 16; type = b div 16
          in case (if type = 0
                   then (case get8 s (off + 1) of
                           None \<Rightarrow> None
                         | Some t \<Rightarrow> if t = 0 \<or> t < 16 then None else Some (t, off + 1))
                   else Some (type, off)) of
               None \<Rightarrow> None
             | Some (ty, off1) \<Rightarrow>
                 if name = 0
                 then (case get8 s (off1 + 1) of
                         None \<Rightarrow> None
                       | Some n \<Rightarrow> if n = 0 \<or> n < 16 then None else Some (ty, n))
                 else Some (ty, name))"

definition vl_datlen :: "serializer \<Rightarrow> nat \<Rightarrow> int \<Rightarrow> int \<Rightarrow> (int \<times> nat) option" where
  "vl_datlen s off b1 lenlen =
     (let ok = (\<lambda>r off'. case r of Inl _ \<Rightarrow> None | Inr l \<Rightarrow> Some (l, off'))
      in if lenlen = 1 then ok (decodevllength1 b1) off
         else if lenlen = 2
         then (case get8 s off of None \<Rightarrow> None | Some b2 \<Rightarrow> ok (decodevllength2 b1 b2) (off + 1))
         else if lenlen = 3
         then (case get8 s off of
                 None \<Rightarrow> None
               | Some b2 \<Rightarrow>
                   (case get8 s (off + 1) of
                      None \<Rightarrow> None
                    | Some b3 \<Rightarrow> ok (decodevllength3 b1 b2 b3) (off + 2)))
         else None)"

definition getvl :: "serializer \<Rightarrow> nat \<Rightarrow> (blob \<times> int) option res" where
  "getvl s off =
     (case get8 s off of
        None \<Rightarrow> Inr None
      | Some b1 \<Rightarrow>
          rbind (decodelengthlength b1) (\<lambda>lenlen.
            case vl_datlen s (off + 1) b1 lenlen of
              None \<Rightarrow> Inr None
            | Some (datlen, off') \<Rightarrow>
                (case getraw s off' (nat datlen) of
                   None \<Rightarrow> Inr None
                 | Some bs \<Rightarrow> Inr (Some (bs, lenlen + datlen)))))"

definition getvllength :: "serializer \<Rightarrow> nat \<Rightarrow> int option res" where
  "getvllength s off =
     (case get8 s off of
        None \<Rightarrow> Inr None
      | Some b1 \<Rightarrow>
          rbind (decodelengthlength b1) (\<lambda>lenlen.
            Inr (map_option fst (vl_datlen s (off + 1) b1 lenlen))))"

definition chop :: "serializer \<Rightarrow> nat \<Rightarrow> serializer option" where
  "chop s n = (if n > length s then None else Some (take (length s - n) s))"

definition removelastbyte :: "serializer \<Rightarrow> (int \<times> serializer) res" where
  "removelastbyte s = (if s = [] then Inl Assertion_failed else Inr (uint (last s), butlast s))"

section \<open>The throwing iterator\<close>

definition advance :: "nat \<Rightarrow> seriter \<Rightarrow> seriter" where
  "advance n it = it\<lparr>mpos := mpos it + n\<rparr>"

definition getbytesleft :: "seriter \<Rightarrow> int" where
  "getbytesleft it = int (length (mserializer it)) - int (mpos it)"

definition it_read :: "string \<Rightarrow> 'a option \<Rightarrow> nat \<Rightarrow> seriter \<Rightarrow> ('a \<times> seriter) res" where
  "it_read msg v n it = (case v of None \<Rightarrow> Inl (Runtime_error msg) | Some x \<Rightarrow> Inr (x, advance n it))"

definition it_get8 :: "seriter \<Rightarrow> (byte \<times> seriter) res" where
  "it_get8 it =
     it_read ''invalid serializer get8''
       (map_option word_of_int (get8 (mserializer it) (mpos it))) 1 it"

definition it_get16 :: "seriter \<Rightarrow> (u16 \<times> seriter) res" where
  "it_get16 it = it_read ''invalid serializer get16'' (get16 (mserializer it) (mpos it)) 2 it"

definition it_get32 :: "seriter \<Rightarrow> (u32 \<times> seriter) res" where
  "it_get32 it = it_read ''invalid serializer get32'' (get32 (mserializer it) (mpos it)) 4 it"

definition it_get64 :: "seriter \<Rightarrow> (u64 \<times> seriter) res" where
  "it_get64 it = it_read ''invalid serializer get64'' (get64 (mserializer it) (mpos it)) 8 it"

definition it_getbitstring :: "seriter \<Rightarrow> ('a::len word \<times> seriter) res" where
  "it_getbitstring it =
     it_read ''invalid serializer getbitstring'' (getbitstring (mserializer it) (mpos it))
       (LENGTH('a) div 8) it"

definition it_getfieldid :: "seriter \<Rightarrow> ((int \<times> int) \<times> seriter) res" where
  "it_getfieldid it =
     (case getfieldid (mserializer it) (mpos it) of
        None \<Rightarrow> Inl (Runtime_error ''invalid serializer getfieldid'')
      | Some (type, field) \<Rightarrow>
          Inr ((type, field),
               advance (1 + (if type \<ge> 16 then 1 else 0) + (if field \<ge> 16 then 1 else 0)) it))"

definition it_getvl :: "seriter \<Rightarrow> (blob \<times> seriter) res" where
  "it_getvl it =
     rbind (getvl (mserializer it) (mpos it)) (\<lambda>r.
       case r of
         None \<Rightarrow> Inl (Runtime_error ''invalid serializer getvl'')
       | Some (vl, len) \<Rightarrow> Inr (vl, advance (nat len) it))"

definition it_getraw :: "nat \<Rightarrow> seriter \<Rightarrow> blob \<times> seriter" where
  "it_getraw len it =
     (case getraw (mserializer it) (mpos it) len of None \<Rightarrow> [] | Some bs \<Rightarrow> bs, advance len it)"

section \<open>Fixed-width fields are big-endian bit strings\<close>

lemma ucast_and_ff: "(ucast (x AND 0xff) :: byte) = ucast (x :: 'a::len word)"
proof (rule bit_word_eqI)
  fix n assume "n < LENGTH(8)"
  moreover have ff: "(0xff :: 'a word) = mask 8" by (simp add: mask_eq_exp_minus_1)
  ultimately show "bit (ucast (x AND 0xff) :: byte) n = bit (ucast x :: byte) n"
    unfolding ff by (auto simp: bit_simps dest: bit_imp_le_length)
qed

lemma byte_of_div: "(of_nat (unat (x :: 'a::len word) div 2 ^ k) :: byte) = ucast (drop_bit k x)"
proof -
  have "unat x div 2 ^ k = unat (drop_bit k x)"
    by (simp add: unat_drop_bit_eq drop_bit_eq_div [where 'a = nat])
  then show ?thesis by simp
qed

lemma add8_bits: "add8 s i = addbitstring s i"
  by (simp add: add8_def addbitstring_def be_eval)

lemma add16_bits: "add16 s i = addbitstring s i"
  using byte_of_div [of i 8] by (simp add: add16_def addbitstring_def be_eval ucast_and_ff)

lemma add32_bits: "add32 s i = addbitstring s i"
  using byte_of_div [of i 8] byte_of_div [of i 16] byte_of_div [of i 24]
  by (simp add: add32_def addbitstring_def be_eval ucast_and_ff)

lemma add64_bits: "add64 s i = addbitstring s i"
  using byte_of_div [of i 8] byte_of_div [of i 16] byte_of_div [of i 24] byte_of_div [of i 32]
    byte_of_div [of i 40] byte_of_div [of i 48] byte_of_div [of i 56]
  by (simp add: add64_def addbitstring_def be_eval ucast_and_ff)

lemma unat_ucast_byte:
  assumes "8 \<le> LENGTH('a)"
  shows "unat (ucast (b :: byte) :: 'a::len word) = unat b"
proof -
  have "(2 :: nat) ^ 8 \<le> 2 ^ LENGTH('a)" using assms by (intro power_increasing) auto
  then have "unat b < 2 ^ LENGTH('a)" using unat_byte_lt [of b] by simp
  then show ?thesis by (simp add: unsigned_ucast_eq take_bit_nat_eq_self_iff)
qed

lemma unat_shl_or:
  assumes "unat (out :: 'a::len word) * 256 + 255 < 2 ^ LENGTH('a)"
  shows "unat (shl_or out b) = unat out * 256 + unat b"
proof -
  have len: "8 \<le> LENGTH('a)"
  proof (rule ccontr)
    assume "\<not> 8 \<le> LENGTH('a)"
    then have "(2 :: nat) ^ LENGTH('a) \<le> 2 ^ 7" by (intro power_increasing) auto
    with assms show False by simp
  qed
  have "shl_or out b = push_bit 8 out + ucast b"
    unfolding shl_or_def by (rule disjunctive_add [symmetric]) (auto simp: bit_simps dest: bit_imp_le_length)
  moreover have "unat (push_bit 8 out) = unat out * 256"
    using assms by (simp add: unsigned_push_bit_eq push_bit_eq_mult [where 'a = nat] take_bit_nat_eq_self_iff)
  ultimately show ?thesis
    using assms unat_byte_lt [of b] by (simp add: unat_word_ariths unat_ucast_byte [OF len])
qed

lemma take_drop_nth: "off + n \<le> length s \<Longrightarrow> take n (drop off s) = map (\<lambda>i. s ! (off + i)) [0..<n]"
  by (simp add: list_eq_iff_nth_eq)

text \<open>A chain of \<open>n\<close> shift-and-or steps reads \<open>n + 1\<close> bytes, if they fit.\<close>

fun shl_or_chain :: "'a::len word \<Rightarrow> byte list \<Rightarrow> 'a word" where
  "shl_or_chain out [] = out"
| "shl_or_chain out (b # bs) = shl_or_chain (shl_or out b) bs"

lemma unat_shl_or_chain:
  "(unat (out :: 'a::len word) + 1) * 256 ^ length bs \<le> 2 ^ LENGTH('a) \<Longrightarrow>
   unat (shl_or_chain out bs) = unat out * 256 ^ length bs + be_val bs"
proof (induction bs arbitrary: out)
  case Nil
  then show ?case by simp
next
  case (Cons b bs)
  have "(unat out + 1) * 256 * 1 \<le> (unat out + 1) * 256 * 256 ^ length bs"
    by (intro mult_left_mono) auto
  with Cons.prems have fit: "unat out * 256 + 255 < 2 ^ LENGTH('a)"
    by (simp add: algebra_simps)
  have "(unat out * 256 + unat b + 1) * 256 ^ length bs \<le> (unat out + 1) * 256 * 256 ^ length bs"
    using unat_byte_lt [of b] by (intro mult_right_mono) auto
  also have "\<dots> = (unat out + 1) * 256 ^ length (b # bs)" by (simp add: algebra_simps)
  also have "\<dots> \<le> 2 ^ LENGTH('a)" by (rule Cons.prems)
  finally have "(unat (shl_or out b) + 1) * 256 ^ length bs \<le> 2 ^ LENGTH('a)"
    unfolding unat_shl_or [OF fit] .
  then show ?case
    using Cons.IH [of "shl_or out b"] by (simp add: unat_shl_or [OF fit] algebra_simps)
qed

lemma shl_or_chain_be_val:
  assumes "8 * Suc (length bs) = LENGTH('a::len)"
  shows "shl_or_chain (ucast b) bs = (of_nat (be_val (b # bs)) :: 'a word)"
proof -
  have pow: "(256 :: nat) ^ Suc (length bs) = 2 ^ LENGTH('a)"
    by (simp only: assms [symmetric] power_mult) simp
  have u: "unat (ucast b :: 'a word) = unat b"
    by (rule unat_ucast_byte) (use assms in simp)
  have "(unat b + 1) * 256 ^ length bs \<le> 256 * 256 ^ length bs"
    using unat_byte_lt [of b] by (intro mult_right_mono) auto
  also have "\<dots> = 2 ^ LENGTH('a)" using pow by simp
  finally have "(unat (ucast b :: 'a word) + 1) * 256 ^ length bs \<le> 2 ^ LENGTH('a)"
    unfolding u .
  then have "unat (shl_or_chain (ucast b :: 'a word) bs) = be_val (b # bs)"
    by (simp add: unat_shl_or_chain u)
  moreover have "of_nat (unat (shl_or_chain (ucast b :: 'a word) bs)) = shl_or_chain (ucast b :: 'a word) bs"
    by simp
  ultimately show ?thesis by metis
qed

lemma upt_bytes [byte_simps]:
  "[0..<2] = [0, 1 :: nat]" "[0..<4] = [0, 1, 2, 3 :: nat]" "[0..<8] = [0, 1, 2, 3, 4, 5, 6, 7 :: nat]"
  by (simp_all add: upt_rec)

lemma get16_bits: "get16 s off = getbitstring s off"
  using shl_or_chain_be_val [of "[s ! (off + 1)]" "s ! off", where 'a = 16]
  by (simp add: get16_def getbitstring_def take_drop_nth byte_simps)

lemma get32_bits: "get32 s off = getbitstring s off"
  using shl_or_chain_be_val [of "[s ! (off + 1), s ! (off + 2), s ! (off + 3)]" "s ! off", where 'a = 32]
  by (simp add: get32_def getbitstring_def take_drop_nth byte_simps)

lemma get64_bits: "get64 s off = getbitstring s off"
  using shl_or_chain_be_val [of "[s ! (off + 1), s ! (off + 2), s ! (off + 3), s ! (off + 4),
      s ! (off + 5), s ! (off + 6), s ! (off + 7)]" "s ! off", where 'a = 64]
  by (simp add: get64_def getbitstring_def take_drop_nth byte_simps)

lemma get8_bits: "map_option word_of_int (get8 s off) = (getbitstring s off :: byte option)"
  by (simp add: get8_def getbitstring_def take_drop_nth upt_rec del: upt_Suc)

section \<open>The contract of a writer and its reader\<close>

definition iter_at :: "blob \<Rightarrow> blob \<Rightarrow> seriter" where
  "iter_at before rest = \<lparr>mserializer = before @ rest, mpos = length before\<rparr>"

text \<open>
  \<open>enc x\<close> are the bytes a writer appends for \<open>x\<close>; \<open>dec\<close> is the iterator reader. Whatever precedes
  and follows the bytes, reading at their start gives \<open>x\<close> and moves just past them.
\<close>

locale codec =
  fixes valid :: "'a \<Rightarrow> bool"
    and enc :: "'a \<Rightarrow> blob"
    and dec :: "seriter \<Rightarrow> ('a \<times> seriter) res"
  assumes dec_enc: "valid x \<Longrightarrow> dec (iter_at before (enc x @ rest)) = Inr (x, iter_at (before @ enc x) rest)"
begin

lemma enc_inject:
  assumes "valid x" "valid y" "enc x @ r = enc y @ t"
  shows "x = y \<and> r = t"
proof -
  have "Inr (x, iter_at (enc x) r) = dec (iter_at [] (enc x @ r))"
    using dec_enc [of x "[]" r] assms by simp
  also have "\<dots> = Inr (y, iter_at (enc y) t)"
    using dec_enc [of y "[]" t] assms by simp
  finally have "x = y" by simp
  with assms(3) show ?thesis by simp
qed

lemma enc_prefix_free: "valid x \<Longrightarrow> valid y \<Longrightarrow> enc x @ r = enc y \<Longrightarrow> r = []"
  using enc_inject [of x y r "[]"] by simp

end

text \<open>Two codecs written one after the other are a codec for pairs.\<close>

definition dec_pair ::
  "(seriter \<Rightarrow> ('a \<times> seriter) res) \<Rightarrow> (seriter \<Rightarrow> ('b \<times> seriter) res) \<Rightarrow> seriter \<Rightarrow> (('a \<times> 'b) \<times> seriter) res"
  where
  "dec_pair d1 d2 it =
     rbind (d1 it) (\<lambda>(x, it1). rbind (d2 it1) (\<lambda>(y, it2). Inr ((x, y), it2)))"

locale codec_pair =
  one: codec valid1 enc1 dec1 + two: codec valid2 enc2 dec2
  for valid1 :: "'a \<Rightarrow> bool" and enc1 dec1 and valid2 :: "'b \<Rightarrow> bool" and enc2 dec2

sublocale codec_pair \<subseteq> codec "\<lambda>(x, y). valid1 x \<and> valid2 y" "\<lambda>(x, y). enc1 x @ enc2 y" "dec_pair dec1 dec2"
proof
  fix x :: "'a \<times> 'b" and before rest
  assume "case x of (x, y) \<Rightarrow> valid1 x \<and> valid2 y"
  then show "dec_pair dec1 dec2 (iter_at before ((case x of (x, y) \<Rightarrow> enc1 x @ enc2 y) @ rest)) =
      Inr (x, iter_at (before @ (case x of (x, y) \<Rightarrow> enc1 x @ enc2 y)) rest)"
    using one.dec_enc [of "fst x" before "enc2 (snd x) @ rest"]
      two.dec_enc [of "snd x" "before @ enc1 (fst x)" rest]
    by (cases x) (simp add: dec_pair_def)
qed

section \<open>The codecs of the format\<close>

definition bits_enc :: "'a::len word \<Rightarrow> blob" where
  "bits_enc v = snd (addbitstring [] v)"

lemma bits_enc_bytes: "bits_enc (v :: 'a::len word) = be_bytes (LENGTH('a) div 8) (unat v)"
  by (simp add: bits_enc_def addbitstring_def)

lemma length_bits_enc [simp]: "length (bits_enc (v :: 'a::len word)) = LENGTH('a) div 8"
  by (simp add: bits_enc_bytes)

lemma addbitstring_append: "snd (addbitstring s v) = s @ bits_enc v"
  by (simp add: addbitstring_def bits_enc_bytes)

lemma advance_at: "n = length x \<Longrightarrow> advance n (iter_at before (x @ rest)) = iter_at (before @ x) rest"
  by (simp add: advance_def iter_at_def)

lemma iter_at_sel [simp]: "mserializer (iter_at b r) = b @ r" "mpos (iter_at b r) = length b"
  by (simp_all add: iter_at_def)

lemma getbitstring_at:
  assumes "8 dvd LENGTH('a::len)"
  shows "getbitstring (before @ bits_enc v @ rest) (length before) = Some (v :: 'a word)"
proof -
  have "(256 :: nat) ^ (LENGTH('a) div 8) = 2 ^ LENGTH('a)"
    using power_mult [of "2 :: nat" 8 "LENGTH('a) div 8"] assms by simp
  then show ?thesis
    using unsigned_less [of v]
    by (simp add: getbitstring_def bits_enc_bytes be_val_be_bytes)
qed

lemma add_append:
  "snd (add16 s v16) = s @ bits_enc v16" "snd (add32 s v32) = s @ bits_enc v32"
  "snd (add64 s v64) = s @ bits_enc v64" "snd (add160 s v160) = s @ bits_enc v160"
  "snd (add256 s v256) = s @ bits_enc v256"
  by (simp_all add: add16_bits add32_bits add64_bits add160_def add256_def addbitstring_append)

lemma bits_enc_inject: "8 dvd LENGTH('a::len) \<Longrightarrow> bits_enc (v :: 'a word) = bits_enc w \<longleftrightarrow> v = w"
  by (metis getbitstring_at option.inject)

lemma bits_enc_append_inject:
  "8 dvd LENGTH('a::len) \<Longrightarrow> bits_enc (v :: 'a word) @ r = bits_enc w @ r' \<longleftrightarrow> v = w \<and> r = r'"
  by (simp add: bits_enc_inject)

lemma it_getbitstring_at:
  assumes "8 dvd LENGTH('a::len)"
  shows "it_getbitstring (iter_at before (bits_enc (v :: 'a word) @ rest)) = Inr (v, iter_at (before @ bits_enc v) rest)"
  using getbitstring_at [OF assms, of before v rest]
  by (simp add: it_getbitstring_def it_read_def advance_at)

lemma it_get_bits:
  "it_get8 (iter_at before (bits_enc v8 @ rest)) = Inr (v8, iter_at (before @ bits_enc v8) rest)"
  "it_get16 (iter_at before (bits_enc v16 @ rest)) = Inr (v16, iter_at (before @ bits_enc v16) rest)"
  "it_get32 (iter_at before (bits_enc v32 @ rest)) = Inr (v32, iter_at (before @ bits_enc v32) rest)"
  "it_get64 (iter_at before (bits_enc v64 @ rest)) = Inr (v64, iter_at (before @ bits_enc v64) rest)"
  using getbitstring_at [of before v8 rest] getbitstring_at [of before v16 rest]
    getbitstring_at [of before v32 rest] getbitstring_at [of before v64 rest]
  by (simp_all add: it_get8_def it_get16_def it_get32_def it_get64_def it_read_def advance_at
      get8_bits get16_bits get32_bits get64_bits)

interpretation codec8: codec "\<lambda>_. True" bits_enc it_get8
  by unfold_locales (rule it_get_bits)
interpretation codec16: codec "\<lambda>_. True" bits_enc it_get16
  by unfold_locales (rule it_get_bits)
interpretation codec32: codec "\<lambda>_. True" bits_enc it_get32
  by unfold_locales (rule it_get_bits)
interpretation codec64: codec "\<lambda>_. True" bits_enc it_get64
  by unfold_locales (rule it_get_bits)
interpretation codec160: codec "\<lambda>_. True" bits_enc "it_getbitstring :: seriter \<Rightarrow> (160 word \<times> seriter) res"
  by unfold_locales (rule it_getbitstring_at, simp)
interpretation codec256: codec "\<lambda>_. True" bits_enc "it_getbitstring :: seriter \<Rightarrow> (256 word \<times> seriter) res"
  by unfold_locales (rule it_getbitstring_at, simp)

subsection \<open>Variable-length blobs\<close>

definition vl_enc :: "blob \<Rightarrow> blob" where
  "vl_enc v = (case addvl [] v of Inr (_, s) \<Rightarrow> s | Inl _ \<Rightarrow> [])"

lemma get8_append [simp]:
  "get8 (p @ b # s) (length p) = Some (uint b)"
  "get8 (p @ a # b # s) (Suc (length p)) = Some (uint b)"
  "get8 (p @ a # c # b # s) (Suc (Suc (length p))) = Some (uint b)"
  by (simp_all add: get8_def nth_append)

lemma uint_byte_of_int [byte_simps]: "0 \<le> n \<Longrightarrow> n < 256 \<Longrightarrow> uint (word_of_int n :: byte) = n"
  by (simp add: uint_word_of_int)

lemma uint_byte_add [byte_simps]:
  "0 \<le> n \<Longrightarrow> n < 256 - k \<Longrightarrow> 0 \<le> k \<Longrightarrow> uint (word_of_int k + word_of_int n :: byte) = k + n"
  by (simp add: uint_word_ariths uint_word_of_int)

lemma encodevl_decode:
  assumes "0 \<le> len" "len \<le> 918744"
  obtains b1 bs where "encodevl len = Inr (b1 # bs)"
    and "encodelengthlength len = Inr (int (Suc (length bs)))"
    and "decodelengthlength (uint b1) = Inr (int (Suc (length bs)))"
    and "\<And>p s. vl_datlen (p @ b1 # bs @ s) (Suc (length p)) (uint b1) (int (Suc (length bs))) =
          Some (len, Suc (length p) + length bs)"
proof -
  consider (one) "len \<le> 192" | (two) "192 < len" "len \<le> 12480" | (three) "12480 < len" by linarith
  then show thesis
  proof cases
    case one
    then show thesis
      using assms
      by (intro that [of "word_of_int len" "[]"])
        (simp_all add: encodevl_def encodelengthlength_def decodelengthlength_def vl_datlen_def
          decodevllength1_def byte_simps)
  next
    case two
    define l where "l = len - 193"
    have l: "0 \<le> l div 256" "l div 256 < 48" "len = l + 193" using two by (auto simp: l_def)
    then have b1: "uint (193 + word_of_int (l div 256) :: byte) = 193 + l div 256"
      using uint_byte_add [of "l div 256" 193] by simp
    have b2: "uint (word_of_int (l mod 256) :: byte) = l mod 256"
      by (simp add: byte_simps)
    show thesis
      using two l
      by (intro that [of "193 + word_of_int (l div 256)" "[word_of_int (l mod 256)]"])
        (simp_all add: encodevl_def encodelengthlength_def decodelengthlength_def vl_datlen_def
          decodevllength2_def b1 b2 Let_def)
  next
    case three
    define l where "l = len - 12481"
    have l: "0 \<le> l div 65536" "l div 65536 < 14" "len = l + 12481" using three assms by (auto simp: l_def)
    then have b1: "uint (241 + word_of_int (l div 65536) :: byte) = 241 + l div 65536"
      using uint_byte_add [of "l div 65536" 241] by simp
    have b2: "uint (word_of_int (l div 256 mod 256) :: byte) = l div 256 mod 256"
      and b3: "uint (word_of_int (l mod 256) :: byte) = l mod 256"
      by (simp_all add: byte_simps)
    have "l div 65536 = l div 256 div 256" by (simp add: zdiv_zmult2_eq [symmetric])
    then have "l div 65536 * 65536 + l div 256 mod 256 * 256 + l mod 256 = l"
      using div_mult_mod_eq [of l 256] div_mult_mod_eq [of "l div 256" 256] by linarith
    then show thesis
      using three l assms
      by (intro that [of "241 + word_of_int (l div 65536)" "[word_of_int (l div 256 mod 256), word_of_int (l mod 256)]"])
        (simp_all add: encodevl_def encodelengthlength_def decodelengthlength_def vl_datlen_def
          decodevllength3_def b1 b2 b3 Let_def)
  qed
qed

lemma vl_enc_roundtrip:
  assumes "length v \<le> 918744"
  shows "addvl s v = Inr (length s, s @ vl_enc v)"
    and "getvl (before @ vl_enc v @ rest) (length before) = Inr (Some (v, int (length (vl_enc v))))"
proof -
  from assms have "0 \<le> int (length v)" "int (length v) \<le> 918744" by simp_all
  then obtain b1 bs where e: "encodevl (int (length v)) = Inr (b1 # bs)"
    "encodelengthlength (int (length v)) = Inr (int (Suc (length bs)))"
    and d: "decodelengthlength (uint b1) = Inr (int (Suc (length bs)))"
    and g: "\<And>p s. vl_datlen (p @ b1 # bs @ s) (Suc (length p)) (uint b1) (int (Suc (length bs))) =
          Some (int (length v), Suc (length p) + length bs)"
    by (rule encodevl_decode) blast
  have i32: "to_i32 (int (length v)) = int (length v)" using assms by (simp add: to_i32_id)
  have a: "addvl s v = Inr (length s, s @ (b1 # bs) @ v)" for s
    by (simp add: addvl_def i32 e addraw_def)
  then have enc: "vl_enc v = (b1 # bs) @ v" by (simp add: vl_enc_def)
  show "addvl s v = Inr (length s, s @ vl_enc v)" by (simp add: a enc)
  have "getraw (before @ b1 # bs @ v @ rest) (Suc (length before) + length bs) (length v) = Some v"
    by (simp add: getraw_def)
  then show "getvl (before @ vl_enc v @ rest) (length before) = Inr (Some (v, int (length (vl_enc v))))"
    by (simp add: getvl_def enc d g del: of_nat_Suc)
qed

interpretation codec_vl: codec "\<lambda>v. length v \<le> 918744" vl_enc it_getvl
  by unfold_locales (simp add: it_getvl_def vl_enc_roundtrip advance_at)

subsection \<open>Field identifiers\<close>

definition fieldid_enc :: "int \<times> int \<Rightarrow> blob" where
  "fieldid_enc f = (case addfieldid [] (fst f) (snd f) of Inr (_, s) \<Rightarrow> s | Inl _ \<Rightarrow> [])"

definition fieldid_ok :: "int \<times> int \<Rightarrow> bool" where
  "fieldid_ok f \<longleftrightarrow> 0 < fst f \<and> fst f < 256 \<and> 0 < snd f \<and> snd f < 256"

lemma nibbles:
  assumes "0 \<le> t" "t < 16" "0 \<le> n" "n < 16"
  shows "uint (word_of_int (t * 16) OR word_of_int n :: byte) = t * 16 + n"
proof -
  have bits: "t * 16 = push_bit 4 t" by (simp add: push_bit_eq_mult)
  have "n = take_bit 4 n" using assms by (simp add: take_bit_int_eq_self)
  then have "\<not> bit n k" if "4 \<le> k" for k
    using that by (metis bit_take_bit_iff leD)
  then have "\<not> (bit (push_bit 4 t) k \<and> bit n k)" for k
    by (simp add: bit_push_bit_iff_int)
  then have "push_bit 4 t OR n = push_bit 4 t + n"
    by (intro disjunctive_add [symmetric]) auto
  moreover have "uint (word_of_int (t * 16) OR word_of_int n :: byte) = take_bit 8 (t * 16 OR n)"
    by (simp only: uint_or uint_word_of_int_eq take_bit_or len_num1 len_bit0 len_num0) simp
  ultimately show ?thesis
    using assms by (simp add: bits [symmetric] take_bit_int_eq_self)
qed

lemma addfieldid_append:
  "fieldid_ok f \<Longrightarrow> addfieldid s (fst f) (snd f) = Inr (length s, s @ fieldid_enc f)"
  by (auto simp: fieldid_enc_def addfieldid_def fieldid_ok_def)

lemma getfieldid_at:
  assumes "fieldid_ok f"
  shows "getfieldid (before @ fieldid_enc f @ rest) (length before) = Some f"
proof -
  obtain t n where f: "f = (t, n)" by fastforce
  have r: "0 < t" "t < 256" "0 < n" "n < 256" using assms by (auto simp: fieldid_ok_def f)
  have small: "uint (word_of_int n :: byte) = n" "uint (word_of_int t :: byte) = t"
    using r by (simp_all add: byte_simps)
  have high: "uint (word_of_int (t * 16) :: byte) = t * 16" if "t < 16"
    using r that by (intro uint_byte_of_int) auto
  show ?thesis
  proof (cases "t < 16 \<and> n < 16")
    case True
    then show ?thesis
      using r nibbles [of t n] by (simp add: f fieldid_enc_def addfieldid_def getfieldid_def Let_def)
  next
    case False
    then show ?thesis
      using r high by (auto simp: f fieldid_enc_def addfieldid_def getfieldid_def Let_def small)
  qed
qed

lemma length_fieldid_enc:
  "fieldid_ok f \<Longrightarrow> length (fieldid_enc f) =
     1 + (if fst f \<ge> 16 then 1 else 0) + (if snd f \<ge> 16 then 1 else 0)"
  by (auto simp: fieldid_enc_def addfieldid_def fieldid_ok_def)

interpretation codec_fieldid: codec fieldid_ok fieldid_enc it_getfieldid
  by unfold_locales
    (simp add: it_getfieldid_def getfieldid_at case_prod_beta advance_at length_fieldid_enc)

lemma get8_eq_Some: "get8 s off = Some v \<longleftrightarrow> off < length s \<and> v = uint (s ! off)"
  by (auto simp: get8_def)

lemma drop_nth_Cons: "off < length s \<Longrightarrow> drop off s = s ! off # drop (Suc off) s"
  by (simp add: Cons_nth_drop_Suc)

lemma byte_of_nibbles: "word_of_int (uint b div 16 * 16) OR word_of_int (uint b mod 16) = (b :: byte)"
proof -
  have "uint b < 256" using uint_bounded [of b] by simp
  then have "uint b div 16 < 16" "0 \<le> uint b div 16" by (simp_all add: pos_imp_zdiv_nonneg_iff)
  then have "uint (word_of_int (uint b div 16 * 16) OR word_of_int (uint b mod 16) :: byte) = uint b"
    by (subst nibbles) simp_all
  then show ?thesis by (simp only: word_uint_eq_iff)
qed

lemma byte_of_uint: "uint (b :: byte) = v \<Longrightarrow> word_of_int v = b"
  by auto

text \<open>The reader accepts only the bytes the writer produces.\<close>

lemma getfieldid_canonical:
  assumes "getfieldid s off = Some f"
  shows "fieldid_ok f \<and> (\<exists>rest. drop off s = fieldid_enc f @ rest)"
proof -
  from assms have o: "off < length s" by (auto simp: getfieldid_def get8_def split: if_splits)
  define b hi nm where "b = s ! off" and "hi = uint b div 16" and "nm = uint b mod 16"
  have b: "get8 s off = Some (uint b)" "drop off s = b # drop (Suc off) s"
    using o by (simp_all add: get8_def b_def drop_nth_Cons)
  have lt: "uint (c :: byte) < 256" for c using uint_bounded [of c] by simp
  have r: "hi < 16" "0 \<le> hi" "0 \<le> nm" "nm < 16"
    using lt [of b] by (simp_all add: hi_def nm_def pos_imp_zdiv_nonneg_iff)
  have bn: "word_of_int (hi * 16) OR word_of_int nm = b"
    unfolding hi_def nm_def by (rule byte_of_nibbles)
  have nxt: "\<exists>c. v = uint c \<and> drop k s = c # drop (Suc k) s" if "get8 s k = Some v" for k v
    using that by (auto simp: get8_eq_Some drop_nth_Cons)
  have body: "(case (if hi = 0
                   then (case get8 s (off + 1) of
                           None \<Rightarrow> None
                         | Some t \<Rightarrow> if t = 0 \<or> t < 16 then None else Some (t, off + 1))
                   else Some (hi, off)) of
               None \<Rightarrow> None
             | Some (ty, off1) \<Rightarrow>
                 if nm = 0
                 then (case get8 s (off1 + 1) of
                         None \<Rightarrow> None
                       | Some n \<Rightarrow> if n = 0 \<or> n < 16 then None else Some (ty, n))
                 else Some (ty, nm)) = Some f"
    using assms by (simp only: getfieldid_def b option.case Let_def hi_def nm_def)
  show ?thesis
  proof (cases "hi = 0")
    case True
    with body obtain t where t: "get8 s (Suc off) = Some t" "16 \<le> t"
      by (auto split: option.splits if_splits)
    then obtain c where c: "t = uint c" "drop (Suc off) s = c # drop (Suc (Suc off)) s" using nxt by blast
    show ?thesis
    proof (cases "nm = 0")
      case z: True
      with body True t obtain n where n: "get8 s (Suc (Suc off)) = Some n" "16 \<le> n" "f = (t, n)"
        by (auto split: option.splits if_splits)
      then obtain d where d: "n = uint d" "drop (Suc (Suc off)) s = d # drop (Suc (Suc (Suc off))) s"
        using nxt by blast
      have "b = 0" using bn True z by simp
      then show ?thesis
        using n(2,3) d c(1) t(2) lt [of c] lt [of d]
        by (simp add: fieldid_ok_def fieldid_enc_def addfieldid_def b(2) c(2))
    next
      case z: False
      with body True t have f: "f = (t, nm)" by simp
      have "word_of_int nm = b" using bn True by simp
      then show ?thesis
        using c(1) t(2) lt [of c] z r(3,4)
        by (simp add: fieldid_ok_def fieldid_enc_def addfieldid_def b(2) c(2) f)
    qed
  next
    case False
    show ?thesis
    proof (cases "nm = 0")
      case z: True
      with body False obtain n where n: "get8 s (Suc off) = Some n" "16 \<le> n" "f = (hi, n)"
        by (auto split: option.splits if_splits)
      then obtain c where c: "n = uint c" "drop (Suc off) s = c # drop (Suc (Suc off)) s" using nxt by blast
      have "word_of_int (hi * 16) = b" using bn z by simp
      then show ?thesis
        using n(2,3) c(1) lt [of c] False r(1,2)
        by (simp add: fieldid_ok_def fieldid_enc_def addfieldid_def b(2) c(2))
    next
      case z: False
      with body False have f: "f = (hi, nm)" by simp
      show ?thesis
        using False z r bn by (simp add: fieldid_ok_def fieldid_enc_def addfieldid_def b(2) f)
    qed
  qed
qed

section \<open>Properties\<close>

text \<open>
  Fixed-width fields: every writer returns the offset at which it wrote, and the reader of the
  same width at that offset gives the value back, whatever was in the buffer before and whatever is
  appended later. The values are stored most significant byte first.
\<close>

theorem serializer_fixed_width_roundtrip:
  "get8 (snd (add8 s v8) @ rest) (fst (add8 s v8)) = Some (uint v8) \<and>
   get16 (snd (add16 s v16) @ rest) (fst (add16 s v16)) = Some v16 \<and>
   get32 (snd (add32 s v32) @ rest) (fst (add32 s v32)) = Some v32 \<and>
   get64 (snd (add64 s v64) @ rest) (fst (add64 s v64)) = Some v64 \<and>
   getbitstring (snd (add160 s v160) @ rest) (fst (add160 s v160)) = Some v160 \<and>
   getbitstring (snd (add256 s v256) @ rest) (fst (add256 s v256)) = Some v256 \<and>
   be_val (snd (add32 [] v32)) = unat v32 \<and> be_val (snd (add64 [] v64)) = unat v64"
proof (intro conjI)
  show "get8 (snd (add8 s v8) @ rest) (fst (add8 s v8)) = Some (uint v8)"
    by (simp add: add8_def)
  show "get16 (snd (add16 s v16) @ rest) (fst (add16 s v16)) = Some v16"
    "get32 (snd (add32 s v32) @ rest) (fst (add32 s v32)) = Some v32"
    "get64 (snd (add64 s v64) @ rest) (fst (add64 s v64)) = Some v64"
    "getbitstring (snd (add160 s v160) @ rest) (fst (add160 s v160)) = Some v160"
    "getbitstring (snd (add256 s v256) @ rest) (fst (add256 s v256)) = Some v256"
    by (simp_all only: add16_bits add32_bits add64_bits add160_def add256_def get16_bits get32_bits
        get64_bits addbitstring_append) (simp_all add: getbitstring_at addbitstring_def)
  have "unat v32 < 2 ^ LENGTH(32)" "unat v64 < 2 ^ LENGTH(64)" by (rule unsigned_less)+
  then show "be_val (snd (add32 [] v32)) = unat v32" "be_val (snd (add64 [] v64)) = unat v64"
    by (simp_all only: add32_bits add64_bits addbitstring_append append_Nil bits_enc_bytes)
      (simp_all add: be_val_be_bytes)
qed

text \<open>
  C13. Variable-length blobs: up to 918744 bytes \<^verbatim>\<open>addVL\<close> appends a prefix of one, two or three bytes
  (the number \<^verbatim>\<open>encodeLengthLength\<close> announces) and the blob, and \<^verbatim>\<open>getVL\<close> at the returned offset
  recovers the blob and its total size. A longer blob is refused with an overflow error, as long as its size
  is an \<^verbatim>\<open>int\<close>.
\<close>

theorem vl_roundtrip:
  "(length v \<le> 918744 \<longrightarrow>
     (\<exists>p. addvl s v = Inr (length s, s @ p @ v) \<and>
          encodelengthlength (int (length v)) = Inr (int (length p)) \<and>
          getvl ((s @ p @ v) @ rest) (length s) = Inr (Some (v, int (length p + length v))) \<and>
          getvllength ((s @ p @ v) @ rest) (length s) = Inr (Some (int (length v))))) \<and>
   (918744 < length v \<and> length v < 2 ^ 31 \<longrightarrow>
     addvl s v = Inl (Overflow_error ''lenlen'') \<and>
     encodelengthlength (int (length v)) = Inl (Overflow_error ''len>918744''))"
proof (cases "length v \<le> 918744")
  case True
  then have "0 \<le> int (length v)" "int (length v) \<le> 918744" by simp_all
  then obtain b1 bs where e: "encodevl (int (length v)) = Inr (b1 # bs)"
      "encodelengthlength (int (length v)) = Inr (int (Suc (length bs)))"
    and d: "decodelengthlength (uint b1) = Inr (int (Suc (length bs)))"
    and g: "\<And>p s. vl_datlen (p @ b1 # bs @ s) (Suc (length p)) (uint b1) (int (Suc (length bs))) =
          Some (int (length v), Suc (length p) + length bs)"
    by (rule encodevl_decode) blast
  have "to_i32 (int (length v)) = int (length v)" using True by (simp add: to_i32_id)
  then have enc: "vl_enc v = (b1 # bs) @ v" by (simp add: vl_enc_def addvl_def e addraw_def)
  have "getvl ((s @ (b1 # bs) @ v) @ rest) (length s) = Inr (Some (v, int (length (b1 # bs) + length v)))"
    using vl_enc_roundtrip(2) [OF True, of s rest] by (simp add: enc)
  moreover have "getvllength ((s @ (b1 # bs) @ v) @ rest) (length s) = Inr (Some (int (length v)))"
    using g [of s "v @ rest"] by (simp add: getvllength_def d del: of_nat_Suc)
  ultimately show ?thesis
    using True vl_enc_roundtrip(1) [OF True, of s] e(2) by (intro conjI impI exI [of _ "b1 # bs"]) (simp_all add: enc)
next
  case False
  then show ?thesis using to_i32_id [of "int (length v)"] by (simp add: addvl_def encodevl_def encodelengthlength_def)
qed

theorem vl_roundtrip_witness:
  "\<exists>p. addvl [7] (replicate 200 1) = Inr (1, [7] @ p @ replicate 200 1) \<and> length p = 2"
  using vl_roundtrip [of "replicate 200 1" "[7]" "[]"] by (auto simp: encodelengthlength_def)

text \<open>
  C34. Field identifiers have exactly one encoding: every pair of a type and a field code between 1 and
  255 is written and read back, and whatever pair the reader accepts is such a pair and was read from
  exactly the bytes the writer produces for it. Codes out of range fail the writer's assertion.
\<close>

theorem fieldid_canonical:
  "(fieldid_ok f \<longrightarrow>
     (\<exists>p. addfieldid s (fst f) (snd f) = Inr (length s, s @ p) \<and>
          getfieldid ((s @ p) @ rest) (length s) = Some f)) \<and>
   (\<not> fieldid_ok f \<longrightarrow> addfieldid s (fst f) (snd f) = Inl Assertion_failed) \<and>
   (getfieldid t off = Some f \<longrightarrow>
     fieldid_ok f \<and> (\<exists>p r. addfieldid [] (fst f) (snd f) = Inr (0, p) \<and> drop off t = p @ r))"
  using addfieldid_append [of f s] addfieldid_append [of f "[]"] getfieldid_at [of f s rest]
    getfieldid_canonical [of t off f]
  by (auto simp: fieldid_ok_def addfieldid_def)

theorem fieldid_canonical_witness:
  "(\<exists>p. addfieldid [9] 8 20 = Inr (1, [9] @ p) \<and> getfieldid ([9] @ p) 1 = Some (8, 20)) \<and>
   addfieldid [] 0 1 = Inl Assertion_failed \<and>
   (\<exists>p r. addfieldid [] 1 2 = Inr (0, p) \<and> drop 0 [0x12 :: byte] = p @ r)"
  using fieldid_canonical [of "(8, 20)" "[9]" "[]"] fieldid_canonical [of "(0, 1)" "[]"]
    fieldid_canonical [of "(1, 2)" "[]" "[]" "[0x12]" 0]
  by (simp add: fieldid_ok_def getfieldid_def get8_def)

end
