(* ===== verification/St_Amount.thy ===== *)
theory St_Amount
  imports Complex_Main Serializer
begin

text \<open>
  Amounts: \<^verbatim>\<open>src/ripple/protocol/STAmount.h\<close> and \<^verbatim>\<open>src/ripple/protocol/impl/STAmount.cpp\<close>
  without the arithmetic that multiplies and divides (theory \<^verbatim>\<open>Amount_Arith\<close>).

  An amount is a sign, a 64-bit mantissa and a decimal exponent with an issue. Native amounts have
  exponent 0. All other amounts are brought by \<^verbatim>\<open>canonicalize\<close> to a mantissa of 16 digits. The C++
  type of an exponent is \<^verbatim>\<open>int\<close>; it is an \<open>int\<close> here, the exponents the code forms are below 1000 in
  absolute value. The field name an amount carries is not part of the model.
\<close>

section \<open>Data\<close>

record stamount =
  missue :: issue
  mvalue :: u64
  moffset :: int
  misnative :: bool
  misnegative :: bool

definition cminoffset :: int where "cminoffset = - 96"
definition cmaxoffset :: int where "cmaxoffset = 80"
definition cminvalue :: u64 where "cminvalue = 1000000000000000"
definition cmaxvalue :: u64 where "cmaxvalue = 9999999999999999"
definition cmaxnative :: u64 where "cmaxnative = 9000000000000000000"
definition cmaxnativen :: u64 where "cmaxnativen = 100000000000000000"
definition cnotnative :: u64 where "cnotnative = 0x8000000000000000"
definition cposnative :: u64 where "cposnative = 0x4000000000000000"
definition cvbcnative :: u64 where "cvbcnative = 0x2000000000000000"

definition amt_isxrp :: "stamount \<Rightarrow> bool" where
  "amt_isxrp a \<longleftrightarrow> isxrp (currency (missue a))"

definition amt_isvbc :: "stamount \<Rightarrow> bool" where
  "amt_isvbc a \<longleftrightarrow> isvbc (currency (missue a))"

definition amt_isnative :: "stamount \<Rightarrow> bool" where
  "amt_isnative a \<longleftrightarrow> amt_isxrp a \<or> amt_isvbc a"

definition signum :: "stamount \<Rightarrow> int" where
  "signum a = (if mvalue a \<noteq> 0 then (if misnegative a then - 1 else 1) else 0)"

text \<open>\<^verbatim>\<open>a == zero\<close> goes through \<^verbatim>\<open>signum\<close>.\<close>

definition amt_is_zero :: "stamount \<Rightarrow> bool" where
  "amt_is_zero a \<longleftrightarrow> signum a = 0"

section \<open>Canonical form\<close>

text \<open>\<^verbatim>\<open>while (off < target) { v /= 10; ++off; }\<close>\<close>

function shift_right_to :: "int \<Rightarrow> u64 \<Rightarrow> int \<Rightarrow> u64 \<times> int" where
  "shift_right_to target v off =
     (if off < target then shift_right_to target (v div 10) (off + 1) else (v, off))"
  by auto
termination by (relation "measure (\<lambda>(t, v, off). nat (t - off))") auto

text \<open>\<^verbatim>\<open>while (off > 0) { v *= 10; --off; }\<close>\<close>

function shift_left_to0 :: "u64 \<Rightarrow> int \<Rightarrow> u64 \<times> int" where
  "shift_left_to0 v off = (if off > 0 then shift_left_to0 (v * 10) (off - 1) else (v, off))"
  by auto
termination by (relation "measure (\<lambda>(v, off). nat off)") auto

text \<open>\<^verbatim>\<open>while ((v < cMinValue) && (off > cMinOffset)) { v *= 10; --off; }\<close>\<close>

function scale_up :: "u64 \<Rightarrow> int \<Rightarrow> u64 \<times> int" where
  "scale_up v off =
     (if v < cminvalue \<and> off > cminoffset then scale_up (v * 10) (off - 1) else (v, off))"
  by auto
termination by (relation "measure (\<lambda>(v, off). nat (off - cminoffset))") auto

lemma word_div_less_self [termination_simp]:
  "(n :: u64) < v \<Longrightarrow> unat (v div 10) < unat v"
  by (simp add: word_less_nat_alt unat_div_10)

text \<open>\<^verbatim>\<open>while (v > cMaxValue) { if (off >= cMaxOffset) throw; v /= 10; ++off; }\<close>\<close>

function scale_down :: "u64 \<Rightarrow> int \<Rightarrow> (u64 \<times> int) res" where
  "scale_down v off =
     (if v > cmaxvalue
      then (if off \<ge> cmaxoffset then Inl (Runtime_error ''value overflow'')
            else scale_down (v div 10) (off + 1))
      else Inr (v, off))"
  by auto
termination by (relation "measure (\<lambda>(v, off). unat v)") (auto intro: word_div_less_self)

declare shift_right_to.simps [simp del] shift_left_to0.simps [simp del]
  scale_up.simps [simp del] scale_down.simps [simp del]

definition canonicalize_native :: "stamount \<Rightarrow> stamount res" where
  "canonicalize_native a0 =
     (let a = a0\<lparr>misnative := True\<rparr>
      in if mvalue a = 0 then Inr (a\<lparr>moffset := 0, misnegative := False\<rparr>)
         else
           let (v1, off1) = shift_right_to 0 (mvalue a) (moffset a);
               (v, off) = shift_left_to0 v1 off1
           in if v > cmaxnativen then Inl (Runtime_error ''native currency amount out of range'')
              else Inr (a\<lparr>mvalue := v, moffset := off\<rparr>))"

definition canonicalize_iou :: "stamount \<Rightarrow> stamount res" where
  "canonicalize_iou a0 =
     (let a = a0\<lparr>misnative := False\<rparr>
      in if mvalue a = 0 then Inr (a\<lparr>moffset := - 100, misnegative := False\<rparr>)
         else
           let (v1, off1) = scale_up (mvalue a) (moffset a)
           in rbind (scale_down v1 off1) (\<lambda>(v2, off2).
                let (v, off) = (if off2 < cminoffset \<or> v2 < cminvalue then (0, 0) else (v2, off2))
                in if off > cmaxoffset then Inl (Runtime_error ''value overflow'')
                   else if \<not> (v = 0 \<or> cminvalue \<le> v \<and> v \<le> cmaxvalue) then Inl Assertion_failed
                   else if \<not> (v = 0 \<or> cminoffset \<le> off \<and> off \<le> cmaxoffset) then Inl Assertion_failed
                   else if \<not> (v \<noteq> 0 \<or> off \<noteq> - 100) then Inl Assertion_failed
                   else Inr (a\<lparr>mvalue := v, moffset := off\<rparr>)))"

definition canonicalize :: "stamount \<Rightarrow> stamount res" where
  "canonicalize a = (if amt_isnative a then canonicalize_native a else canonicalize_iou a)"

section \<open>Construction\<close>

text \<open>\<^verbatim>\<open>set\<close>: sign and magnitude of a signed 64-bit number\<close>

definition amt_set :: "int \<Rightarrow> stamount \<Rightarrow> stamount" where
  "amt_set v a =
     (if v < 0 then a\<lparr>misnegative := True, mvalue := u64_of_int (- v)\<rparr>
      else a\<lparr>misnegative := False, mvalue := u64_of_int v\<rparr>)"

text \<open>the constructor tagged \<^verbatim>\<open>unchecked\<close>\<close>

definition mk_unchecked :: "issue \<Rightarrow> u64 \<Rightarrow> int \<Rightarrow> bool \<Rightarrow> bool \<Rightarrow> stamount" where
  "mk_unchecked iss m e native negative =
     \<lparr>missue = iss, mvalue = m, moffset = e, misnative = native, misnegative = negative\<rparr>"

text \<open>
  The constructors from an issue, a mantissa, an exponent and a sign. The one that also takes
  \<^verbatim>\<open>native\<close> differs only in that flag, which \<^verbatim>\<open>canonicalize\<close> overwrites.
\<close>

definition mk_amount :: "issue \<Rightarrow> u64 \<Rightarrow> int \<Rightarrow> bool \<Rightarrow> stamount res" where
  "mk_amount iss m e negative = canonicalize (mk_unchecked iss m e False negative)"

definition mk_amount_i64 :: "issue \<Rightarrow> int \<Rightarrow> int \<Rightarrow> stamount res" where
  "mk_amount_i64 iss m e = canonicalize (amt_set m (mk_unchecked iss 0 e False False))"

text \<open>The native constructors from a signed and from an unsigned 64-bit number\<close>

definition native_issue :: "bool \<Rightarrow> issue" where
  "native_issue vbc = (if vbc then vbcissue else xrpissue)"

definition mk_native_i64 :: "bool \<Rightarrow> int \<Rightarrow> stamount" where
  "mk_native_i64 vbc m = amt_set m (mk_unchecked (native_issue vbc) 0 0 True False)"

definition mk_native_u64 :: "bool \<Rightarrow> u64 \<Rightarrow> bool \<Rightarrow> stamount" where
  "mk_native_u64 vbc m negative = mk_unchecked (native_issue vbc) m 0 True negative"

definition mk_plain :: "u64 \<Rightarrow> bool \<Rightarrow> stamount" where
  "mk_plain m negative = mk_unchecked \<lparr>currency = 0, account = 0\<rparr> m 0 True (m \<noteq> 0 \<and> negative)"

text \<open>\<^verbatim>\<open>STAmount (issue)\<close>: zero of an issue\<close>

definition mk_zero :: "issue \<Rightarrow> stamount res" where
  "mk_zero iss = mk_amount iss 0 0 False"

definition createfromint64 :: "bool \<Rightarrow> int \<Rightarrow> stamount" where
  "createfromint64 vbc v =
     (if v \<ge> 0 then mk_native_u64 vbc (u64_of_int v) False
      else mk_native_u64 vbc (u64_of_int (- v)) True)"

definition zeroed :: "stamount \<Rightarrow> stamount res" where
  "zeroed a = mk_zero (missue a)"

section \<open>Observers and modification\<close>

definition getnvalue :: "stamount \<Rightarrow> u64 res" where
  "getnvalue a = rthrow_if (\<not> misnative a) ''not native'' (Inr (mvalue a))"

definition getsnvalue :: "stamount \<Rightarrow> int res" where
  "getsnvalue a =
     rthrow_if (\<not> misnative a) ''not native''
       (Inr (if misnegative a then to_i64 (- to_i64 (uint (mvalue a))) else to_i64 (uint (mvalue a))))"

definition setnvalue :: "u64 \<Rightarrow> stamount \<Rightarrow> stamount res" where
  "setnvalue v a = rthrow_if (\<not> misnative a) ''not native'' (Inr (a\<lparr>mvalue := v\<rparr>))"

definition setsnvalue :: "int \<Rightarrow> stamount \<Rightarrow> stamount res" where
  "setsnvalue v a =
     rthrow_if (\<not> misnative a) ''not native''
       (Inr (if v > 0 then a\<lparr>misnegative := False, mvalue := u64_of_int v\<rparr>
             else a\<lparr>misnegative := True, mvalue := u64_of_int (- v)\<rparr>))"

definition negate :: "stamount \<Rightarrow> stamount" where
  "negate a = (if amt_is_zero a then a else a\<lparr>misnegative := \<not> misnegative a\<rparr>)"

definition amt_clear :: "stamount \<Rightarrow> stamount" where
  "amt_clear a = a\<lparr>moffset := if misnative a then 0 else - 100, mvalue := 0, misnegative := False\<rparr>"

definition setissue :: "issue \<Rightarrow> stamount \<Rightarrow> stamount" where
  "setissue iss a = (let a1 = a\<lparr>missue := iss\<rparr> in a1\<lparr>misnative := amt_isnative a1\<rparr>)"

definition clear_issue :: "issue \<Rightarrow> stamount \<Rightarrow> stamount" where
  "clear_issue iss a = amt_clear (setissue iss a)"

definition setissuer :: "account \<Rightarrow> stamount \<Rightarrow> stamount" where
  "setissuer acc a = setissue ((missue a)\<lparr>account := acc\<rparr>) (a\<lparr>missue := (missue a)\<lparr>account := acc\<rparr>\<rparr>)"

definition amt_assign_u64 :: "u64 \<Rightarrow> stamount \<Rightarrow> stamount res" where
  "amt_assign_u64 v a =
     (let a1 = a\<lparr>moffset := 0, mvalue := v, misnegative := False\<rparr>
      in if \<not> misnative a1 then canonicalize a1 else Inr a1)"

definition roundself :: "stamount \<Rightarrow> stamount res" where
  "roundself a =
     (if misnative a then Inr a
      else
        let valuedigits = mvalue a mod 1000000000
        in if valuedigits = 1 then
             let a1 = a\<lparr>mvalue := mvalue a - 1\<rparr>
             in if mvalue a1 < cminvalue then canonicalize a1 else Inr a1
           else if valuedigits = 999999999 then
             let a1 = a\<lparr>mvalue := mvalue a + 1\<rparr>
             in if mvalue a1 > cmaxvalue then canonicalize a1 else Inr a1
           else Inr a)"

definition floor_to :: "int \<Rightarrow> stamount \<Rightarrow> stamount res" where
  "floor_to offset a =
     (let (v, off) = shift_right_to offset (mvalue a) (moffset a)
      in canonicalize (a\<lparr>mvalue := v, moffset := off\<rparr>))"

text \<open>\<^verbatim>\<open>__builtin_ctzll\<close>: the number of trailing zero bits, 64 for zero\<close>

definition ctzll :: "u64 \<Rightarrow> int" where
  "ctzll v = int (length (takeWhile (\<lambda>i. \<not> bit v i) [0..<64]))"

definition ismathematicalinteger :: "stamount \<Rightarrow> bool" where
  "ismathematicalinteger a \<longleftrightarrow> ctzll (mvalue a) \<ge> - moffset a"

definition isdefault :: "stamount \<Rightarrow> bool" where
  "isdefault a \<longleftrightarrow> mvalue a = 0 \<and> misnative a"

definition islegalnet :: "stamount \<Rightarrow> bool" where
  "islegalnet a \<longleftrightarrow> \<not> misnative a \<or> mvalue a \<le> cmaxnativen"

section \<open>Wire form\<close>

definition amt_add :: "stamount \<Rightarrow> serializer \<Rightarrow> serializer res" where
  "amt_add a s =
     (if misnative a then
        if moffset a \<noteq> 0 then Inl Assertion_failed
        else Inr (snd (add64 s
          (if \<not> misnegative a
           then (if amt_isvbc a then mvalue a OR cvbcnative OR cposnative else mvalue a OR cposnative)
           else (if amt_isvbc a then mvalue a OR cvbcnative else mvalue a))))
      else
        let s1 = snd (add64 s
              (if amt_is_zero a then cnotnative
               else if misnegative a
               then mvalue a OR push_bit (64 - 10) (u64_of_int (moffset a + 512 + 97))
               else mvalue a OR push_bit (64 - 10) (u64_of_int (moffset a + 512 + 256 + 97))));
            s2 = snd (add160 s1 (currency (missue a)))
        in Inr (snd (add160 s2 (account (missue a)))))"

definition construct_native :: "u64 \<Rightarrow> stamount res" where
  "construct_native value0 =
     (let vbc = (value0 AND cvbcnative \<noteq> 0);
          val = (if vbc then value0 AND NOT cvbcnative else value0)
      in if val AND cposnative \<noteq> 0 then Inr (mk_native_u64 vbc (val AND NOT cposnative) False)
         else if val = 0 then Inl (Runtime_error ''negative zero is not canonical'')
         else Inr (mk_native_u64 vbc val True))"

definition construct_iou :: "u64 \<Rightarrow> issue \<Rightarrow> stamount res" where
  "construct_iou value0 iss =
     (let offset0 = uint (drop_bit (64 - 10) value0);
          val = value0 AND NOT (push_bit (64 - 10) 1023)
      in if val \<noteq> 0 then
           let isneg = (offset0 AND 256 = 0);
               offset = (offset0 AND 255) - 97
           in if val < cminvalue \<or> val > cmaxvalue \<or> offset < cminoffset \<or> offset > cmaxoffset
              then Inl (Runtime_error ''invalid currency value'')
              else mk_amount iss val offset isneg
         else if offset0 \<noteq> 512 then Inl (Runtime_error ''invalid currency value'')
         else mk_zero iss)"

definition construct :: "seriter \<Rightarrow> (stamount \<times> seriter) res" where
  "construct sit0 =
     rbind (it_get64 sit0) (\<lambda>(val, sit1).
       if val AND cnotnative = 0 then rbind (construct_native val) (\<lambda>a. Inr (a, sit1))
       else
         rbind (it_getbitstring sit1) (\<lambda>(cur, sit2).
           if isnative cur then Inl (Runtime_error ''invalid native currency'')
           else
             rbind (it_getbitstring sit2) (\<lambda>(acc, sit3).
               if isnative acc then Inl (Runtime_error ''invalid native account'')
               else rbind (construct_iou val \<lparr>currency = cur, account = acc\<rparr>) (\<lambda>a. Inr (a, sit3)))))"

section \<open>Comparison\<close>

definition iscomparable :: "stamount \<Rightarrow> stamount \<Rightarrow> bool" where
  "iscomparable a t =
     (if misnative a then misnative t
      else if misnative t then False
      else currency (missue a) = currency (missue t))"

definition throwcomparable :: "stamount \<Rightarrow> stamount \<Rightarrow> unit res" where
  "throwcomparable a t = rthrow_if (\<not> iscomparable a t) ''amounts are not comparable'' (Inr ())"

definition amt_compare :: "stamount \<Rightarrow> stamount \<Rightarrow> int" where
  "amt_compare l r =
     (if misnegative l \<noteq> misnegative r then (if misnegative l then - 1 else 1)
      else if mvalue l = 0 then
        (if misnegative r then 1 else if mvalue r \<noteq> 0 then - 1 else 0)
      else if mvalue r = 0 then 1
      else if moffset l > moffset r then (if misnegative l then - 1 else 1)
      else if moffset l < moffset r then (if misnegative l then 1 else - 1)
      else if mvalue l > mvalue r then (if misnegative l then - 1 else 1)
      else if mvalue l < mvalue r then (if misnegative l then 1 else - 1)
      else 0)"

definition amt_eq :: "stamount \<Rightarrow> stamount \<Rightarrow> bool" where
  "amt_eq l r \<longleftrightarrow> iscomparable l r \<and> misnegative l = misnegative r \<and>
     moffset l = moffset r \<and> mvalue l = mvalue r"

definition amt_neq :: "stamount \<Rightarrow> stamount \<Rightarrow> bool" where
  "amt_neq l r \<longleftrightarrow> moffset l \<noteq> moffset r \<or> mvalue l \<noteq> mvalue r \<or>
     misnegative l \<noteq> misnegative r \<or> \<not> iscomparable l r"

definition amt_less :: "stamount \<Rightarrow> stamount \<Rightarrow> bool res" where
  "amt_less l r = rbind (throwcomparable l r) (\<lambda>_. Inr (amt_compare l r < 0))"

definition amt_greater :: "stamount \<Rightarrow> stamount \<Rightarrow> bool res" where
  "amt_greater l r = rbind (throwcomparable l r) (\<lambda>_. Inr (amt_compare l r > 0))"

definition amt_leq :: "stamount \<Rightarrow> stamount \<Rightarrow> bool res" where
  "amt_leq l r = rbind (throwcomparable l r) (\<lambda>_. Inr (amt_compare l r \<le> 0))"

definition amt_geq :: "stamount \<Rightarrow> stamount \<Rightarrow> bool res" where
  "amt_geq l r = rbind (throwcomparable l r) (\<lambda>_. Inr (amt_compare l r \<ge> 0))"

text \<open>Comparison of a native amount with a number of drops\<close>

definition amt_less_u64 :: "stamount \<Rightarrow> u64 \<Rightarrow> bool res" where
  "amt_less_u64 l r = rbind (getsnvalue l) (\<lambda>x. Inr (x < to_i64 (uint r)))"

definition amt_greater_u64 :: "stamount \<Rightarrow> u64 \<Rightarrow> bool res" where
  "amt_greater_u64 l r = rbind (getsnvalue l) (\<lambda>x. Inr (x > to_i64 (uint r)))"

definition amt_leq_u64 :: "stamount \<Rightarrow> u64 \<Rightarrow> bool res" where
  "amt_leq_u64 l r = rbind (getsnvalue l) (\<lambda>x. Inr (x \<le> to_i64 (uint r)))"

definition amt_geq_u64 :: "stamount \<Rightarrow> u64 \<Rightarrow> bool res" where
  "amt_geq_u64 l r = rbind (getsnvalue l) (\<lambda>x. Inr (x \<ge> to_i64 (uint r)))"

section \<open>Addition and subtraction\<close>

text \<open>\<^verbatim>\<open>while (off < target) { v /= 10; ++off; }\<close> on a signed number\<close>

function align_to :: "int \<Rightarrow> int \<Rightarrow> int \<Rightarrow> int \<times> int" where
  "align_to target v off = (if off < target then align_to target (cdiv v 10) (off + 1) else (v, off))"
  by auto
termination by (relation "measure (\<lambda>(t, v, off). nat (t - off))") auto

declare align_to.simps [simp del]

definition signed_mantissa :: "stamount \<Rightarrow> int" where
  "signed_mantissa a =
     (if misnegative a then to_i64 (- to_i64 (uint (mvalue a))) else to_i64 (uint (mvalue a)))"

text \<open>the common tail of both operators for amounts that are not native\<close>

definition finish_sum :: "issue \<Rightarrow> int \<Rightarrow> int \<Rightarrow> stamount res" where
  "finish_sum iss fv ov =
     (if - 10 \<le> fv \<and> fv \<le> 10 then mk_zero iss
      else if fv \<ge> 0 then mk_amount iss (u64_of_int fv) ov False
      else mk_amount iss (u64_of_int (- fv)) ov True)"

definition amt_plus :: "stamount \<Rightarrow> stamount \<Rightarrow> stamount res" where
  "amt_plus v1 v2 =
     rbind (throwcomparable v1 v2) (\<lambda>_.
       if amt_is_zero v2 then Inr v1
       else if amt_is_zero v1 then mk_amount (missue v1) (mvalue v2) (moffset v2) (misnegative v2)
       else if misnative v1 then
         rbind (getsnvalue v1) (\<lambda>x1. rbind (getsnvalue v2) (\<lambda>x2.
           Inr (mk_native_i64 (amt_isvbc v1) (to_i64 (x1 + x2)))))
       else
         let (vv1, ov1) = align_to (moffset v2) (signed_mantissa v1) (moffset v1);
             (vv2, ov2) = align_to ov1 (signed_mantissa v2) (moffset v2)
         in finish_sum (missue v1) (to_i64 (vv1 + vv2)) ov1)"

definition amt_minus :: "stamount \<Rightarrow> stamount \<Rightarrow> stamount res" where
  "amt_minus v1 v2 =
     rbind (throwcomparable v1 v2) (\<lambda>_.
       if amt_is_zero v2 then Inr v1
       else if misnative v2 then
         rbind (getsnvalue v1) (\<lambda>x1. rbind (getsnvalue v2) (\<lambda>x2.
           Inr (createfromint64 (amt_isvbc v1) (to_i64 (x1 - x2)))))
       else
         let (vv1, ov1) = align_to (moffset v2) (signed_mantissa v1) (moffset v1);
             (vv2, ov2) = align_to ov1 (signed_mantissa v2) (moffset v2)
         in finish_sum (missue v1) (to_i64 (vv1 - vv2)) ov1)"

definition amt_uminus :: "stamount \<Rightarrow> stamount" where
  "amt_uminus a =
     (if mvalue a = 0 then a
      else mk_unchecked (missue a) (mvalue a) (moffset a) (misnative a) (\<not> misnegative a))"

definition amt_plus_u64 :: "stamount \<Rightarrow> u64 \<Rightarrow> stamount res" where
  "amt_plus_u64 l r =
     rbind (getsnvalue l) (\<lambda>x. Inr (mk_native_i64 (amt_isvbc l) (to_i64 (x + to_i64 (uint r)))))"

definition amt_minus_u64 :: "stamount \<Rightarrow> u64 \<Rightarrow> stamount res" where
  "amt_minus_u64 l r =
     rbind (getsnvalue l) (\<lambda>x. Inr (mk_native_i64 (amt_isvbc l) (to_i64 (x - to_i64 (uint r)))))"

definition amt_plus_assign_u64 :: "u64 \<Rightarrow> stamount \<Rightarrow> stamount res" where
  "amt_plus_assign_u64 v a =
     (if \<not> misnative a then Inl Assertion_failed
      else rbind (getsnvalue a) (\<lambda>x. setsnvalue (to_i64 (x + to_i64 (uint v))) a))"

definition amt_minus_assign_u64 :: "u64 \<Rightarrow> stamount \<Rightarrow> stamount res" where
  "amt_minus_assign_u64 v a =
     (if \<not> misnative a then Inl Assertion_failed
      else rbind (getsnvalue a) (\<lambda>x. setsnvalue (to_i64 (x - to_i64 (uint v))) a))"

end
