(* ===== verification/Amount_Canon.thy ===== *)
theory Amount_Canon
  imports St_Amount
begin

text \<open>
  What \<^verbatim>\<open>STAmount::canonicalize\<close> computes, stated on the rational number an amount denotes. The
  loops are summarised first (how many digits each adds or drops); the properties then follow by
  comparing powers of ten.
\<close>

section \<open>The number an amount denotes\<close>

definition p10 :: "int \<Rightarrow> rat" where
  "p10 e = 10 powi e"

lemma p10_pos [simp]: "0 < p10 e" "0 \<le> p10 e" "p10 e \<noteq> 0"
  by (auto simp: p10_def)

lemma p10_not_nonpos [simp]: "\<not> p10 e \<le> 0"
  by (simp add: not_le)

lemma p10_add: "p10 (a + b) = p10 a * p10 b"
  by (simp add: p10_def power_int_add)

lemma p10_nat: "p10 (int n) = 10 ^ n"
  by (simp add: p10_def)

lemma p10_0 [simp]: "p10 0 = 1"
  by (simp add: p10_def)

lemma p10_mono: "a \<le> b \<Longrightarrow> p10 a \<le> p10 b"
  by (simp add: p10_def power_int_increasing)

lemma p10_strict_mono: "a < b \<Longrightarrow> p10 a < p10 b"
  by (simp add: p10_def power_int_strict_increasing)

lemma p10_minus_mult: "p10 (- e) * p10 e = 1"
  using p10_add [of "- e" e] by simp

definition magnitude :: "u64 \<Rightarrow> int \<Rightarrow> rat" where
  "magnitude v e = of_nat (unat v) * p10 e"

definition amt_val :: "stamount \<Rightarrow> rat" where
  "amt_val a = (if misnegative a then - magnitude (mvalue a) (moffset a) else magnitude (mvalue a) (moffset a))"

section \<open>The loops\<close>

lemma consts_unat [u64_simps]:
  "unat cminvalue = 10 ^ 15" "unat cmaxvalue = 10 ^ 16 - 1" "unat cmaxnativen = 10 ^ 17"
  by (simp_all add: cminvalue_def cmaxvalue_def cmaxnativen_def)

lemma cmin_iff: "v < cminvalue \<longleftrightarrow> unat v < 10 ^ 15"
  by (simp only: word_less_nat_alt consts_unat)

lemma cmax_iff: "cmaxvalue < v \<longleftrightarrow> 10 ^ 16 \<le> unat v"
  unfolding word_less_nat_alt consts_unat by simp arith

lemma cmaxnativen_iff: "cmaxnativen < v \<longleftrightarrow> 10 ^ 17 < unat v"
  by (simp only: word_less_nat_alt consts_unat)

lemma shift_right_to_spec:
  "shift_right_to t v off = (v', off') \<Longrightarrow>
     unat v' = unat v div 10 ^ nat (t - off) \<and> off' = max off t"
proof (induction t v off rule: shift_right_to.induct)
  case (1 t v off)
  show ?case
  proof (cases "off < t")
    case True
    then have "nat (t - off) = Suc (nat (t - (off + 1)))" by simp
    then show ?thesis
      using True 1 by (simp add: shift_right_to.simps [of t v off] unat_div_10 div_mult2_eq)
  next
    case False
    then show ?thesis using 1(2) by (simp add: shift_right_to.simps [of t v off])
  qed
qed

lemma shift_left_to0_spec:
  "shift_left_to0 v off = (v', off') \<Longrightarrow>
     unat v' = unat v * 10 ^ nat off mod 2 ^ 64 \<and> off' = min off 0"
proof (induction v off rule: shift_left_to0.induct)
  case (1 v off)
  show ?case
  proof (cases "off > 0")
    case True
    then have "nat off = Suc (nat (off - 1))" by simp
    moreover have "unat (v * 10) = unat v * 10 mod 2 ^ 64"
      by (simp add: unat_word_ariths)
    ultimately show ?thesis
      using True 1 by (simp add: shift_left_to0.simps [of v off] mod_mult_left_eq mult.assoc)
  next
    case False
    then show ?thesis
      using 1(2) by (simp add: shift_left_to0.simps [of v off] unat_u64_lt)
  qed
qed

lemma scale_up_spec:
  "scale_up v off = (v', off') \<Longrightarrow>
     \<exists>k. unat v' = unat v * 10 ^ k \<and> off' = off - int k \<and>
         (10 ^ 15 \<le> unat v' \<or> off' \<le> - 96) \<and> (0 < k \<longrightarrow> unat v' < 10 ^ 16 \<and> - 96 \<le> off')"
proof (induction v off rule: scale_up.induct)
  case (1 v off)
  show ?case
  proof (cases "v < cminvalue \<and> off > cminoffset")
    case True
    then have v: "unat v < 10 ^ 15" "- 96 < off" by (auto simp: cmin_iff cminoffset_def)
    then have v10: "unat (v * 10) = unat v * 10" by (intro unat_times_10) simp
    from True 1 obtain k where k: "unat v' = unat (v * 10) * 10 ^ k" "off' = off - 1 - int k"
      "10 ^ 15 \<le> unat v' \<or> off' \<le> - 96" "0 < k \<longrightarrow> unat v' < 10 ^ 16 \<and> - 96 \<le> off'"
      by (auto simp: scale_up.simps [of v off])
    then show ?thesis
      using v v10 by (intro exI [of _ "Suc k"]) (cases "k = 0"; simp)
  next
    case False
    then show ?thesis
      using 1(2) by (intro exI [of _ 0]) (auto simp: scale_up.simps [of v off] cmin_iff cminoffset_def)
  qed
qed

lemma scale_down_spec:
  "scale_down v off = Inr (v', off') \<Longrightarrow>
     \<exists>k. unat v' = unat v div 10 ^ k \<and> off' = off + int k \<and> unat v' < 10 ^ 16 \<and>
         (0 < k \<longrightarrow> 10 ^ 15 \<le> unat v' \<and> off' \<le> 80)"
  "scale_down v off = Inl e \<Longrightarrow>
     e = Runtime_error ''value overflow'' \<and> (\<exists>k. 10 ^ 16 \<le> unat v div 10 ^ k \<and> 80 \<le> off + int k)"
proof (induction v off rule: scale_down.induct)
  case (1 v off)
  have d: "unat (v div 10) div 10 ^ k = unat v div 10 ^ Suc k" for k
    by (simp add: unat_div_10 div_mult2_eq)
  { case 1
    show ?case
    proof (cases "v > cmaxvalue")
      case True
      with 1 have off: "\<not> off \<ge> cmaxoffset" "scale_down (v div 10) (off + 1) = Inr (v', off')"
        by (auto simp: scale_down.simps [of v off] split: if_splits)
      with "1.IH"(1) True obtain k where k: "unat v' = unat v div 10 ^ Suc k" "off' = off + 1 + int k"
        "unat v' < 10 ^ 16" "0 < k \<longrightarrow> 10 ^ 15 \<le> unat v' \<and> off' \<le> 80" unfolding d [symmetric] by blast
      have "10 ^ 15 \<le> unat v div 10" using True by (simp add: cmax_iff)
      then show ?thesis
        using k off by (intro exI [of _ "Suc k"]) (cases "k = 0"; simp add: cmaxoffset_def)
    next
      case False
      then show ?thesis
        using 1 by (intro exI [of _ 0]) (auto simp: scale_down.simps [of v off] cmax_iff)
    qed
  next
    case 2
    then have big: "v > cmaxvalue" by (auto simp: scale_down.simps [of v off] split: if_splits)
    show ?case
    proof (cases "off \<ge> cmaxoffset")
      case True
      then show ?thesis
        using 2 big by (auto simp: scale_down.simps [of v off] cmax_iff cmaxoffset_def intro!: exI [of _ 0])
    next
      case False
      then have "scale_down (v div 10) (off + 1) = Inl e"
        using 2 big by (simp add: scale_down.simps [of v off])
      with "1.IH"(2) False big obtain k where "e = Runtime_error ''value overflow''"
        "10 ^ 16 \<le> unat v div 10 ^ Suc k" "80 \<le> off + 1 + int k" unfolding d [symmetric] by blast
      then show ?thesis by (auto intro!: exI [of _ "Suc k"])
    qed
  }
qed

section \<open>Truncation to 16 digits\<close>

lemma magnitude_scale_up:
  assumes "unat v' = unat v * 10 ^ k"
  shows "magnitude v' (off - int k) = magnitude v off"
proof -
  have "p10 (off - int k) * 10 ^ k = p10 off"
    using p10_add [of "off - int k" "int k"] by (simp add: p10_nat)
  then show ?thesis by (simp add: magnitude_def assms ac_simps)
qed

lemma magnitude_floor:
  assumes "unat v' = unat v div 10 ^ k"
  shows "magnitude v' (off + int k) \<le> magnitude v off"
    and "magnitude v off < (of_nat (unat v') + 1) * p10 (off + int k)"
proof -
  have "unat v' * 10 ^ k \<le> unat v" unfolding assms by simp
  then have lo: "(of_nat (unat v' * 10 ^ k) :: rat) \<le> of_nat (unat v)" by (rule of_nat_mono)
  have "unat v < (unat v' + 1) * 10 ^ k" unfolding assms
    using dividend_less_times_div [of "10 ^ k" "unat v"] by (simp add: algebra_simps)
  then have hi: "(of_nat (unat v) :: rat) < of_nat ((unat v' + 1) * 10 ^ k)" by (simp only: of_nat_less_iff)
  have p: "p10 (off + int k) = 10 ^ k * p10 off" by (simp add: p10_add p10_nat)
  show "magnitude v' (off + int k) \<le> magnitude v off"
    using mult_right_mono [OF lo, of "p10 off"] by (simp add: magnitude_def p ac_simps)
  show "magnitude v off < (of_nat (unat v') + 1) * p10 (off + int k)"
    using mult_strict_right_mono [OF hi, of "p10 off"] by (simp add: magnitude_def p algebra_simps)
qed

lemma magnitude_ge:
  assumes "10 ^ n \<le> unat v" "e \<le> off"
  shows "p10 (int n + e) \<le> magnitude v off"
proof -
  have "(of_nat (10 ^ n) :: rat) \<le> of_nat (unat v)" using assms(1) by (rule of_nat_mono)
  then have "10 ^ n * p10 e \<le> of_nat (unat v) * p10 off"
    using assms(2) by (intro mult_mono p10_mono) 
      (use of_nat_0_le_iff [of "unat v", where 'a = rat] in auto)
  then show ?thesis by (simp add: magnitude_def p10_add p10_nat)
qed

lemma less_magnitude_Suc:
  assumes "x < (of_nat (unat v) + 1) * p10 off" "unat v < 10 ^ n" "off \<le> e"
  shows "x < p10 (int n + e)"
proof -
  have "of_nat (unat v + 1) \<le> (of_nat (10 ^ n) :: rat)" using assms(2) by (intro of_nat_mono) simp
  then have "(of_nat (unat v) + 1) * p10 off \<le> 10 ^ n * p10 e"
    using assms(3) by (intro mult_mono p10_mono) auto
  then show ?thesis using assms(1) by (simp add: p10_add p10_nat)
qed

definition truncated16 :: "rat \<Rightarrow> u64 \<Rightarrow> int \<Rightarrow> bool" where
  "truncated16 x m e \<longleftrightarrow> 10 ^ 15 \<le> unat m \<and> unat m < 10 ^ 16 \<and> - 96 \<le> e \<and> e \<le> 80 \<and>
     magnitude m e \<le> x \<and> x < (of_nat (unat m) + 1) * p10 e"

lemma canonicalize_iou_cases:
  assumes "mvalue a \<noteq> 0"
  defines "x \<equiv> magnitude (mvalue a) (moffset a)"
  obtains
    (overflow) "p10 96 \<le> x" "canonicalize_iou a = Inl (Runtime_error ''value overflow'')"
  | (underflow) "x < p10 (- 81)" "canonicalize_iou a = Inr (a\<lparr>misnative := False, mvalue := 0, moffset := 0\<rparr>)"
  | (normal) m e where "truncated16 x m e" "p10 (- 81) \<le> x" "x < p10 96"
      "canonicalize_iou a = Inr (a\<lparr>misnative := False, mvalue := m, moffset := e\<rparr>)"
proof -
  obtain v1 o1 where up: "scale_up (mvalue a) (moffset a) = (v1, o1)" by fastforce
  obtain k1 where k1: "unat v1 = unat (mvalue a) * 10 ^ k1" "o1 = moffset a - int k1"
    "10 ^ 15 \<le> unat v1 \<or> o1 \<le> - 96" using scale_up_spec [OF up] by blast
  have x: "x = magnitude v1 o1" using magnitude_scale_up [OF k1(1), of "moffset a"] k1(2) by (simp add: x_def)
  show thesis
  proof (cases "scale_down v1 o1")
    case (Inl e)
    from scale_down_spec(2) [OF Inl] obtain k where k: "e = Runtime_error ''value overflow''"
      "10 ^ 16 \<le> unat v1 div 10 ^ k" "80 \<le> o1 + int k" by blast
    have "10 ^ (16 + k) \<le> unat v1"
      using mult_le_mono1 [OF k(2), of "10 ^ k"] div_times_less_eq_dividend [of "unat v1" "10 ^ k"]
      by (simp only: power_add)
    then have "p10 (int (16 + k) + (80 - int k)) \<le> x"
      unfolding x by (rule magnitude_ge) (use k(3) in simp)
    then show thesis
      using Inl k(1) assms(1) by (intro overflow) (simp_all add: canonicalize_iou_def up)
  next
    case (Inr r)
    then obtain v2 o2 where down: "scale_down v1 o1 = Inr (v2, o2)" by (cases r) auto
    from scale_down_spec(1) [OF down] obtain k where k: "unat v2 = unat v1 div 10 ^ k"
      "o2 = o1 + int k" "unat v2 < 10 ^ 16" "0 < k \<longrightarrow> 10 ^ 15 \<le> unat v2 \<and> o2 \<le> 80" by blast
    have lo: "magnitude v2 o2 \<le> x" and hi: "x < (of_nat (unat v2) + 1) * p10 o2"
      using magnitude_floor [OF k(1), of o1] by (simp_all add: x k(2))
    show thesis
    proof (cases "o2 < - 96 \<or> unat v2 < 10 ^ 15")
      case True
      have "x < p10 (- 81)"
      proof (cases "unat v2 < 10 ^ 15")
        case True
        then have "k = 0" using k(4) by simp
        then have "o2 \<le> - 96" using True k(1,2) k1(3) by simp
        then show ?thesis using less_magnitude_Suc [OF hi True, of "- 96"] by simp
      next
        case False
        with \<open>o2 < - 96 \<or> unat v2 < 10 ^ 15\<close> have "o2 \<le> - 97" by simp
        then show ?thesis using less_magnitude_Suc [OF hi k(3), of "- 97"] by simp
      qed
      then show thesis
        using True assms(1)
        by (intro underflow) (auto simp: canonicalize_iou_def up down cmin_iff cminoffset_def cmaxoffset_def Let_def)
    next
      case False
      then have r: "- 96 \<le> o2" "10 ^ 15 \<le> unat v2" by auto
      then have nz: "v2 \<noteq> 0" by auto
      have dec: "\<not> v2 < cminvalue" "\<not> cmaxvalue < v2" "\<not> o2 < cminoffset"
        using r k(3) by (simp_all add: cmin_iff cmax_iff cminoffset_def)
      show thesis
      proof (cases "o2 > 80")
        case True
        then have "p10 96 \<le> x"
          using order_trans [OF magnitude_ge [OF r(2), of 81 o2] lo] by simp
        then show thesis
          using True assms(1) dec by (intro overflow) (simp_all add: canonicalize_iou_def up down cmaxoffset_def)
      next
        case False
        have "p10 (- 81) \<le> x" using order_trans [OF magnitude_ge [OF r(2,1)] lo] by simp
        moreover have "x < p10 96" using less_magnitude_Suc [OF hi k(3), of 80] False by simp
        moreover have "truncated16 x v2 o2" using False r k(3) lo hi by (simp add: truncated16_def)
        ultimately show thesis
          using False assms(1) dec nz
          by (intro normal) (auto simp: canonicalize_iou_def up down cmaxoffset_def not_less)
      qed
    qed
  qed
qed

section \<open>Properties of canonicalisation\<close>

text \<open>
  The form the header file describes: zero with exponent -100, or a mantissa of 16 digits with an
  exponent between -96 and 80. Native amounts have exponent 0 and no negative zero.
\<close>

definition canonical :: "stamount \<Rightarrow> bool" where
  "canonical a \<longleftrightarrow>
     misnative a = amt_isnative a \<and>
     (if amt_isnative a then moffset a = 0 \<and> mvalue a \<le> cmaxnativen \<and> (mvalue a = 0 \<longrightarrow> \<not> misnegative a)
      else if mvalue a = 0 then moffset a = - 100 \<and> \<not> misnegative a
      else cminvalue \<le> mvalue a \<and> mvalue a \<le> cmaxvalue \<and> cminoffset \<le> moffset a \<and> moffset a \<le> cmaxoffset)"

text \<open>
  C11. An amount that is not native is normalised by truncation: with x its absolute value,
  canonicalisation throws exactly when x is at least \<open>10^96\<close>, gives a zero mantissa exactly when x is
  zero or below \<open>10^(-81)\<close>, and otherwise keeps the sign and the issue and finds the unique mantissa of
  16 digits and exponent between -96 and 80 with \<open>m * 10^e \<le> x < (m + 1) * 10^e\<close>. None of the
  assertions at the end of the function can fail.
\<close>

theorem canonicalize_truncates:
  assumes "\<not> amt_isnative a" and "x = magnitude (mvalue a) (moffset a)"
  shows "(p10 96 \<le> x \<longleftrightarrow> canonicalize a = Inl (Runtime_error ''value overflow'')) \<and>
    (x < p10 96 \<longrightarrow>
      (\<exists>r. canonicalize a = Inr r \<and> missue r = missue a \<and> \<not> misnative r \<and>
        (mvalue r = 0 \<longleftrightarrow> x < p10 (- 81)) \<and>
        (p10 (- 81) \<le> x \<longrightarrow>
          canonical r \<and> misnegative r = misnegative a \<and>
          magnitude (mvalue r) (moffset r) \<le> x \<and>
          x < (of_nat (unat (mvalue r)) + 1) * p10 (moffset r))))"
proof (cases "mvalue a = 0")
  case True
  then show ?thesis
    using assms by (simp add: canonicalize_def canonicalize_iou_def magnitude_def not_le)
next
  case False
  have ord: "p10 (- 81) < p10 96" by (rule p10_strict_mono) simp
  have c: "canonicalize a = canonicalize_iou a" using assms by (simp add: canonicalize_def)
  from False show ?thesis
  proof (cases rule: canonicalize_iou_cases)
    case overflow
    then show ?thesis using assms(2) by (simp add: c)
  next
    case underflow
    then have "x < p10 96" using ord assms(2) by simp
    then show ?thesis using underflow assms(2) by (simp add: c not_le [symmetric])
  next
    case (normal m e)
    then have "m \<noteq> 0" by (auto simp: truncated16_def)
    moreover have "canonical (a\<lparr>misnative := False, mvalue := m, moffset := e\<rparr>)"
      using normal(1) assms(1)
      by (auto simp: canonical_def truncated16_def amt_isnative_def amt_isxrp_def amt_isvbc_def
          cmin_iff cmax_iff cminoffset_def cmaxoffset_def simp flip: not_less)
    ultimately show ?thesis
      using normal assms(2) by (auto simp: c not_le [symmetric] truncated16_def)
  qed
qed

theorem canonicalize_truncates_witness:
  "\<exists>r. canonicalize (mk_unchecked \<lparr>currency = 5, account = 7\<rparr> 12345 0 False True) = Inr r \<and>
     canonical r \<and> misnegative r"
proof -
  let ?a = "mk_unchecked \<lparr>currency = 5, account = 7\<rparr> 12345 0 False True"
  have n: "\<not> amt_isnative ?a"
    by (simp add: mk_unchecked_def amt_isnative_def amt_isxrp_def amt_isvbc_def isxrp_def isvbc_def vbccurrency_def)
  have x: "(12345 :: rat) = magnitude (mvalue ?a) (moffset ?a)"
    by (simp add: mk_unchecked_def magnitude_def)
  have "(12345 :: rat) < p10 96" "p10 (- 81) \<le> 12345"
    using p10_mono [of "- 81" 0] by (simp_all add: p10_def power_int_def)
  then show ?thesis
    using canonicalize_truncates [OF n x] by (auto simp: mk_unchecked_def)
qed

lemma canonicalize_native_spec:
  assumes "amt_isnative a" "mvalue a \<noteq> 0"
  defines "q \<equiv> unat (mvalue a) div 10 ^ nat (- moffset a) * 10 ^ nat (moffset a)"
  assumes "q < 2 ^ 64"
  shows "canonicalize a =
    (if 10 ^ 17 < q then Inl (Runtime_error ''native currency amount out of range'')
     else Inr (a\<lparr>misnative := True, mvalue := of_nat q, moffset := 0\<rparr>))"
proof -
  obtain v1 o1 where r: "shift_right_to 0 (mvalue a) (moffset a) = (v1, o1)" by fastforce
  obtain v o' where l: "shift_left_to0 v1 o1 = (v, o')" by fastforce
  have v1: "unat v1 = unat (mvalue a) div 10 ^ nat (- moffset a)" "o1 = max (moffset a) 0"
    using shift_right_to_spec [OF r] by simp_all
  have "unat v = q mod 2 ^ 64" "o' = 0"
    using shift_left_to0_spec [OF l] by (simp_all add: v1 q_def max_def)
  then have v: "unat v = q" "o' = 0" using assms(4) by simp_all
  then have "v = of_nat q" by auto
  then show ?thesis
    using assms(1,2) v by (simp add: canonicalize_def canonicalize_native_def r l cmaxnativen_iff)
qed

text \<open>
  C33. A native amount is brought to exponent 0 by dropping the fraction, and is refused above
  \<open>10^17\<close> drops; a zero mantissa loses its sign. The scaled mantissa must fit 64 bits:
  the loop that multiplies by ten wraps around, see \<open>canonicalize_native_wraps\<close>.
\<close>

theorem canonicalize_native_floor:
  assumes "amt_isnative a" and "magnitude (mvalue a) (moffset a) < 2 ^ 64"
  shows "(10 ^ 17 + 1 \<le> magnitude (mvalue a) (moffset a) \<longrightarrow>
      canonicalize a = Inl (Runtime_error ''native currency amount out of range'')) \<and>
    (magnitude (mvalue a) (moffset a) < 10 ^ 17 + 1 \<longrightarrow>
      (\<exists>r. canonicalize a = Inr r \<and> missue r = missue a \<and> misnative r \<and> moffset r = 0 \<and>
        int (unat (mvalue r)) = \<lfloor>magnitude (mvalue a) (moffset a)\<rfloor> \<and>
        (mvalue a \<noteq> 0 \<longrightarrow> misnegative r = misnegative a)))"
proof -
  define q where "q = unat (mvalue a) div 10 ^ nat (- moffset a) * 10 ^ nat (moffset a)"
  have fl: "int q = \<lfloor>magnitude (mvalue a) (moffset a)\<rfloor>"
  proof (cases "0 \<le> moffset a")
    case True
    then have "magnitude (mvalue a) (moffset a) = of_nat q"
      using p10_nat [of "nat (moffset a)"] by (simp add: q_def magnitude_def)
    then show ?thesis by simp
  next
    case False
    define k where "k = nat (- moffset a)"
    have k: "moffset a = - int k" using False by (simp add: k_def)
    have q: "q = unat (mvalue a) div 10 ^ k" by (simp add: q_def k)
    have "magnitude (mvalue a) (moffset a) = of_nat (unat (mvalue a)) / of_nat (10 ^ k)"
      using p10_minus_mult [of "int k"] by (simp add: magnitude_def k p10_nat field_simps)
    then show ?thesis
      by (simp only: q floor_divide_of_nat_eq)
  qed
  have "(of_int (int q) :: rat) < 2 ^ 64" using assms(2) of_int_floor_le fl by (metis order.strict_trans1)
  then have fit: "q < 2 ^ 64" by (simp only: of_int_of_nat_eq) (metis of_nat_less_iff of_nat_numeral of_nat_power)
  have big: "10 ^ 17 < q \<longleftrightarrow> 10 ^ 17 + 1 \<le> magnitude (mvalue a) (moffset a)"
  proof -
    have "10 ^ 17 < q \<longleftrightarrow> (10 :: int) ^ 17 + 1 \<le> int q" by simp arith
    also have "\<dots> \<longleftrightarrow> of_int (10 ^ 17 + 1) \<le> magnitude (mvalue a) (moffset a)"
      unfolding fl by (rule le_floor_iff)
    finally show ?thesis by simp
  qed
  show ?thesis
  proof (cases "mvalue a = 0")
    case True
    then show ?thesis
      using assms(1) by (simp add: canonicalize_def canonicalize_native_def magnitude_def)
  next
    case False
    have "unat (of_nat q :: u64) = q" using fit by (simp add: unat_of_nat)
    from arg_cong [OF this, of int] have u: "uint (of_nat q :: u64) = int q" by simp
    show ?thesis
      using canonicalize_native_spec [OF assms(1) False] fit big fl u unfolding q_def [symmetric]
      by (auto simp: not_le not_less)
  qed
qed

theorem canonicalize_native_floor_witness:
  "\<exists>r. canonicalize (mk_unchecked vbcissue 12345 (- 2) False True) = Inr r \<and> uint (mvalue r) = 123 \<and> misnegative r"
proof -
  let ?a = "mk_unchecked vbcissue 12345 (- 2) False True"
  have n: "amt_isnative ?a"
    by (simp add: mk_unchecked_def amt_isnative_def amt_isxrp_def amt_isvbc_def isvbc_def vbcissue_def)
  have m: "magnitude (mvalue ?a) (moffset ?a) = 12345 / 100"
    by (simp add: mk_unchecked_def magnitude_def p10_def power_int_def power2_eq_square)
  have f: "\<lfloor>12345 / 100 :: rat\<rfloor> = 123" by (simp add: floor_eq_iff)
  show ?thesis
    using canonicalize_native_floor [OF n] unfolding m f by (auto simp: mk_unchecked_def)
qed

text \<open>The multiplication by ten is not checked: \<open>10^64\<close> drops become zero.\<close>

lemma canonicalize_native_wraps:
  "\<exists>r. mk_amount xrpissue 1 64 False = Inr r \<and> mvalue r = 0"
proof -
  let ?a = "mk_unchecked xrpissue 1 64 False False"
  obtain v o' where l: "shift_left_to0 1 64 = (v, o')" by fastforce
  from shift_left_to0_spec [OF l] have "unat v = 10 ^ 64 mod 2 ^ 64" by simp
  then have "v = 0" by (simp add: unat_eq_zero)
  moreover have "shift_right_to 0 1 64 = (1, 64)" by (simp add: shift_right_to.simps)
  moreover have "amt_isnative ?a"
    by (simp add: mk_unchecked_def amt_isnative_def amt_isxrp_def isxrp_def xrpissue_def xrpcurrency_def)
  ultimately show ?thesis
    using l by (simp add: mk_amount_def canonicalize_def canonicalize_native_def mk_unchecked_def)
qed

end
