(* ===== verification/Amount_Wire.thy ===== *)
theory Amount_Wire
  imports Amount_Canon
begin

text \<open>
  The wire form of amounts: \<^verbatim>\<open>STAmount::add\<close> against \<^verbatim>\<open>STAmount::construct\<close>. The 64-bit word of a
  native amount holds the flags \<^verbatim>\<open>cNotNative\<close> (63), \<^verbatim>\<open>cPosNative\<close> (62) and \<^verbatim>\<open>cVBCNative\<close> (61) above
  the drops; that of another amount holds ten bits of flags and exponent above 54 bits of mantissa.
\<close>

section \<open>Canonical amounts are fixed points\<close>

lemma scale_stop:
  "cminvalue \<le> v \<Longrightarrow> scale_up v off = (v, off)"
  "v \<le> cmaxvalue \<Longrightarrow> scale_down v off = Inr (v, off)"
  by (simp_all add: scale_up.simps [of v off] scale_down.simps [of v off] flip: not_less)

lemma shift_stop: "shift_right_to 0 v 0 = (v, 0)" "shift_left_to0 v 0 = (v, 0)"
  by (simp_all add: shift_right_to.simps [of 0 v 0] shift_left_to0.simps [of v 0])

lemmas loops_stop = scale_stop shift_stop

lemma canonicalize_canonical:
  assumes "canonical a"
  shows "canonicalize a = Inr a"
proof (cases "amt_isnative a")
  case True
  then show ?thesis
    using assms
    by (cases a) (auto simp: canonical_def canonicalize_def canonicalize_native_def loops_stop not_less Let_def)
next
  case False
  then show ?thesis
    using assms
    by (cases a) (auto simp: canonical_def canonicalize_def canonicalize_iou_def loops_stop not_less Let_def)
qed

lemma mk_amount_canonical:
  assumes "canonical \<lparr>missue = iss, mvalue = m, moffset = e, misnative = isnative (currency iss), misnegative = neg\<rparr>"
  shows "mk_amount iss m e neg =
    Inr \<lparr>missue = iss, mvalue = m, moffset = e, misnative = isnative (currency iss), misnegative = neg\<rparr>"
proof -
  have "canonicalize (mk_unchecked iss m e n neg) = canonicalize (mk_unchecked iss m e n' neg)" for n n'
    by (simp add: canonicalize_def canonicalize_native_def canonicalize_iou_def mk_unchecked_def
        amt_isnative_def amt_isxrp_def amt_isvbc_def)
  from this [of False "isnative (currency iss)"] show ?thesis
    using canonicalize_canonical [OF assms] by (simp add: mk_amount_def mk_unchecked_def)
qed

section \<open>Bits of the wire word\<close>

lemma flags_pow: "cnotnative = 2 ^ 63" "cposnative = 2 ^ 62" "cvbcnative = 2 ^ 61"
  by (simp_all add: cnotnative_def cposnative_def cvbcnative_def)

lemma bit_flags [simp]:
  "bit cnotnative n \<longleftrightarrow> n = 63" "bit cposnative n \<longleftrightarrow> n = 62" "bit cvbcnative n \<longleftrightarrow> n = 61"
  by (simp_all only: flags_pow bit_exp_iff) auto

lemma and_flag_0 [simp]:
  "w AND cnotnative = 0 \<longleftrightarrow> \<not> bit w 63"
  "w AND cposnative = 0 \<longleftrightarrow> \<not> bit w 62"
  "w AND cvbcnative = 0 \<longleftrightarrow> \<not> bit w 61"
  by (simp_all only: flags_pow and_exp_eq_0_iff_not_bit)

lemma flags_nonzero [simp]: "cnotnative \<noteq> 0" "cposnative \<noteq> 0" "cvbcnative \<noteq> 0"
  by (simp_all add: cnotnative_def cposnative_def cvbcnative_def)

lemma small_bit: "unat (m :: u64) < 2 ^ k \<Longrightarrow> k \<le> n \<Longrightarrow> \<not> bit m n"
proof
  assume m: "unat m < 2 ^ k" "k \<le> n" "bit m n"
  then have "unat m < 2 ^ n" by (meson order.strict_trans2 one_le_numeral power_increasing)
  then have "take_bit n (unat m) = unat m" by (simp add: take_bit_nat_eq_self)
  then have "\<not> bit (unat m) n" by (metis bit_take_bit_iff less_irrefl)
  with m(3) show False by (simp add: bit_unsigned_iff)
qed

lemma small_bitD: "bit m n \<Longrightarrow> unat (m :: u64) < 2 ^ k \<Longrightarrow> n < k"
  using small_bit [of m k n] by (cases "n < k") auto

lemma word_top_bits: "(w :: u64) = take_bit 61 w OR (if bit w 61 then cvbcnative else 0) OR
    (if bit w 62 then cposnative else 0)" if "\<not> bit w 63"
proof (rule bit_word_eqI)
  fix n assume "n < LENGTH(64)"
  then have "n < 64" by simp
  then consider "n < 61" | "n = 61" | "n = 62" | "n = 63" by linarith
  then show "bit w n = bit (take_bit 61 w OR (if bit w 61 then cvbcnative else 0) OR
    (if bit w 62 then cposnative else 0)) n"
    using that by cases (auto simp: bit_simps)
qed

section \<open>Native amounts\<close>

definition wire_native :: "bool \<Rightarrow> u64 \<Rightarrow> bool \<Rightarrow> u64" where
  "wire_native vbc m neg =
     (if \<not> neg then (if vbc then m OR cvbcnative OR cposnative else m OR cposnative)
      else (if vbc then m OR cvbcnative else m))"

lemma bit_wire_native:
  assumes "unat m < 2 ^ 61"
  shows "bit (wire_native vbc m neg) n \<longleftrightarrow> n < 61 \<and> bit m n \<or> n = 61 \<and> vbc \<or> n = 62 \<and> \<not> neg"
proof (cases "n < 61")
  case False
  then have "\<not> bit m n" using small_bit [OF assms, of n] by simp
  with False show ?thesis by (auto simp: wire_native_def bit_or_iff)
next
  case True
  then show ?thesis by (auto simp: wire_native_def bit_or_iff)
qed

lemma construct_native_wire:
  assumes m: "unat m < 2 ^ 61" and nz: "\<not> (m = 0 \<and> neg)"
  shows "construct_native (wire_native vbc m neg) = Inr (mk_native_u64 vbc m neg)"
proof -
  let ?w = "wire_native vbc m neg"
  note bw = bit_wire_native [OF m]
  have v: "(if bit ?w 61 then ?w AND NOT cvbcnative else ?w) = wire_native False m neg"
    by (rule bit_word_eqI)
      (auto simp: bit_and_iff bit_not_iff bw)
  have p: "wire_native False m neg AND NOT cposnative = m" if "\<not> neg"
    by (rule bit_word_eqI)
      (use that in \<open>auto simp: bit_and_iff bit_not_iff bw dest: small_bitD [OF _ m]\<close>)
  show ?thesis
    using v p nz bw [of vbc neg 61] bw [of False neg 62]
    by (cases neg) (auto simp: construct_native_def Let_def wire_native_def)
qed

lemma construct_native_accepts:
  assumes "\<not> bit w 63" "construct_native w = Inr a"
  obtains m vbc neg where "unat m < 2 ^ 61" "\<not> (m = 0 \<and> neg)" "a = mk_native_u64 vbc m neg"
    "w = wire_native vbc m neg"
proof -
  define m where "m = take_bit 61 w"
  have "unat m = take_bit 61 (unat w)" by (simp add: m_def unsigned_take_bit_eq)
  then have m: "unat m < 2 ^ 61" using take_bit_nat_less_exp [of 61 "unat w"] by simp
  have w: "w = wire_native (bit w 61) m (\<not> bit w 62)"
    using word_top_bits [OF assms(1)] by (auto simp: m_def wire_native_def or.assoc)
  have nz: "\<not> (m = 0 \<and> \<not> bit w 62)"
  proof
    assume z: "m = 0 \<and> \<not> bit w 62"
    then have "w = (if bit w 61 then cvbcnative else 0)"
      using w by (auto simp: wire_native_def split: if_splits)
    then have "(if bit w 61 then w AND NOT cvbcnative else w) = 0" by (auto split: if_splits)
    then show False using assms(2) z by (auto simp: construct_native_def Let_def split: if_splits)
  qed
  show thesis
    using construct_native_wire [OF m nz, of "bit w 61"] assms(2) w m nz by (intro that) auto
qed

section \<open>Other amounts\<close>

definition wire_iou :: "u64 \<Rightarrow> int \<Rightarrow> u64" where
  "wire_iou m k = m OR push_bit (64 - 10) (u64_of_int k)"

lemma wire_iou_fields:
  assumes m: "unat m < 2 ^ 54" and k: "0 \<le> k" "k < 1024"
  shows "drop_bit (64 - 10) (wire_iou m k) = u64_of_int k"
    and "wire_iou m k AND NOT (push_bit (64 - 10) 1023) = m"
    and "bit (wire_iou m k) 63 \<longleftrightarrow> bit k 9"
    and "uint (u64_of_int k) = k"
proof -
  show uk: "uint (u64_of_int k) = k" using k by (simp add: u64_of_int_def uint_word_of_int)
  then have uk10: "unat (u64_of_int k) < 2 ^ 10" using k by (simp add: unat_u64_of_int nat_less_iff)
  note b = small_bitD [OF _ uk10] small_bitD [OF _ m]
  have c: "(1023 :: u64) = mask 10" by (simp add: mask_eq_exp_minus_1)
  show "drop_bit (64 - 10) (wire_iou m k) = u64_of_int k"
    by (rule bit_word_eqI) (auto simp: wire_iou_def bit_simps dest: b)
  show "wire_iou m k AND NOT (push_bit (64 - 10) 1023) = m"
    unfolding c by (rule bit_word_eqI) (auto simp: wire_iou_def bit_simps dest: b)
  have "bit (u64_of_int k) 9 \<longleftrightarrow> bit k 9" by (simp add: u64_of_int_def bit_simps)
  then show "bit (wire_iou m k) 63 \<longleftrightarrow> bit k 9"
    using b(2) [of 63] by (auto simp: wire_iou_def bit_or_iff bit_push_bit_iff)
qed

lemma wire_iou_split:
  "(w :: u64) = wire_iou (w AND NOT (push_bit (64 - 10) 1023)) (uint (drop_bit (64 - 10) w))"
    "unat (w AND NOT (push_bit (64 - 10) 1023)) < 2 ^ 54" "uint (drop_bit (64 - 10) w) < 1024"
proof -
  have c: "(1023 :: u64) = mask 10" by (simp add: mask_eq_exp_minus_1)
  have t: "w AND NOT (push_bit (64 - 10) 1023) = take_bit 54 w"
    unfolding c by (rule bit_word_eqI) (auto simp: bit_simps)
  show "w = wire_iou (w AND NOT (push_bit (64 - 10) 1023)) (uint (drop_bit (64 - 10) w))"
  proof (rule bit_word_eqI)
    fix n
    show "bit w n = bit (wire_iou (w AND NOT (push_bit (64 - 10) 1023)) (uint (drop_bit (64 - 10) w))) n"
      unfolding t
      by (cases "n < 54") (auto simp: wire_iou_def u64_of_int_def bit_simps not_less dest: bit_imp_le_length)
  qed
  show "unat (w AND NOT (push_bit (64 - 10) 1023)) < 2 ^ 54"
    unfolding t using take_bit_nat_less_exp [of 54 "unat w"] by (simp add: unsigned_take_bit_eq)
  have "unat (drop_bit 54 w) = unat w div 2 ^ 54"
    by (simp add: unat_drop_bit_eq drop_bit_eq_div [where 'a = nat])
  moreover have "unat w div 2 ^ 54 < 1024"
    by (rule less_mult_imp_div_less) (use unat_u64_lt [of w] in simp)
  ultimately have "int (unat (drop_bit 54 w)) < int 1024" by (simp only: of_nat_less_iff)
  then show "uint (drop_bit (64 - 10) w) < 1024" by simp
qed

definition iou_code :: "int \<Rightarrow> bool \<Rightarrow> int" where
  "iou_code e neg = (if neg then e + 512 + 97 else e + 512 + 256 + 97)"

lemma and_256: "(c :: int) AND 256 = 0 \<longleftrightarrow> even (c div 256)"
  using and_exp_eq_0_iff_not_bit [of c 8] by (simp add: bit_iff_odd)

lemma and_255: "(c :: int) AND 255 = c mod 256"
proof -
  have "c AND mask 8 = c mod 2 ^ 8" by (simp add: take_bit_eq_mod flip: take_bit_eq_mask)
  then show ?thesis by (simp add: mask_eq_exp_minus_1)
qed

lemma iou_code_fields:
  assumes "- 96 \<le> e" "e \<le> 80"
  shows "0 \<le> iou_code e neg" "iou_code e neg < 1024" "bit (iou_code e neg) 9"
    "iou_code e neg AND 256 = 0 \<longleftrightarrow> neg" "(iou_code e neg AND 255) - 97 = e"
proof -
  define k where "k = e + 97"
  have k: "0 < k" "k < 256" using assms by (simp_all add: k_def)
  have c: "iou_code e neg = 512 + (if neg then 0 else 256) + k" by (simp add: iou_code_def k_def)
  show "0 \<le> iou_code e neg" "iou_code e neg < 1024" using k by (auto simp: c)
  have d9: "iou_code e neg div 512 = 1"
    by (rule int_div_pos_eq [of _ _ _ "(if neg then 0 else 256) + k"]) (use k in \<open>simp_all add: c\<close>)
  have d8: "iou_code e neg div 256 = (if neg then 2 else 3)"
    by (rule int_div_pos_eq [of _ _ _ k]) (use k in \<open>simp_all add: c\<close>)
  have "iou_code e neg = k + 256 * (if neg then 2 else 3)" by (simp add: c)
  then have m8: "iou_code e neg mod 256 = k" using k by (simp only: mod_mult_self2) simp
  show "bit (iou_code e neg) 9" using d9 by (simp add: bit_iff_odd)
  show "iou_code e neg AND 256 = 0 \<longleftrightarrow> neg" unfolding and_256 d8 by simp
  show "(iou_code e neg AND 255) - 97 = e" unfolding and_255 m8 by (simp add: k_def)
qed

lemma odd_half_below_4: "odd (d div 2) \<Longrightarrow> 0 \<le> d \<Longrightarrow> d < 4 \<Longrightarrow> d = 2 \<or> d = (3 :: int)"
  by (cases "d = 0 \<or> d = 1"; force)

lemma iou_code_of_fields:
  assumes "0 \<le> c" "c < 1024" "bit (c :: int) 9"
  shows "iou_code ((c AND 255) - 97) (c AND 256 = 0) = c"
proof -
  define d r where "d = c div 256" and "r = c mod 256"
  have "odd (c div 512)" using assms(3) by (simp add: bit_iff_odd)
  moreover have "c div 512 = d div 2" using zdiv_zmult2_eq [of 2 c 256] by (simp add: d_def)
  moreover have "0 \<le> d" "d < 4" 
    using zdiv_mono1 [of 0 c 256] zdiv_mono1 [of c 1023 256] assms(1,2) by (simp_all add: d_def)
  ultimately have d: "d = 2 \<or> d = 3" using odd_half_below_4 [of d] by simp
  have c: "c = d * 256 + r" by (simp add: d_def r_def)
  have "iou_code (r - 97) (even d) = c" using d unfolding c by (auto simp: iou_code_def)
  then show ?thesis unfolding and_255 and_256 d_def r_def .
qed

section \<open>Reading back what was written\<close>

definition wire_word :: "stamount \<Rightarrow> u64" where
  "wire_word a =
     (if misnative a then wire_native (amt_isvbc a) (mvalue a) (misnegative a)
      else if mvalue a = 0 then cnotnative
      else wire_iou (mvalue a) (iou_code (moffset a) (misnegative a)))"

definition amt_enc :: "stamount \<Rightarrow> blob" where
  "amt_enc a =
     (if misnative a then bits_enc (wire_word a)
      else bits_enc (wire_word a) @ bits_enc (currency (missue a)) @ bits_enc (account (missue a)))"

text \<open>The amounts that can be sent: any native amount below \<open>2^61\<close>, any canonical other amount\<close>

definition wire_ok :: "stamount \<Rightarrow> bool" where
  "wire_ok a \<longleftrightarrow>
     (if misnative a
      then missue a = native_issue (amt_isvbc a) \<and> moffset a = 0 \<and> unat (mvalue a) < 2 ^ 61 \<and>
        (mvalue a = 0 \<longrightarrow> \<not> misnegative a)
      else canonical a \<and> \<not> isnative (account (missue a)))"

lemma amt_is_zero_iff [simp]: "amt_is_zero a \<longleftrightarrow> mvalue a = 0"
  by (simp add: amt_is_zero_def signum_def)

lemma amt_isnative_iff: "amt_isnative a \<longleftrightarrow> isnative (currency (missue a))"
  by (simp add: amt_isnative_def amt_isxrp_def amt_isvbc_def isnative_def)

lemma amt_add_enc:
  "misnative a \<longrightarrow> moffset a = 0 \<Longrightarrow> amt_add a s = Inr (s @ amt_enc a)"
  by (auto simp: amt_add_def amt_enc_def wire_word_def wire_native_def wire_iou_def iou_code_def
      add64_bits add160_def addbitstring_append Let_def)

lemma cnotnative_iou: "cnotnative = wire_iou 0 512"
  by (simp add: cnotnative_def wire_iou_def u64_of_int_def push_bit_eq_mult)

lemma canonical_iou:
  assumes "canonical a" "\<not> misnative a"
  shows "\<not> isnative (currency (missue a))"
    and "mvalue a = 0 \<Longrightarrow> moffset a = - 100 \<and> \<not> misnegative a"
    and "mvalue a \<noteq> 0 \<Longrightarrow> cminvalue \<le> mvalue a \<and> mvalue a \<le> cmaxvalue \<and> unat (mvalue a) < 2 ^ 54 \<and>
      - 96 \<le> moffset a \<and> moffset a \<le> 80"
proof -
  show n: "\<not> isnative (currency (missue a))"
    using assms by (simp add: canonical_def amt_isnative_iff)
  show "mvalue a = 0 \<Longrightarrow> moffset a = - 100 \<and> \<not> misnegative a"
    using assms n by (simp add: canonical_def amt_isnative_iff)
  assume "mvalue a \<noteq> 0"
  then have r: "cminvalue \<le> mvalue a" "mvalue a \<le> cmaxvalue" "- 96 \<le> moffset a" "moffset a \<le> 80"
    using assms n by (auto simp: canonical_def amt_isnative_iff cminoffset_def cmaxoffset_def)
  then have "unat (mvalue a) < 10 ^ 16" using cmax_iff [of "mvalue a"] by (simp add: not_less [symmetric])
  then have "unat (mvalue a) < 2 ^ 54" by simp
  with r show "cminvalue \<le> mvalue a \<and> mvalue a \<le> cmaxvalue \<and> unat (mvalue a) < 2 ^ 54 \<and>
      - 96 \<le> moffset a \<and> moffset a \<le> 80" by simp
qed

lemma mk_zero_iou: "\<not> isnative (currency iss) \<Longrightarrow>
    mk_zero iss = Inr \<lparr>missue = iss, mvalue = 0, moffset = - 100, misnative = False, misnegative = False\<rparr>"
  by (simp add: mk_zero_def mk_amount_def mk_unchecked_def canonicalize_def canonicalize_iou_def
      amt_isnative_iff)

lemma construct_iou_wire:
  assumes "canonical a" "\<not> misnative a"
  shows "construct_iou (wire_word a) (missue a) = Inr a" and "bit (wire_word a) 63"
proof -
  note c = canonical_iou [OF assms]
  have "construct_iou (wire_word a) (missue a) = Inr a \<and> bit (wire_word a) 63"
  proof (cases "mvalue a = 0")
    case True
    have f: "uint (drop_bit (64 - 10) cnotnative) = 512"
      "cnotnative AND NOT (push_bit (64 - 10) 1023) = 0"
      using wire_iou_fields [of 0 512] by (simp_all add: cnotnative_iou)
    then show ?thesis
      using True c(1,2) assms(2)
      by (cases a) (simp add: wire_word_def construct_iou_def Let_def mk_zero_iou del: drop_bit_numeral_bit0)
  next
    case False
    let ?k = "iou_code (moffset a) (misnegative a)"
    note r = c(3) [OF False]
    have k: "0 \<le> ?k" "?k < 1024" "bit ?k 9" "?k AND 256 = 0 \<longleftrightarrow> misnegative a" "(?k AND 255) - 97 = moffset a"
      using iou_code_fields [of "moffset a" "misnegative a"] r by auto
    note f = wire_iou_fields [OF _ k(1,2), of "mvalue a"]
    have w: "wire_word a = wire_iou (mvalue a) ?k" using False assms(2) by (simp add: wire_word_def)
    have "mk_amount (missue a) (mvalue a) (moffset a) (misnegative a) = Inr a"
      using mk_amount_canonical [of "missue a" "mvalue a" "moffset a" "misnegative a"] assms c(1)
      by (cases a) simp
    then show ?thesis
      using False r k f unfolding w
      by (simp add: construct_iou_def Let_def cminoffset_def cmaxoffset_def flip: not_less)
  qed
  then show "construct_iou (wire_word a) (missue a) = Inr a" "bit (wire_word a) 63" by auto
qed

lemma issue_eta: "\<lparr>currency = currency i, account = account i\<rparr> = (i :: issue)"
  by simp

lemma construct_at:
  assumes "wire_ok a"
  shows "construct (iter_at before (amt_enc a @ rest)) = Inr (a, iter_at (before @ amt_enc a) rest)"
proof (cases "misnative a")
  case True
  have w: "unat (mvalue a) < 2 ^ 61" "\<not> (mvalue a = 0 \<and> misnegative a)" "missue a = native_issue (amt_isvbc a)"
    "moffset a = 0" using assms True by (auto simp: wire_ok_def)
  have "mk_native_u64 (amt_isvbc a) (mvalue a) (misnegative a) = a"
    using w True by (cases a) (simp add: mk_native_u64_def mk_unchecked_def)
  then show ?thesis
    using construct_native_wire [OF w(1,2), of "amt_isvbc a"] bit_wire_native [OF w(1), of "amt_isvbc a" "misnegative a" 63] True
    by (simp add: construct_def amt_enc_def wire_word_def it_get_bits)
next
  case False
  have c: "canonical a" "\<not> isnative (account (missue a))" using assms False by (auto simp: wire_ok_def)
  show ?thesis
    using construct_iou_wire [OF c(1) False] canonical_iou(1) [OF c(1) False] c(2) False
    by (simp add: construct_def amt_enc_def it_get_bits it_getbitstring_at issue_eta)
qed

interpretation codec_amount: codec wire_ok amt_enc construct
  by unfold_locales (rule construct_at)

section \<open>Only canonical bytes are accepted\<close>

definition reads :: "seriter \<Rightarrow> blob \<Rightarrow> seriter \<Rightarrow> bool" where
  "reads it bs it' \<longleftrightarrow> it' = advance (length bs) it \<and> mpos it + length bs \<le> length (mserializer it) \<and>
     take (length bs) (drop (mpos it) (mserializer it)) = bs"

lemma reads_append:
  assumes "reads it xs it1" "reads it1 ys it2"
  shows "reads it (xs @ ys) it2"
proof -
  have "take (length xs + length ys) (drop (mpos it) (mserializer it)) = xs @ ys"
    using assms by (simp add: reads_def advance_def take_add add.commute)
  then show ?thesis using assms by (auto simp: reads_def advance_def)
qed

lemma getbitstring_reads:
  assumes "8 dvd LENGTH('a::len)" "getbitstring s off = Some (v :: 'a word)"
  shows "off + LENGTH('a) div 8 \<le> length s" and "take (LENGTH('a) div 8) (drop off s) = bits_enc v"
proof -
  let ?n = "LENGTH('a) div 8"
  let ?bs = "take ?n (drop off s)"
  from assms(2) show le: "off + ?n \<le> length s" by (simp add: getbitstring_def split: if_splits)
  then have len: "length ?bs = ?n" by simp
  have "(256 :: nat) ^ ?n = 2 ^ LENGTH('a)"
    using power_mult [of "2 :: nat" 8 ?n] assms(1) by simp
  moreover have "be_val ?bs < 256 ^ ?n" using be_val_bound [of ?bs] len by simp
  ultimately have "unat (of_nat (be_val ?bs) :: 'a word) = be_val ?bs"
    by (simp add: unat_of_nat)
  moreover have "v = of_nat (be_val ?bs)" using assms(2) le by (simp add: getbitstring_def)
  ultimately show "?bs = bits_enc v"
    using be_bytes_be_val [of ?bs] len by (simp add: bits_enc_bytes)
qed

lemma it_get64_reads: "it_get64 it = Inr (v, it') \<Longrightarrow> reads it (bits_enc v) it'"
  using getbitstring_reads [of "mserializer it" "mpos it" v]
  by (auto simp: it_get64_def it_read_def get64_bits reads_def split: option.splits)

lemma it_getbitstring_reads:
  "8 dvd LENGTH('a::len) \<Longrightarrow> it_getbitstring it = Inr (v :: 'a word, it') \<Longrightarrow> reads it (bits_enc v) it'"
  using getbitstring_reads [of "mserializer it" "mpos it" v]
  by (auto simp: it_getbitstring_def it_read_def reads_def split: option.splits)

lemma construct_iou_accepts:
  assumes "construct_iou w iss = Inr a" "bit w 63" "\<not> isnative (currency iss)"
  shows "canonical a \<and> \<not> misnative a \<and> missue a = iss \<and> wire_word a = w"
proof -
  define m where "m = w AND NOT (push_bit (64 - 10) 1023)"
  define c where "c = uint (drop_bit (64 - 10) w)"
  note sp = wire_iou_split [of w, folded m_def c_def]
  note ci = assms(1) [unfolded construct_iou_def Let_def, folded m_def c_def]
  have c0: "0 \<le> c" by (simp add: c_def)
  then have b9: "bit c 9" using wire_iou_fields(3) [OF sp(2) c0 sp(3)] assms(2) sp(1) by simp
  show ?thesis
  proof (cases "m = 0")
    case True
    then have "c = 512" "a = \<lparr>missue = iss, mvalue = 0, moffset = - 100, misnative = False, misnegative = False\<rparr>"
      using ci assms(3) by (auto simp: mk_zero_iou split: if_splits)
    then show ?thesis
      using True sp(1) assms(3)
      by (simp add: canonical_def amt_isnative_iff wire_word_def cnotnative_iou)
  next
    case False
    define e where "e = (c AND 255) - 97"
    define n where "n = (c AND 256 = 0)"
    have r: "cminvalue \<le> m" "m \<le> cmaxvalue" "cminoffset \<le> e" "e \<le> cmaxoffset"
      and a: "mk_amount iss m e n = Inr a"
      using ci False by (auto simp: e_def n_def not_less split: if_splits)
    let ?a = "\<lparr>missue = iss, mvalue = m, moffset = e, misnative = isnative (currency iss), misnegative = n\<rparr>"
    have can: "canonical ?a" using r assms(3) False by (simp add: canonical_def amt_isnative_iff)
    with a have "a = ?a" by (simp add: mk_amount_canonical)
    moreover have "iou_code e n = c" unfolding e_def n_def by (rule iou_code_of_fields [OF c0 sp(3) b9])
    ultimately show ?thesis
      using can assms(3) False sp(1) by (simp add: wire_word_def)
  qed
qed

lemma native_issue_vbc [simp]: "isvbc (currency (native_issue vbc)) = vbc"
  by (simp add: native_issue_def isvbc_def vbcissue_def xrpissue_def xrpcurrency_def vbccurrency_def)

lemma construct_reads:
  assumes "construct it = Inr (a, it')"
  shows "wire_ok a \<and> reads it (amt_enc a) it'"
proof -
  from assms obtain w it1 where g: "it_get64 it = Inr (w, it1)"
    by (auto simp: construct_def rbind_eq_Inr_iff)
  note rw = it_get64_reads [OF g]
  show ?thesis
  proof (cases "bit w 63")
    case False
    with assms g have n: "construct_native w = Inr a" "it' = it1"
      by (auto simp: construct_def rbind_eq_Inr_iff)
    from False n(1) obtain m vbc neg where "unat m < 2 ^ 61" "\<not> (m = 0 \<and> neg)" "a = mk_native_u64 vbc m neg"
      "w = wire_native vbc m neg" by (rule construct_native_accepts)
    with rw \<open>it' = it1\<close> show ?thesis
      by (simp add: wire_ok_def amt_enc_def wire_word_def mk_native_u64_def mk_unchecked_def amt_isvbc_def)
  next
    case True
    with assms g obtain cur acc it2 where
      h: "it_getbitstring it1 = Inr (cur :: uint160, it2)" "\<not> isnative cur"
        "it_getbitstring it2 = Inr (acc :: uint160, it')" "\<not> isnative acc"
        "construct_iou w \<lparr>currency = cur, account = acc\<rparr> = Inr a"
      by (auto simp: construct_def rbind_eq_Inr_iff split: if_splits)
    from construct_iou_accepts [OF h(5) True] h(2)
    have a: "canonical a" "\<not> misnative a" "missue a = \<lparr>currency = cur, account = acc\<rparr>" "wire_word a = w" by simp_all
    have "reads it (bits_enc w @ bits_enc cur @ bits_enc acc) it'"
      using rw it_getbitstring_reads [OF _ h(1)] it_getbitstring_reads [OF _ h(3)]
      by (intro reads_append [of it _ it1] reads_append [of it1 _ it2]) simp_all
    then show ?thesis using a h(4) by (simp add: wire_ok_def amt_enc_def)
  qed
qed

section \<open>Properties\<close>

text \<open>
  C20. Wire round trip: for a native amount of the native issue below \<open>2^61\<close> drops that is not a negative
  zero, and for every canonical amount of another currency whose issuer is not the number of a native
  currency, the bytes \<^verbatim>\<open>add\<close> appends are read back by \<^verbatim>\<open>construct\<close> as the same amount,
  wherever they stand in a buffer.
\<close>

theorem amount_wire_roundtrip:
  assumes "wire_ok a"
  shows "\<exists>bs. amt_add a s = Inr (s @ bs) \<and>
    construct (iter_at before (bs @ rest)) = Inr (a, iter_at (before @ bs) rest)"
  using assms amt_add_enc [of a s] codec_amount.dec_enc [OF assms, of before rest]
  by (auto simp: wire_ok_def)

theorem amount_wire_roundtrip_witness:
  "\<exists>bs. amt_add (mk_native_u64 True 25 True) [1] = Inr ([1] @ bs) \<and>
     construct (iter_at [] (bs @ [9])) = Inr (mk_native_u64 True 25 True, iter_at bs [9])"
  using amount_wire_roundtrip [of "mk_native_u64 True 25 True" "[1]" "[]" "[9]"]
  by (simp add: wire_ok_def mk_native_u64_def mk_unchecked_def amt_isvbc_def)

text \<open>
  C8. The encoding is not malleable: whatever bytes \<^verbatim>\<open>construct\<close> accepts are exactly the bytes \<^verbatim>\<open>add\<close>
  writes for the amount it returns, so no amount has two encodings and re-serialising a received
  object cannot change its hash. The amount returned is one that can be sent.
\<close>

theorem amount_wire_canonical:
  assumes "construct it = Inr (a, it')"
  shows "wire_ok a \<and> (\<exists>bs. amt_add a [] = Inr bs \<and> it' = advance (length bs) it \<and>
    take (length bs) (drop (mpos it) (mserializer it)) = bs)"
  using construct_reads [OF assms] amt_add_enc [of a "[]"]
  by (auto simp: wire_ok_def reads_def)

theorem amount_wire_canonical_witness:
  "\<exists>bs. amt_add (mk_native_u64 False 3 False) [] = Inr bs \<and> bs = bits_enc (0x4000000000000003 :: u64)"
proof -
  let ?a = "mk_native_u64 False 3 False"
  have "construct_native (wire_native False 3 False) = Inr ?a" by (rule construct_native_wire) simp_all
  then have n: "construct_native 0x4000000000000003 = Inr ?a" by (simp add: wire_native_def cposnative_def)
  have "construct (iter_at [] (bits_enc (0x4000000000000003 :: u64) @ [])) =
      Inr (?a, iter_at ([] @ bits_enc (0x4000000000000003 :: u64)) [])"
    unfolding construct_def it_get_bits by (simp add: n cnotnative_def del: and_flag_0)
  from amount_wire_canonical [OF this] show ?thesis
    by (auto simp: iter_at_def advance_def)
qed

end
