(* ===== verification/Amount_Order.thy ===== *)
theory Amount_Order
  imports Amount_Wire
begin

text \<open>
  Comparison, addition and subtraction of amounts, against the rational numbers they denote. The
  comparison of \<^verbatim>\<open>STAmount.cpp\<close> looks at signs, exponents and mantissas in turn; on canonical amounts
  that is the order of the numbers.
\<close>

section \<open>Comparison is numeric\<close>

lemma magnitude_0 [simp]: "magnitude 0 e = 0"
  by (simp add: magnitude_def)

lemma magnitude_pos: "v \<noteq> 0 \<Longrightarrow> 0 < magnitude v e"
  by (simp add: magnitude_def unat_gt_0 del: of_nat_unat)

lemma magnitude_offset_less:
  assumes "10 ^ 15 \<le> unat v" "unat u < 10 ^ 16" "f < e"
  shows "magnitude u f < magnitude v e"
proof -
  have "magnitude u f < (of_nat (unat u) + 1) * p10 f"
    unfolding magnitude_def by (intro mult_strict_right_mono) simp_all
  then have "magnitude u f < p10 (int 16 + f)"
    using assms(2) by (rule less_magnitude_Suc) simp
  also have "p10 (int 16 + f) \<le> p10 (int 15 + e)" using assms(3) by (intro p10_mono) simp
  also have "\<dots> \<le> magnitude v e" using assms(1) by (rule magnitude_ge) simp
  finally show ?thesis .
qed

lemma magnitude_mantissa_less: "u < v \<Longrightarrow> magnitude u e < magnitude v e"
  unfolding magnitude_def word_less_nat_alt
  by (intro mult_strict_right_mono) (simp_all only: of_nat_less_iff p10_pos)

lemma canonical_range:
  assumes "canonical a" "\<not> misnative a" "mvalue a \<noteq> 0"
  shows "10 ^ 15 \<le> unat (mvalue a)" "unat (mvalue a) < 10 ^ 16"
  using canonical_iou(3) [OF assms] by (simp_all add: cmin_iff cmax_iff flip: not_less)

lemma canonical_native: "canonical a \<Longrightarrow> misnative a \<Longrightarrow> moffset a = 0"
  by (simp add: canonical_def split: if_splits)

lemma canonical_zero: "canonical a \<Longrightarrow> mvalue a = 0 \<Longrightarrow> \<not> misnegative a"
  by (simp add: canonical_def split: if_splits)

lemma canonical_magnitude_less:
  assumes "canonical a" "canonical b" "misnative a = misnative b" "mvalue a \<noteq> 0" "mvalue b \<noteq> 0"
    and "moffset a < moffset b \<or> moffset a = moffset b \<and> mvalue a < mvalue b"
  shows "magnitude (mvalue a) (moffset a) < magnitude (mvalue b) (moffset b)"
proof (cases "moffset a < moffset b")
  case True
  then have "\<not> misnative a"
    using canonical_native [OF assms(1)] canonical_native [OF assms(2)] assms(3) by auto
  then show ?thesis
    using True canonical_range [OF assms(1)] canonical_range [OF assms(2)] assms(3-5)
    by (intro magnitude_offset_less) auto
next
  case False
  then show ?thesis using assms(6) by (simp add: magnitude_mantissa_less)
qed


lemma amt_compare_nonzero:
  assumes "mvalue a \<noteq> 0" "mvalue b \<noteq> 0"
  shows "moffset a < moffset b \<or> moffset a = moffset b \<and> mvalue a < mvalue b \<Longrightarrow>
      amt_compare a b = (if misnegative a then if misnegative b then 1 else - 1 else if misnegative b then 1 else - 1)"
    and "moffset b < moffset a \<or> moffset b = moffset a \<and> mvalue b < mvalue a \<Longrightarrow>
      amt_compare a b = (if misnegative a then - 1 else 1)"
    and "moffset a = moffset b \<Longrightarrow> mvalue a = mvalue b \<Longrightarrow>
      amt_compare a b = (if misnegative a = misnegative b then 0 else if misnegative a then - 1 else 1)"
  using assms by (auto simp: amt_compare_def)

lemma amt_compare_zero:
  "mvalue a = 0 \<Longrightarrow> \<not> misnegative a \<Longrightarrow>
     amt_compare a b = (if misnegative b then 1 else if mvalue b = 0 then 0 else - 1)"
  "mvalue b = 0 \<Longrightarrow> \<not> misnegative b \<Longrightarrow> mvalue a \<noteq> 0 \<Longrightarrow>
     amt_compare a b = (if misnegative a then - 1 else 1)"
  by (simp_all add: amt_compare_def)

lemma amt_compare_less:
  assumes "canonical a" "canonical b" "misnative a = misnative b"
  shows "amt_compare a b < 0 \<longleftrightarrow> amt_val a < amt_val b"
    and "amt_compare a b = 0 \<longleftrightarrow> amt_val a = amt_val b"
proof -
  let ?X = "magnitude (mvalue a) (moffset a)" and ?Y = "magnitude (mvalue b) (moffset b)"
  consider (za) "mvalue a = 0" | (zb) "mvalue a \<noteq> 0" "mvalue b = 0" | (nz) "mvalue a \<noteq> 0" "mvalue b \<noteq> 0"
    by blast
  then have "(amt_compare a b < 0 \<longleftrightarrow> amt_val a < amt_val b) \<and> (amt_compare a b = 0 \<longleftrightarrow> amt_val a = amt_val b)"
  proof cases
    case za
    have "mvalue b = 0 \<or> 0 < ?Y" using magnitude_pos by blast
    then show ?thesis
      using amt_compare_zero(1) [OF za canonical_zero [OF assms(1) za], of b] za
        canonical_zero [OF assms(1) za] canonical_zero [OF assms(2)]
      by (auto simp: amt_val_def)
  next
    case zb
    have "0 < ?X" using zb magnitude_pos by blast
    then show ?thesis
      using amt_compare_zero(2) [OF zb(2) canonical_zero [OF assms(2) zb(2)] zb(1)] zb
        canonical_zero [OF assms(2) zb(2)]
      by (auto simp: amt_val_def)
  next
    case nz
    then have pos: "0 < ?X" "0 < ?Y" by (simp_all add: magnitude_pos)
    consider (less) "moffset a < moffset b \<or> moffset a = moffset b \<and> mvalue a < mvalue b"
      | (greater) "moffset b < moffset a \<or> moffset b = moffset a \<and> mvalue b < mvalue a"
      | (same) "moffset a = moffset b" "mvalue a = mvalue b"
      using less_linear [of "moffset a" "moffset b"] less_linear [of "mvalue a" "mvalue b"] by metis
    then show ?thesis
    proof cases
      case less
      then have "?X < ?Y" using canonical_magnitude_less [OF assms nz] by simp
      then show ?thesis
        using pos unfolding amt_compare_nonzero(1) [OF nz less] amt_val_def
        by (cases "misnegative a"; cases "misnegative b"; simp)
    next
      case greater
      then have "?Y < ?X" using canonical_magnitude_less [OF assms(2,1) assms(3) [symmetric] nz(2,1)] by simp
      then show ?thesis
        using pos unfolding amt_compare_nonzero(2) [OF nz greater] amt_val_def
        by (cases "misnegative a"; cases "misnegative b"; simp)
    next
      case same
      show ?thesis
        using pos unfolding amt_compare_nonzero(3) [OF nz same] amt_val_def same
        by (cases "misnegative a"; cases "misnegative b"; simp)
    qed
  qed
  then show "amt_compare a b < 0 \<longleftrightarrow> amt_val a < amt_val b" "amt_compare a b = 0 \<longleftrightarrow> amt_val a = amt_val b"
    by auto
qed

lemma amt_compare_sgn:
  assumes "canonical a" "canonical b" "misnative a = misnative b"
  shows "sgn (amt_compare b a) = - sgn (amt_compare a b)"
  using amt_compare_less [OF assms] amt_compare_less [OF assms(2,1) assms(3) [symmetric]]
  by (auto simp: sgn_if)

lemma amt_compare_leq:
  "canonical a \<Longrightarrow> canonical b \<Longrightarrow> misnative a = misnative b \<Longrightarrow> amt_compare a b \<le> 0 \<longleftrightarrow> amt_val a \<le> amt_val b"
  using amt_compare_less [of a b] by linarith

interpretation native_cmp: three_way "\<lambda>a. canonical a \<and> misnative a" amt_compare
  by unfold_locales (auto simp: amt_compare_leq intro: amt_compare_sgn)

interpretation iou_cmp: three_way "\<lambda>a. canonical a \<and> \<not> misnative a" amt_compare
  by unfold_locales (auto simp: amt_compare_leq intro: amt_compare_sgn)

lemma iscomparable_native: "iscomparable a b \<Longrightarrow> misnative a = misnative b"
  by (simp add: iscomparable_def split: if_splits)

lemma iscomparable_iff:
  "iscomparable a b \<longleftrightarrow> misnative a \<and> misnative b \<or>
     \<not> misnative a \<and> \<not> misnative b \<and> currency (missue a) = currency (missue b)"
  by (auto simp: iscomparable_def)

text \<open>
  C9. On canonical amounts the comparison operators decide the order of the numbers the amounts
  denote, and \<^verbatim>\<open>operator==\<close> decides their equality, whenever the amounts are comparable: both native
  or both issued in one currency. The two native currencies count as one, so an amount of XRP is
  compared with one of VBC by the numbers alone. All other pairs are unequal, and the four order
  operators refuse them with an exception.
\<close>

theorem amount_order_numeric:
  assumes "canonical a" "canonical b"
  shows "(iscomparable a b \<longleftrightarrow> misnative a \<and> misnative b \<or>
      \<not> misnative a \<and> \<not> misnative b \<and> currency (missue a) = currency (missue b)) \<and>
    (iscomparable a b \<longrightarrow>
      amt_less a b = Inr (amt_val a < amt_val b) \<and> amt_greater a b = Inr (amt_val b < amt_val a) \<and>
      amt_leq a b = Inr (amt_val a \<le> amt_val b) \<and> amt_geq a b = Inr (amt_val b \<le> amt_val a) \<and>
      (amt_eq a b \<longleftrightarrow> amt_val a = amt_val b) \<and> amt_neq a b = (\<not> amt_eq a b)) \<and>
    (\<not> iscomparable a b \<longrightarrow>
      amt_less a b = Inl (Runtime_error ''amounts are not comparable'') \<and>
      amt_greater a b = Inl (Runtime_error ''amounts are not comparable'') \<and>
      amt_leq a b = Inl (Runtime_error ''amounts are not comparable'') \<and>
      amt_geq a b = Inl (Runtime_error ''amounts are not comparable'') \<and>
      \<not> amt_eq a b \<and> amt_neq a b)"
proof (cases "iscomparable a b")
  case True
  note n = iscomparable_native [OF True]
  have eq: "amt_eq a b \<longleftrightarrow> amt_compare a b = 0"
  proof -
    have "amt_eq a b" if z: "amt_compare a b = 0"
    proof (cases "mvalue a = 0 \<and> mvalue b = 0")
      case zz: True
      then have "moffset a = moffset b"
        using assms n by (auto simp: canonical_def split: if_splits)
      then show ?thesis using zz True assms canonical_zero by (auto simp: amt_eq_def)
    next
      case False
      then show ?thesis using z True by (auto simp: amt_compare_def amt_eq_def split: if_splits)
    qed
    moreover have "amt_compare a b = 0" if "amt_eq a b"
      using that canonical_zero [OF assms(1)] by (auto simp: amt_compare_def amt_eq_def)
    ultimately show ?thesis by blast
  qed
  have "amt_less a b = Inr (amt_compare a b < 0)" "amt_greater a b = Inr (amt_compare a b > 0)"
    "amt_leq a b = Inr (amt_compare a b \<le> 0)" "amt_geq a b = Inr (amt_compare a b \<ge> 0)"
    using True by (simp_all add: amt_less_def amt_greater_def amt_leq_def amt_geq_def throwcomparable_def)
  moreover have "amt_neq a b = (\<not> amt_eq a b)" by (auto simp: amt_eq_def amt_neq_def)
  ultimately show ?thesis
    using True amt_compare_less [OF assms n] eq iscomparable_iff [of a b] by auto
next
  case False
  then show ?thesis
    by (intro conjI iscomparable_iff) (simp_all add: amt_less_def amt_greater_def amt_leq_def amt_geq_def throwcomparable_def amt_eq_def amt_neq_def)
qed

theorem amount_order_numeric_witness:
  "amt_less (mk_native_u64 False 3 True) (mk_native_u64 True 2 False) = Inr True \<and>
   amt_less (mk_native_u64 False 3 True) (mk_unchecked noissue 0 (- 100) False False) =
     Inl (Runtime_error ''amounts are not comparable'')"
proof -
  let ?a = "mk_native_u64 False 3 True" and ?b = "mk_native_u64 True 2 False"
    and ?c = "mk_unchecked noissue 0 (- 100) False False"
  have c: "canonical ?a" "canonical ?b" "canonical ?c"
    by (simp_all add: canonical_def amt_isnative_iff mk_native_u64_def mk_unchecked_def native_issue_def
        cmaxnativen_def xrpissue_def vbcissue_def noissue_def special_defs isnative_def isxrp_def isvbc_def)
  have "amt_val ?a < amt_val ?b" by (simp add: amt_val_def mk_native_u64_def mk_unchecked_def magnitude_def)
  moreover have "iscomparable ?a ?b" "\<not> iscomparable ?a ?c"
    by (simp_all add: iscomparable_def mk_native_u64_def mk_unchecked_def)
  ultimately show ?thesis
    using amount_order_numeric [OF c(1,2)] amount_order_numeric [OF c(1,3)] by simp
qed

end
