(* ===== verification/Amount_Sum.thy ===== *)
theory Amount_Sum
  imports Amount_Order
begin

text \<open>
  Addition and subtraction of amounts. Native amounts are added exactly. Other amounts are aligned to
  the larger exponent by truncating division, so a sum is exact up to a few units of the last place
  of the larger operand.
\<close>

section \<open>Native amounts\<close>

definition snval :: "stamount \<Rightarrow> int" where
  "snval a = (if misnegative a then - uint (mvalue a) else uint (mvalue a))"

lemma amt_val_native: "moffset a = 0 \<Longrightarrow> amt_val a = of_int (snval a)"
  by (simp add: amt_val_def magnitude_def snval_def)

lemma uint_le_unat: "unat (v :: u64) \<le> n \<Longrightarrow> uint v \<le> int n"
  by (metis of_nat_le_iff of_nat_unat)

lemma to_i64_mantissa:
  assumes "unat v < 2 ^ 63"
  shows "to_i64 (uint (v :: u64)) = uint v" "to_i64 (- uint v) = - uint v"
proof -
  have "uint v < 2 ^ 63" using assms by (metis of_nat_less_iff of_nat_unat of_nat_numeral of_nat_power)
  moreover have "0 \<le> uint v" by simp
  ultimately have "- (2 ^ 63) \<le> uint v" "uint v < 2 ^ 63" "- (2 ^ 63) \<le> - uint v" "- uint v < 2 ^ 63"
    by linarith+
  then show "to_i64 (uint v) = uint v" "to_i64 (- uint v) = - uint v"
    by (simp_all only: to_i64_id)
qed

lemma signed_mantissa_snval: "unat (mvalue a) < 2 ^ 63 \<Longrightarrow> signed_mantissa a = snval a"
  by (simp add: signed_mantissa_def snval_def to_i64_mantissa)

lemma getsnvalue_snval: "misnative a \<Longrightarrow> unat (mvalue a) < 2 ^ 63 \<Longrightarrow> getsnvalue a = Inr (snval a)"
  by (simp add: getsnvalue_def snval_def to_i64_mantissa)

lemma uint_u64_of_int: "0 \<le> x \<Longrightarrow> x < 2 ^ 64 \<Longrightarrow> uint (u64_of_int x) = x"
  by (simp add: u64_of_int_def uint_word_of_int)

lemma mk_native_i64_val:
  assumes "\<bar>x\<bar> < 2 ^ 63"
  shows "snval (mk_native_i64 vbc x) = x" "moffset (mk_native_i64 vbc x) = 0" "misnative (mk_native_i64 vbc x)"
    "missue (mk_native_i64 vbc x) = native_issue vbc"
  using assms
  by (auto simp: mk_native_i64_def amt_set_def mk_unchecked_def snval_def uint_u64_of_int)

lemma createfromint64_val:
  assumes "\<bar>x\<bar> < 2 ^ 63"
  shows "snval (createfromint64 vbc x) = x" "moffset (createfromint64 vbc x) = 0"
    "misnative (createfromint64 vbc x)" "missue (createfromint64 vbc x) = native_issue vbc"
  using assms
  by (auto simp: createfromint64_def mk_native_u64_def mk_unchecked_def snval_def uint_u64_of_int)

lemma canonical_native_bound:
  assumes "canonical a" "misnative a"
  shows "unat (mvalue a) < 2 ^ 63" "\<bar>snval a\<bar> \<le> 10 ^ 17" "moffset a = 0"
proof -
  have u: "unat (mvalue a) \<le> 10 ^ 17"
    using assms cmaxnativen_iff [of "mvalue a"] by (simp add: canonical_def not_less [symmetric] split: if_splits)
  then show "unat (mvalue a) < 2 ^ 63" by simp
  show "\<bar>snval a\<bar> \<le> 10 ^ 17" using uint_le_unat [OF u] by (simp add: snval_def)
  show "moffset a = 0" using assms by (rule canonical_native)
qed

lemma native_issue_currency:
  "isnative (currency (missue a)) \<Longrightarrow> currency (native_issue (amt_isvbc a)) = currency (missue a)"
  by (auto simp: amt_isvbc_def native_issue_def isnative_def isxrp_def isvbc_def xrpissue_def vbcissue_def xrpcurrency_def)

text \<open>
  C22. Native amounts are added and subtracted exactly: for two canonical native amounts the result of
  \<^verbatim>\<open>operator+\<close> and \<^verbatim>\<open>operator-\<close> denotes the exact sum or difference, and nothing overflows. The operands
  need not be of one currency: XRP and VBC count as comparable, and the result is native in the
  currency of the left operand.
\<close>

theorem native_sum_exact:
  assumes "canonical a" "canonical b" "misnative a" "misnative b"
  shows "\<exists>r d. amt_plus a b = Inr r \<and> amt_minus a b = Inr d \<and>
    amt_val r = amt_val a + amt_val b \<and> amt_val d = amt_val a - amt_val b \<and>
    misnative r \<and> misnative d \<and> moffset r = 0 \<and> moffset d = 0 \<and>
    currency (missue r) = currency (missue a) \<and> currency (missue d) = currency (missue a)"
proof -
  note A = canonical_native_bound [OF assms(1,3)] and B = canonical_native_bound [OF assms(2,4)]
  have cmp: "throwcomparable a b = Inr ()" using assms(3,4) by (simp add: throwcomparable_def iscomparable_def)
  have sa: "getsnvalue a = Inr (snval a)" and sb: "getsnvalue b = Inr (snval b)"
    using assms(3,4) A(1) B(1) by (simp_all add: getsnvalue_snval)
  have sm: "\<bar>snval a + snval b\<bar> < 2 ^ 63" "\<bar>snval a - snval b\<bar> < 2 ^ 63" using A(2) B(2) by auto
  then have ti: "to_i64 (snval a + snval b) = snval a + snval b" "to_i64 (snval a - snval b) = snval a - snval b"
    by (auto intro!: to_i64_id)
  have nc: "isnative (currency (missue a))" using assms(1,3) by (simp add: canonical_def amt_isnative_iff)
  note cur = native_issue_currency [OF nc]
  have plus: "\<exists>r. amt_plus a b = Inr r \<and> amt_val r = amt_val a + amt_val b \<and> misnative r \<and> moffset r = 0 \<and>
      currency (missue r) = currency (missue a)"
  proof (cases "mvalue a = 0 \<or> mvalue b = 0")
    case True
    let ?r = "\<lparr>missue = missue a, mvalue = mvalue b, moffset = 0, misnative = True, misnegative = misnegative b\<rparr>"
    have "canonical ?r" using assms(2,4) nc by (auto simp: canonical_def amt_isnative_iff split: if_splits)
    then have "mk_amount (missue a) (mvalue b) (moffset b) (misnegative b) = Inr ?r"
      using mk_amount_canonical [of "missue a" "mvalue b" 0 "misnegative b"] nc B(3) by simp
    then have "amt_plus a b = (if mvalue b = 0 then Inr a else Inr ?r)"
      using True cmp by (cases "mvalue b = 0") (simp_all add: amt_plus_def)
    moreover have "mvalue b = 0 \<Longrightarrow> amt_val b = 0" "mvalue b \<noteq> 0 \<Longrightarrow> amt_val a = 0"
      using True by (simp_all add: amt_val_def)
    moreover have "amt_val ?r = amt_val b" using B(3) by (simp add: amt_val_def)
    ultimately show ?thesis
      using assms(3) A(3) by (cases "mvalue b = 0") simp_all
  next
    case False
    then have "amt_plus a b = Inr (mk_native_i64 (amt_isvbc a) (snval a + snval b))"
      using cmp sa sb ti(1) assms(3) by (simp add: amt_plus_def)
    then show ?thesis
      using mk_native_i64_val [OF sm(1), of "amt_isvbc a"] A(3) B(3)
      by (simp add: amt_val_native cur)
  qed
  have minus: "\<exists>d. amt_minus a b = Inr d \<and> amt_val d = amt_val a - amt_val b \<and> misnative d \<and> moffset d = 0 \<and>
      currency (missue d) = currency (missue a)"
  proof (cases "mvalue b = 0")
    case True
    then show ?thesis using cmp assms(3) A(3) by (simp add: amt_minus_def amt_val_def)
  next
    case False
    then have "amt_minus a b = Inr (createfromint64 (amt_isvbc a) (snval a - snval b))"
      using cmp sa sb ti(2) assms(4) by (simp add: amt_minus_def)
    then show ?thesis
      using createfromint64_val [OF sm(2), of "amt_isvbc a"] A(3) B(3)
      by (simp add: amt_val_native cur)
  qed
  with plus show ?thesis by blast
qed

theorem native_sum_exact_witness:
  "\<exists>r d. amt_plus (mk_native_u64 False 5 True) (mk_native_u64 True 3 False) = Inr r \<and>
     amt_minus (mk_native_u64 False 5 True) (mk_native_u64 True 3 False) = Inr d \<and>
     amt_val r = - 2 \<and> amt_val d = - 8"
proof -
  let ?a = "mk_native_u64 False 5 True" and ?b = "mk_native_u64 True 3 False"
  have c: "canonical ?a" "canonical ?b"
    by (simp_all add: canonical_def amt_isnative_iff mk_native_u64_def mk_unchecked_def native_issue_def
        cmaxnativen_def xrpissue_def vbcissue_def special_defs isnative_def isxrp_def isvbc_def)
  have n: "misnative ?a" "misnative ?b" by (simp_all add: mk_native_u64_def mk_unchecked_def)
  have "amt_val ?a = - 5" "amt_val ?b = 3"
    by (simp_all add: amt_val_def magnitude_def mk_native_u64_def mk_unchecked_def)
  then show ?thesis using native_sum_exact [OF c n] by fastforce
qed

section \<open>Other amounts\<close>

lemma align_to_neg: "align_to t (- v) off = (- fst (align_to t v off), snd (align_to t v off))"
proof (induction t v off rule: align_to.induct)
  case (1 t v off)
  then show ?case
    by (cases "off < t") (simp_all add: align_to.simps [of t v off] align_to.simps [of t "- v" off] cdiv_neg)
qed

lemma align_to_nonneg: "0 \<le> v \<Longrightarrow> align_to t v off = (v div 10 ^ nat (t - off), max off t)"
proof (induction t v off rule: align_to.induct)
  case (1 t v off)
  show ?case
  proof (cases "off < t")
    case True
    then have "nat (t - off) = Suc (nat (t - (off + 1)))" by simp
    moreover have "cdiv v 10 = v div 10" "0 \<le> v div 10"
      using 1(2) by (simp_all add: cdiv_nonneg pos_imp_zdiv_nonneg_iff)
    ultimately show ?thesis
      using True 1(1) by (simp add: align_to.simps [of t v off] zdiv_zmult2_eq)
  next
    case False
    then show ?thesis by (simp add: align_to.simps [of t v off])
  qed
qed

lemma align_to_nonneg_bound:
  assumes "0 \<le> v" "align_to t v off = (v', off')"
  shows "off' = max off t \<and> 0 \<le> v' \<and> v' \<le> v \<and> of_int v' * p10 off' \<le> of_int v * p10 off \<and>
    of_int v * p10 off < of_int v' * p10 off' + p10 off'"
proof -
  define k where "k = nat (t - off)"
  have v': "v' = v div 10 ^ k" and off: "off' = max off t" "off' = off + int k"
    using assms align_to_nonneg [of v t off] by (auto simp: k_def)
  have p: "p10 off' = 10 ^ k * p10 off" by (simp add: off(2) p10_add p10_nat mult.commute)
  have "v' * 10 ^ k \<le> v" "v < (v' + 1) * 10 ^ k"
    using div_mult_mod_eq [of v "10 ^ k"] pos_mod_bound [of "10 ^ k" v] pos_mod_sign [of "10 ^ k" v]
      zero_less_power [of "10 :: int" k]
    unfolding v' distrib_right by linarith+
  then have "of_int (v' * 10 ^ k) \<le> (of_int v :: rat)" "(of_int v :: rat) < of_int ((v' + 1) * 10 ^ k)"
    by (simp_all only: of_int_le_iff of_int_less_iff)
  then have "of_int (v' * 10 ^ k) * p10 off \<le> of_int v * p10 off"
    "of_int v * p10 off < of_int ((v' + 1) * 10 ^ k) * p10 off"
    by (simp_all only: mult_right_mono mult_strict_right_mono p10_pos)
  moreover have "0 \<le> v'" using assms(1) by (simp add: v' pos_imp_zdiv_nonneg_iff)
  moreover from this have "v' \<le> v"
    using mult_left_mono [of 1 "10 ^ k" v'] \<open>v' * 10 ^ k \<le> v\<close> by simp
  ultimately have "0 \<le> v' \<and> v' \<le> v \<and> of_int v' * p10 off' \<le> of_int v * p10 off \<and>
      of_int v * p10 off < of_int v' * p10 off' + p10 off'"
    by (simp add: p algebra_simps)
  with off(1) show ?thesis by blast
qed

lemma align_to_spec:
  assumes "align_to t v off = (v', off')"
  shows "off' = max off t" "\<bar>v'\<bar> \<le> \<bar>v\<bar>" "\<bar>of_int v * p10 off - of_int v' * p10 off'\<bar> < p10 off'"
proof -
  have "off' = max off t \<and> \<bar>v'\<bar> \<le> \<bar>v\<bar> \<and> \<bar>of_int v * p10 off - of_int v' * p10 off'\<bar> < p10 off'"
  proof (cases "0 \<le> v")
    case True
    then show ?thesis using align_to_nonneg_bound [OF True assms] by auto
  next
    case False
    then have "0 \<le> - v" "align_to t (- v) off = (- v', off')" using align_to_neg [of t v off] assms by simp_all
    from align_to_nonneg_bound [OF this] show ?thesis using False by auto
  qed
  then show "off' = max off t" "\<bar>v'\<bar> \<le> \<bar>v\<bar>" "\<bar>of_int v * p10 off - of_int v' * p10 off'\<bar> < p10 off'" by auto
qed

lemma align_to_stop: "t \<le> off \<Longrightarrow> align_to t v off = (v, off)"
  by (simp add: align_to.simps [of t v off])

lemma amt_val_snval: "amt_val a = of_int (snval a) * p10 (moffset a)"
  by (simp add: amt_val_def magnitude_def snval_def)

lemma canonical_iou_snval:
  assumes "canonical a" "\<not> misnative a" "mvalue a \<noteq> 0"
  shows "\<bar>snval a\<bar> < 10 ^ 16" "10 ^ 15 \<le> \<bar>snval a\<bar>" "signed_mantissa a = snval a"
proof -
  note r = canonical_range [OF assms]
  have "int (unat (mvalue a)) < int (10 ^ 16)" "int (10 ^ 15) \<le> int (unat (mvalue a))"
    using r by (simp_all only: of_nat_less_iff of_nat_le_iff)
  then show "\<bar>snval a\<bar> < 10 ^ 16" "10 ^ 15 \<le> \<bar>snval a\<bar>" by (simp_all add: snval_def)
  show "signed_mantissa a = snval a" using r(2) by (intro signed_mantissa_snval) simp
qed

lemma plus_aligned:
  assumes "canonical a" "canonical b" "\<not> misnative a" "iscomparable a b" "mvalue a \<noteq> 0" "mvalue b \<noteq> 0"
  defines "m \<equiv> max (moffset a) (moffset b)"
  obtains fv where "amt_plus a b = finish_sum (missue a) fv m" "\<bar>fv\<bar> < 2 * 10 ^ 16"
    "\<bar>of_int fv * p10 m - (amt_val a + amt_val b)\<bar> < p10 m"
proof -
  have nb: "\<not> misnative b" using iscomparable_native [OF assms(4)] assms(3) by simp
  note A = canonical_iou_snval [OF assms(1,3,5)] and B = canonical_iou_snval [OF assms(2) nb assms(6)]
  obtain v1 o1 where a1: "align_to (moffset b) (snval a) (moffset a) = (v1, o1)" by fastforce
  obtain v2 o2 where a2: "align_to o1 (snval b) (moffset b) = (v2, o2)" by fastforce
  have o1: "o1 = m" using align_to_spec(1) [OF a1] by (simp add: m_def)
  have o2: "o2 = m" using align_to_spec(1) [OF a2] by (simp add: m_def o1)
  have bd: "\<bar>v1 + v2\<bar> < 2 * 10 ^ 16"
    using align_to_spec(2) [OF a1] align_to_spec(2) [OF a2] A(1) B(1) by linarith
  then have t: "to_i64 (v1 + v2) = v1 + v2" by (intro to_i64_id) auto
  have "amt_plus a b = finish_sum (missue a) (v1 + v2) m"
    using assms(3-6) nb A(3) B(3) a1 a2 t by (simp add: amt_plus_def throwcomparable_def o1)
  moreover have "\<bar>of_int (v1 + v2) * p10 m - (amt_val a + amt_val b)\<bar> < p10 m"
  proof (cases "moffset a \<le> moffset b")
    case True
    then have "v2 = snval b" "moffset b = m" using a2 o1 align_to_stop by (auto simp: m_def)
    then show ?thesis using align_to_spec(3) [OF a1] by (simp add: o1 amt_val_snval distrib_right)
  next
    case False
    then have "v1 = snval a" "moffset a = m" using a1 align_to_stop by (auto simp: m_def)
    then show ?thesis using align_to_spec(3) [OF a2] by (simp add: o2 amt_val_snval distrib_right)
  qed
  ultimately show thesis using bd that by blast
qed

lemma finish_sum_bound:
  assumes "\<bar>fv\<bar> < 2 * 10 ^ 16" "\<not> isnative (currency iss)"
  shows "finish_sum iss fv m = Inr r \<Longrightarrow> missue r = iss \<and> \<not> misnative r \<and>
      (canonical r \<or> mvalue r = 0) \<and>
      (\<bar>amt_val r - of_int fv * p10 m\<bar> \<le> 10 * p10 m \<or> mvalue r = 0 \<and> \<bar>of_int fv * p10 m\<bar> < p10 (- 81))"
    and "finish_sum iss fv m = Inl e \<Longrightarrow> p10 96 \<le> \<bar>of_int fv * p10 m\<bar>"
proof -
  define a where "a = mk_unchecked iss (u64_of_int \<bar>fv\<bar>) m False (fv < 0)"
  let ?x = "magnitude (mvalue a) (moffset a)"
  have ub: "uint (u64_of_int \<bar>fv\<bar>) = \<bar>fv\<bar>" using assms(1) by (intro uint_u64_of_int) auto
  then have "int (unat (u64_of_int \<bar>fv\<bar>)) = \<bar>fv\<bar>" by simp
  then have "(of_nat (unat (u64_of_int \<bar>fv\<bar>)) :: rat) = of_int \<bar>fv\<bar>" by (metis of_int_of_nat_eq)
  then have x: "?x = of_int \<bar>fv\<bar> * p10 m" by (simp add: a_def mk_unchecked_def magnitude_def)
  have ni: "\<not> amt_isnative a" using assms(2) by (simp add: a_def mk_unchecked_def amt_isnative_iff)
  have *: "(\<forall>r. finish_sum iss fv m = Inr r \<longrightarrow> missue r = iss \<and> \<not> misnative r \<and> (canonical r \<or> mvalue r = 0) \<and>
      (\<bar>amt_val r - of_int fv * p10 m\<bar> \<le> 10 * p10 m \<or> mvalue r = 0 \<and> \<bar>of_int fv * p10 m\<bar> < p10 (- 81))) \<and>
    (\<forall>e. finish_sum iss fv m = Inl e \<longrightarrow> p10 96 \<le> \<bar>of_int fv * p10 m\<bar>)"
  proof (cases "- 10 \<le> fv \<and> fv \<le> 10")
    case True
    then have "\<bar>of_int fv\<bar> * p10 m \<le> 10 * p10 m" by (intro mult_right_mono) auto
    then show ?thesis
      using True assms(2) by (auto simp: finish_sum_def mk_zero_iou amt_val_def abs_mult canonical_def amt_isnative_iff)
  next
    case False
    then have f: "finish_sum iss fv m = canonicalize a"
      by (auto simp: finish_sum_def mk_amount_def a_def)
    have nz: "mvalue a \<noteq> 0"
    proof
      assume "mvalue a = 0"
      then have "uint (u64_of_int \<bar>fv\<bar>) = 0" by (simp add: a_def mk_unchecked_def)
      with ub False show False by simp
    qed
    have c: "canonicalize a = canonicalize_iou a" using ni by (simp add: canonicalize_def)
    from nz show ?thesis
    proof (cases rule: canonicalize_iou_cases)
      case overflow
      then show ?thesis by (simp add: f c x abs_mult)
    next
      case underflow
      then show ?thesis by (simp add: f c x abs_mult) (simp add: a_def mk_unchecked_def)
    next
      case (normal v e)
      then have t: "10 ^ 15 \<le> unat v" "magnitude v e \<le> ?x" "?x < magnitude v e + p10 e"
        by (auto simp: truncated16_def magnitude_def distrib_right)
      have "p10 (int 15 + e) \<le> ?x" using magnitude_ge [OF t(1), of e e] t(2) by simp
      also have "?x < 10 ^ 17 * p10 m" unfolding x
        using assms(1) by (intro mult_strict_right_mono) auto
      also have "\<dots> = p10 (int 17 + m)" by (simp only: p10_add p10_nat)
      finally have "\<not> 2 + m \<le> e" using p10_mono [of "int 17 + m" "int 15 + e"] by auto
      then have "p10 e \<le> 10 * p10 m" using p10_mono [of e "1 + m"] by (simp add: p10_add) (simp add: p10_def)
      then have "\<bar>?x - magnitude v e\<bar> \<le> 10 * p10 m" using t by auto
      moreover have "canonical (a\<lparr>misnative := False, mvalue := v, moffset := e\<rparr>)"
        using normal(1) ni
        by (auto simp: canonical_def truncated16_def amt_isnative_iff cmin_iff cmax_iff cminoffset_def
            cmaxoffset_def simp flip: not_less)
      moreover have "amt_val (a\<lparr>misnative := False, mvalue := v, moffset := e\<rparr>) =
          (if fv < 0 then - magnitude v e else magnitude v e)"
        "missue (a\<lparr>misnative := False, mvalue := v, moffset := e\<rparr>) = iss"
        by (simp_all add: amt_val_def a_def mk_unchecked_def)
      ultimately show ?thesis
        unfolding f c normal(4) x by (cases "fv < 0") (auto simp: abs_le_iff)
    qed
  qed
  show "finish_sum iss fv m = Inr r \<Longrightarrow> missue r = iss \<and> \<not> misnative r \<and> (canonical r \<or> mvalue r = 0) \<and>
      (\<bar>amt_val r - of_int fv * p10 m\<bar> \<le> 10 * p10 m \<or> mvalue r = 0 \<and> \<bar>of_int fv * p10 m\<bar> < p10 (- 81))"
    "finish_sum iss fv m = Inl e \<Longrightarrow> p10 96 \<le> \<bar>of_int fv * p10 m\<bar>"
    using * by blast+
qed

lemma canonical_uminus:
  "canonical b \<Longrightarrow> canonical (amt_uminus b)" "amt_val (amt_uminus b) = - amt_val b"
  "missue (amt_uminus b) = missue b" "misnative (amt_uminus b) = misnative b" "mvalue (amt_uminus b) = mvalue b"
  "moffset (amt_uminus b) = moffset b" "iscomparable a (amt_uminus b) = iscomparable a b"
  by (auto simp: canonical_def amt_uminus_def mk_unchecked_def amt_isnative_iff amt_val_def iscomparable_def)

lemma minus_is_plus_uminus:
  assumes "canonical a" "canonical b" "\<not> misnative a" "iscomparable a b"
  shows "amt_minus a b = amt_plus a (amt_uminus b)"
proof (cases "mvalue b = 0")
  case True
  then show ?thesis
    using canonical_uminus(5,7) by (simp add: amt_minus_def amt_plus_def throwcomparable_def)
next
  case False
  have nb: "\<not> misnative b" using iscomparable_native [OF assms(4)] assms(3) by simp
  note B = canonical_iou_snval [OF assms(2) nb False]
  have sm: "signed_mantissa (amt_uminus b) = - snval b"
    using canonical_iou_snval(3) [of "amt_uminus b"] canonical_uminus [of b] assms(2) nb False
    by (simp add: snval_def amt_uminus_def mk_unchecked_def)
  show ?thesis
  proof (cases "mvalue a = 0")
    case za: True
    have oa: "moffset a = - 100" "\<not> misnegative a" using canonical_iou(2) [OF assms(1,3) za] by simp_all
    have ob: "- 96 \<le> moffset b" using canonical_iou(3) [OF assms(2) nb False] by simp
    have a1: "align_to (moffset b) (signed_mantissa a) (moffset a) = (0, moffset b)"
      using align_to_nonneg [of 0 "moffset b" "- 100"] oa ob za by (simp add: signed_mantissa_def to_i64_def)
    have "to_i64 (0 - snval b) = - snval b" using B(1) by (intro trans [OF to_i64_id]) auto
    then have m: "amt_minus a b = finish_sum (missue a) (- snval b) (moffset b)"
      using assms(3,4) nb False a1 B(3) by (simp add: amt_minus_def throwcomparable_def align_to_stop)
    have "u64_of_int (uint (mvalue b)) = mvalue b" by (simp add: u64_of_int_def)
    then have "finish_sum (missue a) (- snval b) (moffset b) =
        mk_amount (missue a) (mvalue b) (moffset b) (\<not> misnegative b)"
      using B(2) by (auto simp: finish_sum_def snval_def)
    moreover have "misnegative (amt_uminus b) = (\<not> misnegative b)"
      using False by (simp add: amt_uminus_def mk_unchecked_def)
    ultimately show ?thesis
      using m za False canonical_uminus(1-6) [of b] canonical_uminus(7) [of a b] assms(4) by (simp add: amt_plus_def throwcomparable_def)
  next
    case nz: False
    show ?thesis
      using assms(3,4) nb False nz B(3) sm canonical_uminus(1-6) [of b] canonical_uminus(7) [of a b] align_to_neg
      by (simp add: amt_minus_def amt_plus_def throwcomparable_def case_prod_beta)
  qed
qed

text \<open>
  C21. The sum of two canonical amounts that are not native is accurate to eleven units in the last
  place of the operand with the larger exponent: if \<^verbatim>\<open>operator+\<close> returns, the result denotes the exact
  sum up to \<open>11 * 10^max\<close> or is the zero of an underflow, and it throws only when the exact sum is
  within one unit of \<open>10^96\<close> or above. \<^verbatim>\<open>operator-\<close> is addition of the negated amount.
\<close>

theorem iou_sum_error_bound:
  assumes "canonical a" "canonical b" "\<not> misnative a" "iscomparable a b" "mvalue a \<noteq> 0" "mvalue b \<noteq> 0"
    and "u = p10 (max (moffset a) (moffset b))"
  shows "(\<forall>r. amt_plus a b = Inr r \<longrightarrow>
      missue r = missue a \<and> (canonical r \<or> mvalue r = 0) \<and>
      (\<bar>amt_val r - (amt_val a + amt_val b)\<bar> < 11 * u \<or>
       mvalue r = 0 \<and> \<bar>amt_val a + amt_val b\<bar> < p10 (- 81) + u)) \<and>
    (\<forall>e. amt_plus a b = Inl e \<longrightarrow> p10 96 - u < \<bar>amt_val a + amt_val b\<bar>) \<and>
    amt_minus a b = amt_plus a (amt_uminus b)"
proof -
  obtain fv where fv: "amt_plus a b = finish_sum (missue a) fv (max (moffset a) (moffset b))"
    "\<bar>fv\<bar> < 2 * 10 ^ 16" "\<bar>of_int fv * u - (amt_val a + amt_val b)\<bar> < u"
    using plus_aligned [OF assms(1-6)] unfolding assms(7) by blast
  have ni: "\<not> isnative (currency (missue a))" by (rule canonical_iou(1) [OF assms(1,3)])
  note fb = finish_sum_bound [OF fv(2) ni, of "max (moffset a) (moffset b)", folded assms(7) fv(1)]
  have "missue r = missue a \<and> (canonical r \<or> mvalue r = 0) \<and>
      (\<bar>amt_val r - (amt_val a + amt_val b)\<bar> < 11 * u \<or>
       mvalue r = 0 \<and> \<bar>amt_val a + amt_val b\<bar> < p10 (- 81) + u)" if "amt_plus a b = Inr r" for r
    using fb(1) [OF that] fv(3) by linarith
  moreover have "p10 96 - u < \<bar>amt_val a + amt_val b\<bar>" if "amt_plus a b = Inl e" for e
    using fb(2) [OF that] fv(3) by linarith
  ultimately show ?thesis using minus_is_plus_uminus [OF assms(1-4)] by blast
qed

definition iou_example :: "u64 \<Rightarrow> stamount" where
  "iou_example m = mk_unchecked \<lparr>currency = 5, account = 7\<rparr> m (- 15) False False"

lemma iou_example_simps:
  "moffset (iou_example m) = - 15" "mvalue (iou_example m) = m" "\<not> misnative (iou_example m)"
  "missue (iou_example m) = \<lparr>currency = 5, account = 7\<rparr>" "\<not> misnegative (iou_example m)"
  "cminvalue \<le> m \<Longrightarrow> m \<le> cmaxvalue \<Longrightarrow> canonical (iou_example m)"
  by (auto simp: iou_example_def mk_unchecked_def canonical_def amt_isnative_iff isnative_def isxrp_def
      isvbc_def vbccurrency_def cminoffset_def cmaxoffset_def cminvalue_def)

theorem iou_sum_error_bound_witness:
  "amt_plus (iou_example 1000000000000000) (iou_example 2000000000000000) = Inr (iou_example 3000000000000000) \<and>
   \<bar>amt_val (iou_example 3000000000000000) -
     (amt_val (iou_example 1000000000000000) + amt_val (iou_example 2000000000000000))\<bar> < 11 * p10 (- 15)"
proof -
  let ?a = "iou_example 1000000000000000" and ?b = "iou_example 2000000000000000"
    and ?r = "iou_example 3000000000000000"
  have c: "canonical ?a" "canonical ?b" "canonical ?r"
    by (simp_all add: iou_example_simps cminvalue_def cmaxvalue_def)
  have "mk_amount \<lparr>currency = 5, account = 7\<rparr> 3000000000000000 (- 15) False = Inr ?r"
    using canonicalize_canonical [OF c(3)] by (simp add: mk_amount_def iou_example_def)
  then have r: "amt_plus ?a ?b = Inr ?r"
    by (simp add: amt_plus_def throwcomparable_def iscomparable_def iou_example_simps align_to_stop
        signed_mantissa_def to_i64_def finish_sum_def u64_of_int_def)
  show ?thesis
    using iou_sum_error_bound [OF c(1,2), of "p10 (- 15)"] r by (simp add: iou_example_simps iscomparable_def)
qed

text \<open>
  An amount minus itself is the canonical zero of its issue.
\<close>

theorem iou_minus_self:
  assumes "canonical a" "\<not> misnative a" "mvalue a \<noteq> 0"
  shows "\<exists>z. amt_minus a a = Inr z \<and> canonical z \<and> mvalue z = 0 \<and> missue z = missue a"
proof -
  have "amt_minus a a = mk_zero (missue a)"
    using assms canonical_iou_snval [OF assms]
    by (simp add: amt_minus_def throwcomparable_def iscomparable_def align_to_stop finish_sum_def to_i64_def)
  then show ?thesis
    using canonical_iou(1) [OF assms(1,2)] by (simp add: mk_zero_iou canonical_def amt_isnative_iff)
qed

theorem iou_minus_self_witness:
  "\<exists>z. amt_minus (iou_example 1234567890123456) (iou_example 1234567890123456) = Inr z \<and> mvalue z = 0"
  using iou_minus_self [of "iou_example 1234567890123456"]
  by (auto simp: iou_example_simps cminvalue_def cmaxvalue_def)

end
