(* ===== verification/Amount_Arith.thy ===== *)
theory Amount_Arith
  imports Amount_Sum
begin

text \<open>
  Multiplication, division and rounding of amounts, exchange rates and qualities:
  \<^verbatim>\<open>src/ripple/protocol/impl/STAmount.cpp\<close>.

  The code computes \<open>m1 * m2 / 10^14\<close> and \<open>m1 * 10^17 / m2\<close> with OpenSSL big numbers. That library is
  the parameter \<open>lib\<close>; \<open>bn_spec\<close> states its documented behaviour (exact arithmetic on natural
  numbers, \<^verbatim>\<open>BN_get_word\<close> is all ones when the number does not fit), \<open>nat_bn\<close> is an instance on
  which the witnesses run.
\<close>

section \<open>The big number library\<close>

record 'b bn_lib =
  bn_new :: 'b
  bn_add_word :: "'b \<Rightarrow> u64 \<Rightarrow> 'b option"
  bn_mul_word :: "'b \<Rightarrow> u64 \<Rightarrow> 'b option"
  bn_div_word :: "'b \<Rightarrow> u64 \<Rightarrow> 'b option"
  bn_get_word :: "'b \<Rightarrow> u64"
  bn_num_bytes :: "'b \<Rightarrow> nat"

definition bn_spec :: "'b bn_lib \<Rightarrow> ('b \<Rightarrow> nat) \<Rightarrow> bool" where
  "bn_spec lib val \<longleftrightarrow>
     val (bn_new lib) = 0 \<and>
     (\<forall>b w. \<exists>b'. bn_add_word lib b w = Some b' \<and> val b' = val b + unat w) \<and>
     (\<forall>b w. \<exists>b'. bn_mul_word lib b w = Some b' \<and> val b' = val b * unat w) \<and>
     (\<forall>b w. w \<noteq> 0 \<longrightarrow> (\<exists>b'. bn_div_word lib b w = Some b' \<and> val b' = val b div unat w)) \<and>
     (\<forall>b. bn_get_word lib b = (if val b < 2 ^ 64 then of_nat (val b) else - 1)) \<and>
     (\<forall>b n. bn_num_bytes lib b \<le> n \<longleftrightarrow> val b < 256 ^ n)"

fun bytes_of :: "nat \<Rightarrow> nat" where
  "bytes_of n = (if n = 0 then 0 else Suc (bytes_of (n div 256)))"

declare bytes_of.simps [simp del]

definition nat_bn :: "nat bn_lib" where
  "nat_bn =
     \<lparr>bn_new = 0, bn_add_word = \<lambda>b w. Some (b + unat w), bn_mul_word = \<lambda>b w. Some (b * unat w),
      bn_div_word = \<lambda>b w. if w = 0 then None else Some (b div unat w),
      bn_get_word = \<lambda>b. if b < 2 ^ 64 then of_nat b else - 1, bn_num_bytes = bytes_of\<rparr>"

section \<open>Multiplication and division\<close>

definition tento14 :: u64 where "tento14 = 100000000000000"
definition tento14m1 :: u64 where "tento14m1 = tento14 - 1"
definition tento17 :: u64 where "tento17 = tento14 * 1000"

text \<open>\<^verbatim>\<open>while (v < cMinValue) { v *= 10; --off; }\<close>, which does not end at zero\<close>

partial_function (option) bring_into_range :: "u64 \<Rightarrow> int \<Rightarrow> (u64 \<times> int) option" where
  "bring_into_range v off =
     (if v < cminvalue then bring_into_range (v * 10) (off - 1) else Some (v, off))"

definition operand :: "stamount \<Rightarrow> (u64 \<times> int) res" where
  "operand a =
     (if misnative a
      then (case bring_into_range (mvalue a) (moffset a) of None \<Rightarrow> Inl Diverges | Some r \<Rightarrow> Inr r)
      else Inr (mvalue a, moffset a))"

definition bn_check :: "'b bn_lib \<Rightarrow> 'b option \<Rightarrow> 'b res" where
  "bn_check lib r = (case r of None \<Rightarrow> Inl (Runtime_error ''internal bn error'') | Some v \<Rightarrow> Inr v)"

definition bn_result :: "'b bn_lib \<Rightarrow> 'b \<Rightarrow> u64 res" where
  "bn_result lib v = (if bn_num_bytes lib v \<le> 64 then Inr (bn_get_word lib v) else Inl Assertion_failed)"

definition divide :: "'b bn_lib \<Rightarrow> stamount \<Rightarrow> stamount \<Rightarrow> issue \<Rightarrow> stamount res" where
  "divide lib num den iss =
     (if amt_is_zero den then Inl (Runtime_error ''division by zero'')
      else if amt_is_zero num then mk_zero iss
      else
        rbind (operand num) (\<lambda>(numval, numoffset).
        rbind (operand den) (\<lambda>(denval, denoffset).
        rbind (bn_check lib (bn_add_word lib (bn_new lib) numval)) (\<lambda>v1.
        rbind (bn_check lib (bn_mul_word lib v1 tento17)) (\<lambda>v2.
        rbind (bn_check lib (bn_div_word lib v2 denval)) (\<lambda>v3.
        rbind (bn_result lib v3) (\<lambda>q.
          mk_amount iss (q + 5) (numoffset - denoffset - 17) (misnegative num \<noteq> misnegative den))))))))"

definition u64_min_max :: "int \<Rightarrow> int \<Rightarrow> u64 \<times> u64" where
  "u64_min_max x y = (if x < y then (u64_of_int x, u64_of_int y) else (u64_of_int y, u64_of_int x))"

definition native_product :: "stamount \<Rightarrow> stamount \<Rightarrow> stamount res" where
  "native_product v1 v2 =
     rbind (getsnvalue v1) (\<lambda>x1. rbind (getsnvalue v2) (\<lambda>x2.
       let (minv, maxv) = u64_min_max x1 x2
       in if minv > 3000000000 then Inl (Runtime_error ''native value overflow'')
          else if drop_bit 32 maxv * minv > 2095475792 then Inl (Runtime_error ''native value overflow'')
          else Inr (mk_native_u64 (amt_isvbc v1) (minv * maxv) False)))"

definition multiply :: "'b bn_lib \<Rightarrow> stamount \<Rightarrow> stamount \<Rightarrow> issue \<Rightarrow> stamount res" where
  "multiply lib v1 v2 iss =
     (if amt_is_zero v1 \<or> amt_is_zero v2 then mk_zero iss
      else if misnative v1 \<and> misnative v2 \<and> isnative (currency iss) then native_product v1 v2
      else
        rbind (operand v1) (\<lambda>(value1, offset1).
        rbind (operand v2) (\<lambda>(value2, offset2).
        rbind (bn_check lib (bn_add_word lib (bn_new lib) value1)) (\<lambda>b1.
        rbind (bn_check lib (bn_mul_word lib b1 value2)) (\<lambda>b2.
        rbind (bn_check lib (bn_div_word lib b2 tento14)) (\<lambda>b3.
        rbind (bn_result lib b3) (\<lambda>q.
          mk_amount iss (q + 7) (offset1 + offset2 + 14) (misnegative v1 \<noteq> misnegative v2))))))))"

section \<open>Rounding in a given direction\<close>

text \<open>\<^verbatim>\<open>while (offset < -1) { value /= 10; ++offset; ++loops; }\<close>\<close>

function native_round_loop :: "u64 \<Rightarrow> int \<Rightarrow> nat \<Rightarrow> u64 \<times> int \<times> nat" where
  "native_round_loop v off loops =
     (if off < - 1 then native_round_loop (v div 10) (off + 1) (loops + 1) else (v, off, loops))"
  by auto
termination by (relation "measure (\<lambda>(v, off, loops). nat (- off))") auto

text \<open>\<^verbatim>\<open>while (value > 10 * cMaxValue) { value /= 10; ++offset; }\<close>\<close>

function shrink_loop :: "u64 \<Rightarrow> int \<Rightarrow> u64 \<times> int" where
  "shrink_loop v off = (if v > 10 * cmaxvalue then shrink_loop (v div 10) (off + 1) else (v, off))"
  by auto
termination by (relation "measure (\<lambda>(v, off). unat v)") (auto intro: word_div_less_self)

declare native_round_loop.simps [simp del] shrink_loop.simps [simp del]

definition canonicalizeround :: "bool \<Rightarrow> u64 \<Rightarrow> int \<Rightarrow> bool \<Rightarrow> u64 \<times> int" where
  "canonicalizeround native val offset roundup =
     (if \<not> roundup then (val, offset)
      else if native then
        if offset < 0 then
          let (v, off, loops) = native_round_loop val offset 0
          in ((v + (if loops \<ge> 2 then 9 else 10)) div 10, off + 1)
        else (val, offset)
      else if val > cmaxvalue then
        let (v, off) = shrink_loop val offset in ((v + 9) div 10, off + 1)
      else (val, offset))"

definition align_round :: "int \<Rightarrow> int \<Rightarrow> int \<Rightarrow> bool \<Rightarrow> int \<times> int" where
  "align_round target v off roundup =
     (if off < target then
        let (v1, off1) = align_to (target - 1) v off;
            v2 = (if roundup then to_i64 (v1 + 9) else v1)
        in (cdiv v2 10, off1 + 1)
      else (v, off))"

definition finish_round :: "issue \<Rightarrow> int \<Rightarrow> int \<Rightarrow> bool \<Rightarrow> stamount res" where
  "finish_round iss fv ov roundup =
     (if - 10 \<le> fv \<and> fv \<le> 10 then mk_zero iss
      else if fv \<ge> 0 then
        let (v, off) = canonicalizeround False (u64_of_int fv) ov roundup in mk_amount iss v off False
      else
        let (v, off) = canonicalizeround False (u64_of_int (- fv)) ov (\<not> roundup)
        in mk_amount iss v off True)"

definition addround :: "stamount \<Rightarrow> stamount \<Rightarrow> bool \<Rightarrow> stamount res" where
  "addround v1 v2 roundup =
     rbind (throwcomparable v1 v2) (\<lambda>_.
       if mvalue v2 = 0 then Inr v1
       else if mvalue v1 = 0 then mk_amount (missue v1) (mvalue v2) (moffset v2) (misnegative v2)
       else if misnative v1 then
         rbind (getsnvalue v1) (\<lambda>x1. rbind (getsnvalue v2) (\<lambda>x2.
           Inr (mk_native_i64 (amt_isvbc v1) (to_i64 (x1 + x2)))))
       else
         let (vv1, ov1) = align_round (moffset v2) (signed_mantissa v1) (moffset v1) roundup;
             (vv2, ov2) = align_round ov1 (signed_mantissa v2) (moffset v2) roundup
         in finish_round (missue v1) (to_i64 (vv1 + vv2)) ov1 roundup)"

definition subround :: "stamount \<Rightarrow> stamount \<Rightarrow> bool \<Rightarrow> stamount res" where
  "subround v1 v2 roundup =
     rbind (throwcomparable v1 v2) (\<lambda>_.
       if mvalue v2 = 0 then Inr v1
       else if mvalue v1 = 0 then mk_amount (missue v1) (mvalue v2) (moffset v2) (\<not> misnegative v2)
       else if misnative v1 then
         rbind (getsnvalue v1) (\<lambda>x1. rbind (getsnvalue v2) (\<lambda>x2.
           Inr (mk_native_i64 (amt_isvbc v1) (to_i64 (x1 - x2)))))
       else
         let neg2 = (if misnegative v2 then to_i64 (uint (mvalue v2))
                     else to_i64 (- to_i64 (uint (mvalue v2))));
             (vv1, ov1) = align_round (moffset v2) (signed_mantissa v1) (moffset v1) roundup;
             (vv2, ov2) = align_round ov1 neg2 (moffset v2) roundup
         in finish_round (missue v1) (to_i64 (vv1 + vv2)) ov1 roundup)"

text \<open>The result of the second addition is not checked by the code.\<close>

definition bn_add_unchecked :: "'b bn_lib \<Rightarrow> 'b \<Rightarrow> u64 \<Rightarrow> 'b" where
  "bn_add_unchecked lib b w = (case bn_add_word lib b w of None \<Rightarrow> b | Some b' \<Rightarrow> b')"

definition mulround :: "'b bn_lib \<Rightarrow> stamount \<Rightarrow> stamount \<Rightarrow> issue \<Rightarrow> bool \<Rightarrow> stamount res" where
  "mulround lib v1 v2 iss roundup =
     (if amt_is_zero v1 \<or> amt_is_zero v2 then mk_zero iss
      else if misnative v1 \<and> misnative v2 \<and> isnative (currency iss) then native_product v1 v2
      else
        let resultnegative = (misnegative v1 \<noteq> misnegative v2)
        in rbind (operand v1) (\<lambda>(value1, offset1).
           rbind (operand v2) (\<lambda>(value2, offset2).
           rbind (bn_check lib (bn_add_word lib (bn_new lib) value1)) (\<lambda>b1.
           rbind (bn_check lib (bn_mul_word lib b1 value2)) (\<lambda>b2.
           rbind (bn_check lib (bn_div_word lib
               (if resultnegative \<noteq> roundup then bn_add_unchecked lib b2 tento14m1 else b2) tento14)) (\<lambda>b3.
           rbind (bn_result lib b3) (\<lambda>amount0.
             let (amount, offset) = canonicalizeround (isnative (currency iss)) amount0
                   (offset1 + offset2 + 14) (resultnegative \<noteq> roundup)
             in mk_amount iss amount offset resultnegative)))))))"

definition divround :: "'b bn_lib \<Rightarrow> stamount \<Rightarrow> stamount \<Rightarrow> issue \<Rightarrow> bool \<Rightarrow> stamount res" where
  "divround lib num den iss roundup =
     (if amt_is_zero den then Inl (Runtime_error ''division by zero'')
      else if amt_is_zero num then mk_zero iss
      else
        let resultnegative = (misnegative num \<noteq> misnegative den)
        in rbind (operand num) (\<lambda>(numval, numoffset).
           rbind (operand den) (\<lambda>(denval, denoffset).
           rbind (bn_check lib (bn_add_word lib (bn_new lib) numval)) (\<lambda>b1.
           rbind (bn_check lib (bn_mul_word lib b1 tento17)) (\<lambda>b2.
           rbind (bn_check lib (bn_div_word lib
               (if resultnegative \<noteq> roundup then bn_add_unchecked lib b2 (denval - 1) else b2) denval)) (\<lambda>b3.
           rbind (bn_result lib b3) (\<lambda>amount0.
             let (amount, offset) = canonicalizeround (isnative (currency iss)) amount0
                   (numoffset - denoffset - 17) (resultnegative \<noteq> roundup)
             in mk_amount iss amount offset resultnegative)))))))"

section \<open>Rates and qualities\<close>

definition getrate :: "'b bn_lib \<Rightarrow> stamount \<Rightarrow> stamount \<Rightarrow> u64 res" where
  "getrate lib offerout offerin =
     (if amt_is_zero offerout then Inr 0
      else
        case divide lib offerin offerout noissue of
          Inr r \<Rightarrow>
            if amt_is_zero r then Inr 0
            else if \<not> (moffset r \<ge> - 100 \<and> moffset r \<le> 155) then Inl Assertion_failed
            else Inr (push_bit (64 - 8) (u64_of_int (moffset r + 100)) OR mvalue r)
        | Inl (Runtime_error msg) \<Rightarrow> Inr 0
        | Inl (Overflow_error msg) \<Rightarrow> Inr 0
        | Inl e \<Rightarrow> Inl e)"

definition amountfromrate :: "u64 \<Rightarrow> stamount res" where
  "amountfromrate urate = mk_amount noissue urate (- 9) False"

definition amountfromquality :: "u64 \<Rightarrow> stamount res" where
  "amountfromquality rate =
     (if rate = 0 then mk_zero noissue
      else mk_amount noissue (rate AND NOT (push_bit (64 - 8) 255))
             (uint (drop_bit (64 - 8) rate) - 100) False)"

end
