(* ===== verification/Amount_Accuracy.thy ===== *)
theory Amount_Accuracy
  imports Amount_Arith
begin

text \<open>
  Accuracy of multiplication and division of amounts (theory \<^verbatim>\<open>Amount_Arith\<close>): the intermediate big
  number fits 64 bits, the constants 5 and 7 the code adds keep the truncated result within one unit
  in the last place of the exact one, and the guard of the native product excludes wrap-around.
\<close>

section \<open>The library parameter\<close>

lemma bytes_of_le: "bytes_of b \<le> n \<longleftrightarrow> b < 256 ^ n"
proof (induction n arbitrary: b)
  case 0
  then show ?case by (simp add: bytes_of.simps [of b])
next
  case (Suc n)
  show ?case
  proof (cases "b = 0")
    case True
    then show ?thesis by (simp add: bytes_of.simps [of 0])
  next
    case False
    then have "bytes_of b \<le> Suc n \<longleftrightarrow> b div 256 < 256 ^ n"
      by (simp add: bytes_of.simps [of b] Suc.IH)
    then show ?thesis by (simp add: div_less_iff_less_mult mult.commute)
  qed
qed

lemma bn_spec_nat: "bn_spec nat_bn id"
  by (simp add: bn_spec_def nat_bn_def bytes_of_le)

lemma bn_muldiv:
  assumes "bn_spec lib val" "w3 \<noteq> 0" "unat w1 * unat w2 div unat w3 < 2 ^ 64"
  shows "rbind (bn_check lib (bn_add_word lib (bn_new lib) w1)) (\<lambda>b1.
      rbind (bn_check lib (bn_mul_word lib b1 w2)) (\<lambda>b2.
      rbind (bn_check lib (bn_div_word lib b2 w3)) (\<lambda>b3.
      rbind (bn_result lib b3) f))) = f (of_nat (unat w1 * unat w2 div unat w3))"
proof -
  have sp: "val (bn_new lib) = 0"
    "\<And>b w. \<exists>b'. bn_add_word lib b w = Some b' \<and> val b' = val b + unat w"
    "\<And>b w. \<exists>b'. bn_mul_word lib b w = Some b' \<and> val b' = val b * unat w"
    "\<And>b w. w \<noteq> 0 \<Longrightarrow> \<exists>b'. bn_div_word lib b w = Some b' \<and> val b' = val b div unat w"
    "\<And>b. bn_get_word lib b = (if val b < 2 ^ 64 then of_nat (val b) else - 1)"
    "\<And>b n. bn_num_bytes lib b \<le> n \<longleftrightarrow> val b < 256 ^ n"
    using assms(1) unfolding bn_spec_def by blast+
  obtain b1 where b1: "bn_add_word lib (bn_new lib) w1 = Some b1" "val b1 = unat w1" using sp(1,2) by fastforce
  obtain b2 where b2: "bn_mul_word lib b1 w2 = Some b2" "val b2 = unat w1 * unat w2" using sp(3) b1(2) by fastforce
  obtain b3 where b3: "bn_div_word lib b2 w3 = Some b3" "val b3 = unat w1 * unat w2 div unat w3"
    using sp(4) [OF assms(2)] b2(2) by fastforce
  have "(2 :: nat) ^ 64 \<le> 256 ^ 64" by simp
  then have "val b3 < 256 ^ 64" using assms(3) unfolding b3(2) by (rule order.strict_trans2 [rotated])
  then show ?thesis
    using b1(1) b2(1) b3 sp(5,6) assms(3) by (simp add: bn_check_def bn_result_def)
qed

section \<open>Operands have sixteen digits\<close>

lemma bring_into_range_spec:
  assumes "v \<noteq> 0"
  shows "\<exists>v' k. bring_into_range v off = Some (v', off - int k) \<and> unat v' = unat v * 10 ^ k \<and>
    10 ^ 15 \<le> unat v' \<and> (unat v < 10 ^ 16 \<longrightarrow> unat v' < 10 ^ 16)"
  using assms
proof (induction "10 ^ 15 - unat v" arbitrary: v off rule: less_induct)
  case less
  show ?case
  proof (cases "v < cminvalue")
    case True
    then have v: "unat v < 10 ^ 15" by (simp add: cmin_iff)
    then have v10: "unat (v * 10) = unat v * 10" by (intro unat_times_10) simp
    have "0 < unat v" using less.prems by (simp add: unat_gt_0)
    then have "10 ^ 15 - unat (v * 10) < 10 ^ 15 - unat v" "v * 10 \<noteq> 0"
      using v v10 by (auto simp: unat_eq_0 [symmetric] simp del: unat_eq_0)
    from less.hyps [OF this, of "off - 1"] obtain v' k where
      "bring_into_range (v * 10) (off - 1) = Some (v', off - 1 - int k)" "unat v' = unat (v * 10) * 10 ^ k"
      "10 ^ 15 \<le> unat v'" "unat (v * 10) < 10 ^ 16 \<longrightarrow> unat v' < 10 ^ 16" by blast
    then show ?thesis
      using True v v10
      by (intro exI [of _ v'] exI [of _ "Suc k"]) (simp add: bring_into_range.simps [of v off])
  next
    case False
    then show ?thesis
      by (intro exI [of _ v] exI [of _ 0]) (simp add: bring_into_range.simps [of v off] cmin_iff)
  qed
qed

text \<open>Canonical amounts other than zero with at most sixteen digits\<close>

definition arith_ok :: "stamount \<Rightarrow> bool" where
  "arith_ok a \<longleftrightarrow> canonical a \<and> mvalue a \<noteq> 0 \<and> unat (mvalue a) < 10 ^ 16"

lemma operand_spec:
  assumes "arith_ok a"
  obtains v off where "operand a = Inr (v, off)" "10 ^ 15 \<le> unat v" "unat v < 10 ^ 16"
    "magnitude v off = magnitude (mvalue a) (moffset a)"
proof (cases "misnative a")
  case True
  obtain v k where "bring_into_range (mvalue a) (moffset a) = Some (v, moffset a - int k)"
    "unat v = unat (mvalue a) * 10 ^ k" "10 ^ 15 \<le> unat v" "unat v < 10 ^ 16"
    using bring_into_range_spec [of "mvalue a" "moffset a"] assms by (auto simp: arith_ok_def)
  then show thesis
    using that True magnitude_scale_up [of v "mvalue a" k "moffset a"] by (simp add: operand_def)
next
  case False
  then show thesis
    using that canonical_range [of a] assms by (simp add: operand_def arith_ok_def)
qed

lemma arith_ok_val: "\<bar>amt_val a\<bar> = magnitude (mvalue a) (moffset a)"
  using of_nat_0_le_iff [of "unat (mvalue a)", where 'a = rat]
  by (simp add: amt_val_def magnitude_def abs_mult)

section \<open>One unit in the last place\<close>

text \<open>
  A result is accurate when it is the overflow exception for a number of at least \<open>10^96\<close> (up to a
  relative error of \<open>10^-14\<close>), the zero of an underflow, or a canonical amount within one unit of its last place.
\<close>

definition accurate :: "issue \<Rightarrow> rat \<Rightarrow> stamount res \<Rightarrow> bool" where
  "accurate iss x res \<longleftrightarrow>
     (case res of
        Inl e \<Rightarrow> e = Runtime_error ''value overflow'' \<and> p10 96 \<le> \<bar>x\<bar> * (1 + 1 / 10 ^ 14)
      | Inr r \<Rightarrow> missue r = iss \<and> \<not> misnative r \<and>
          (if mvalue r = 0 then \<bar>x\<bar> < p10 (- 81)
           else canonical r \<and> \<bar>amt_val r - x\<bar> < p10 (moffset r)))"

lemma near_canon:
  assumes ni: "\<not> isnative (currency iss)"
    and q: "10 ^ 16 \<le> unat q" and lo: "x < magnitude q off" and hi: "magnitude q off \<le> x + 7 * p10 off"
  shows "accurate iss (if neg then - x else x) (mk_amount iss q off neg)"
proof -
  define a where "a = mk_unchecked iss q off False neg"
  let ?y = "magnitude q off"
  have y: "?y = magnitude (mvalue a) (moffset a)" by (simp add: a_def mk_unchecked_def)
  have "\<not> amt_isnative a" using ni by (simp add: a_def mk_unchecked_def amt_isnative_iff)
  then have c: "mk_amount iss q off neg = canonicalize_iou a" by (simp add: mk_amount_def canonicalize_def a_def)
  have nz: "mvalue a \<noteq> 0" using q by (auto simp: a_def mk_unchecked_def)
  have P: "0 < p10 off" by simp
  have "p10 (16 + off) = 10 ^ 16 * p10 off" using p10_nat [of 16] by (simp add: p10_add)
  then have big: "10 ^ 16 * p10 off \<le> ?y" using magnitude_ge [OF q order_refl, of off] by simp
  then have "10000000000000000 * p10 off \<le> ?y" by simp
  then have "0 < x" "7 * p10 off * 100000000000000 \<le> x" using hi P by linarith+
  then have x: "0 < x" "7 * p10 off \<le> x / 10 ^ 14" by simp_all
  from nz show ?thesis
  proof (cases rule: canonicalize_iou_cases)
    case overflow
    then have "p10 96 \<le> x * (1 + 1 / 10 ^ 14)" using hi x unfolding y [symmetric] by (simp add: distrib_left)
    then show ?thesis using overflow(2) x(1) by (auto simp: accurate_def c)
  next
    case underflow
    then show ?thesis
      using lo x(1) unfolding y [symmetric] by (auto simp: accurate_def c) (simp add: a_def mk_unchecked_def)+
  next
    case (normal m e)
    then have t: "10 ^ 15 \<le> unat m" "unat m < 10 ^ 16" "magnitude m e \<le> ?y" "?y < magnitude m e + p10 e"
      unfolding y [symmetric] by (auto simp: truncated16_def magnitude_def distrib_right)
    have "?y < (of_nat (unat m) + 1) * p10 e" using t(4) by (simp add: magnitude_def distrib_right)
    then have "?y < p10 (int 16 + e)" using t(2) by (rule less_magnitude_Suc) simp
    with \<open>p10 (16 + off) = 10 ^ 16 * p10 off\<close> big have "\<not> e \<le> off"
      using p10_mono [of "16 + e" "16 + off"] by auto
    then have "10 * p10 off \<le> p10 e" using p10_mono [of "1 + off" e] p10_add [of 1 off] p10_nat [of 1] by simp
    then have "\<bar>magnitude m e - x\<bar> < p10 e" using t(3,4) lo hi P by (simp add: abs_less_iff)
    moreover have "canonical (a\<lparr>misnative := False, mvalue := m, moffset := e\<rparr>)"
      using normal(1) ni
      by (auto simp: canonical_def truncated16_def amt_isnative_iff cmin_iff cmax_iff cminoffset_def
          cmaxoffset_def a_def mk_unchecked_def simp flip: not_less)
    moreover have "m \<noteq> 0" using t(1) by auto
    moreover have "amt_val (a\<lparr>misnative := False, mvalue := m, moffset := e\<rparr>) =
        (if neg then - magnitude m e else magnitude m e)" "missue a = iss"
      by (simp_all add: amt_val_def a_def mk_unchecked_def)
    ultimately show ?thesis
      unfolding c normal(4) by (cases neg) (simp_all add: accurate_def abs_less_iff)
  qed
qed

lemma of_nat_unat_of_nat: "n < 2 ^ 64 \<Longrightarrow> unat (of_nat n :: u64) = n"
  by (simp add: unat_of_nat)

lemma quotient_bounds:
  assumes "0 < (d :: nat)"
  shows "of_nat (n div d) \<le> (of_nat n / of_nat d :: rat)" "(of_nat n / of_nat d :: rat) < of_nat (n div d) + 1"
  using assms floor_divide_of_nat_eq [of n d, where 'a = rat] of_int_floor_le [of "of_nat n / of_nat d :: rat"]
    floor_correct [of "of_nat n / of_nat d :: rat"] by simp_all

text \<open>adding the small constant does not overflow, and the sum is above the exact quotient\<close>

lemma quotient_plus:
  assumes "0 < d" "10 ^ 16 * d \<le> n" "n < 10 ^ 18 * d" "4 \<le> unat c" "unat c \<le> 7"
  defines "q \<equiv> of_nat (n div d) + c"
  shows "10 ^ 16 \<le> unat q" "of_nat n / of_nat d * p10 off < magnitude q off"
    "magnitude q off \<le> of_nat n / of_nat d * p10 off + 7 * p10 off"
proof -
  have r: "10 ^ 16 \<le> n div d" "n div d < 10 ^ 18"
    using assms(1-3) by (simp_all add: less_eq_div_iff_mult_less_eq div_less_iff_less_mult)
  then have u: "unat (of_nat (n div d) :: u64) = n div d" by (intro of_nat_unat_of_nat) simp
  have q: "unat q = n div d + unat c"
    using r assms(5) unfolding q_def by (subst unat_add_lem [THEN iffD1]) (simp_all add: u)
  then show "10 ^ 16 \<le> unat q" using r(1) by simp
  have m: "magnitude q off = (of_nat (n div d) + of_nat (unat c)) * p10 off"
    by (simp only: magnitude_def q of_nat_add)
  have "(4 :: rat) \<le> of_nat (unat c)" "of_nat (unat c) \<le> (7 :: rat)"
    using assms(4,5) by (metis of_nat_le_iff of_nat_numeral)+
  then have "(of_nat n / of_nat d :: rat) < of_nat (n div d) + of_nat (unat c)"
    "of_nat (n div d) + of_nat (unat c) \<le> (of_nat n / of_nat d + 7 :: rat)"
    using quotient_bounds [OF assms(1), of n] by linarith+
  then show "of_nat n / of_nat d * p10 off < magnitude q off"
    "magnitude q off \<le> of_nat n / of_nat d * p10 off + 7 * p10 off"
    unfolding m distrib_right [symmetric]
    by (simp_all only: mult_strict_right_mono mult_right_mono p10_pos)
qed

section \<open>Properties\<close>

lemma tento_unat [u64_simps]: "unat tento14 = 10 ^ 14" "unat tento17 = 10 ^ 17"
  by (simp_all add: tento14_def tento17_def)

lemma p10_diff: "p10 (a - b) = p10 a / p10 b"
  using p10_add [of "a - b" b] by (simp add: field_simps)

lemma divide_within_ulp:
  assumes "bn_spec lib val" "arith_ok num" "arith_ok den" "\<not> isnative (currency iss)"
  shows "accurate iss (amt_val num / amt_val den) (divide lib num den iss)"
proof -
  obtain v1 o1 where n: "operand num = Inr (v1, o1)" "10 ^ 15 \<le> unat v1" "unat v1 < 10 ^ 16"
    "magnitude v1 o1 = magnitude (mvalue num) (moffset num)" using operand_spec [OF assms(2)] .
  obtain v2 o2 where d: "operand den = Inr (v2, o2)" "10 ^ 15 \<le> unat v2" "unat v2 < 10 ^ 16"
    "magnitude v2 o2 = magnitude (mvalue den) (moffset den)" using operand_spec [OF assms(3)] .
  let ?n = "unat v1 * 10 ^ 17" and ?d = "unat v2" and ?off = "o1 - o2 - 17"
  let ?neg = "misnegative num \<noteq> misnegative den"
  have dpos: "0 < ?d" using d(2) by simp
  have lo: "10 ^ 16 * ?d \<le> ?n" and hi: "?n < 10 ^ 18 * ?d" using n(2,3) d(2,3) by simp_all
  then have fit: "?n div ?d < 2 ^ 64" using dpos by (simp add: div_less_iff_less_mult)
  have "v2 \<noteq> 0" using dpos by auto
  then have dv: "divide lib num den iss = mk_amount iss (of_nat (?n div ?d) + 5) ?off ?neg"
    using assms(2,3) n(1) d(1) bn_muldiv [OF assms(1), of v2 v1 tento17] fit
    by (simp add: divide_def arith_ok_def u64_simps)
  have x: "of_nat ?n / of_nat ?d * p10 ?off = magnitude v1 o1 / magnitude v2 o2"
    using p10_nat [of 17] by (simp add: magnitude_def p10_diff)
  have "(if ?neg then - (magnitude v1 o1 / magnitude v2 o2) else magnitude v1 o1 / magnitude v2 o2) =
      amt_val num / amt_val den"
    unfolding n(4) d(4) by (simp add: amt_val_def)
  moreover have "accurate iss (if ?neg then - (magnitude v1 o1 / magnitude v2 o2) else magnitude v1 o1 / magnitude v2 o2)
      (mk_amount iss (of_nat (?n div ?d) + 5) ?off ?neg)"
    using quotient_plus(1) [OF dpos lo hi, of 5] quotient_plus(2,3) [OF dpos lo hi, of 5 ?off] unfolding x by (intro near_canon assms(4)) simp_all
  ultimately show ?thesis unfolding dv by simp
qed

text \<open>
  C23. Division is accurate to one unit in the last place: for operands other than zero with at most
  sixteen digits and a result that is not native, \<^verbatim>\<open>divide\<close> returns an amount whose distance from the
  exact quotient is below one unit of its last digit, or zero if the quotient is below \<open>10^(-81)\<close>, or
  throws the overflow exception if it reaches \<open>10^96\<close> up to a relative error of \<open>10^(-14)\<close>;
  dividing by zero throws.
\<close>

theorem divide_accurate:
  assumes "bn_spec lib val" "arith_ok num" "arith_ok den" "\<not> isnative (currency iss)"
  shows "accurate iss (amt_val num / amt_val den) (divide lib num den iss) \<and>
    (\<forall>z. mvalue z = 0 \<longrightarrow> divide lib num z iss = Inl (Runtime_error ''division by zero''))"
  using divide_within_ulp [OF assms] by (simp add: divide_def)

lemma iou_example_arith: "cminvalue \<le> m \<Longrightarrow> m \<le> cmaxvalue \<Longrightarrow> arith_ok (iou_example m)"
proof -
  assume m: "cminvalue \<le> m" "m \<le> cmaxvalue"
  then have "m \<noteq> 0" by (auto simp: cminvalue_def)
  moreover have "unat m < 10 ^ 16" using m(2) cmax_iff [of m] by (simp flip: not_less)
  ultimately show ?thesis using m by (simp add: arith_ok_def iou_example_simps)
qed

theorem divide_accurate_witness:
  "accurate \<lparr>currency = 5, account = 7\<rparr> (1 / 2)
     (divide nat_bn (iou_example 1000000000000000) (iou_example 2000000000000000) \<lparr>currency = 5, account = 7\<rparr>) \<and>
   divide nat_bn (iou_example 1000000000000000) (mk_native_u64 False 0 False) \<lparr>currency = 5, account = 7\<rparr> =
     Inl (Runtime_error ''division by zero'')"
proof -
  have ok: "arith_ok (iou_example 1000000000000000)" "arith_ok (iou_example 2000000000000000)"
    by (simp_all add: iou_example_arith cminvalue_def cmaxvalue_def)
  have "amt_val (iou_example 1000000000000000) / amt_val (iou_example 2000000000000000) = 1 / 2"
    by (simp add: amt_val_def iou_example_simps magnitude_def)
  then show ?thesis
    using divide_accurate [OF bn_spec_nat ok, of "\<lparr>currency = 5, account = 7\<rparr>"]
    by (simp add: isnative_def isxrp_def isvbc_def vbccurrency_def mk_native_u64_def mk_unchecked_def)
qed

text \<open>
  C24. Multiplication is accurate to one unit in the last place: for factors other than zero with at
  most sixteen digits and a result that is not native, \<^verbatim>\<open>multiply\<close> returns an amount whose distance from
  the exact product is below one unit of its last digit, or zero if the product is below \<open>10^(-81)\<close>, or
  throws the overflow exception if it reaches \<open>10^96\<close> up to a relative error of \<open>10^(-14)\<close>.
\<close>

theorem multiply_accurate:
  assumes "bn_spec lib val" "arith_ok v1" "arith_ok v2" "\<not> isnative (currency iss)"
  shows "accurate iss (amt_val v1 * amt_val v2) (multiply lib v1 v2 iss)"
proof -
  obtain m1 o1 where a: "operand v1 = Inr (m1, o1)" "10 ^ 15 \<le> unat m1" "unat m1 < 10 ^ 16"
    "magnitude m1 o1 = magnitude (mvalue v1) (moffset v1)" using operand_spec [OF assms(2)] .
  obtain m2 o2 where b: "operand v2 = Inr (m2, o2)" "10 ^ 15 \<le> unat m2" "unat m2 < 10 ^ 16"
    "magnitude m2 o2 = magnitude (mvalue v2) (moffset v2)" using operand_spec [OF assms(3)] .
  let ?n = "unat m1 * unat m2" and ?d = "10 ^ 14 :: nat" and ?off = "o1 + o2 + 14"
  let ?neg = "misnegative v1 \<noteq> misnegative v2"
  have lo: "10 ^ 16 * ?d \<le> ?n" using mult_le_mono [OF a(2) b(2)] by simp
  have hi: "?n < 10 ^ 18 * ?d" using mult_strict_mono [OF a(3) b(3)] by simp
  then have fit: "?n div ?d < 2 ^ 64" by (simp add: div_less_iff_less_mult)
  have ml: "multiply lib v1 v2 iss = mk_amount iss (of_nat (?n div ?d) + 7) ?off ?neg"
    using assms(2-4) a(1) b(1) bn_muldiv [OF assms(1), of tento14 m1 m2] fit
    by (simp add: multiply_def arith_ok_def u64_simps) (simp add: tento14_def)
  have x: "of_nat ?n / of_nat ?d * p10 ?off = magnitude m1 o1 * magnitude m2 o2"
    using p10_nat [of 14] by (simp add: magnitude_def p10_add)
  have "(if ?neg then - (magnitude m1 o1 * magnitude m2 o2) else magnitude m1 o1 * magnitude m2 o2) =
      amt_val v1 * amt_val v2"
    unfolding a(4) b(4) by (simp add: amt_val_def)
  moreover have "accurate iss (if ?neg then - (magnitude m1 o1 * magnitude m2 o2) else magnitude m1 o1 * magnitude m2 o2)
      (mk_amount iss (of_nat (?n div ?d) + 7) ?off ?neg)"
    using quotient_plus(1) [OF _ lo hi, of 7] quotient_plus(2,3) [OF _ lo hi, of 7 ?off] unfolding x by (intro near_canon assms(4)) simp_all
  ultimately show ?thesis unfolding ml by simp
qed

theorem multiply_accurate_witness:
  "accurate \<lparr>currency = 5, account = 7\<rparr> 2
     (multiply nat_bn (iou_example 1000000000000000) (iou_example 2000000000000000) \<lparr>currency = 5, account = 7\<rparr>)"
proof -
  have ok: "arith_ok (iou_example 1000000000000000)" "arith_ok (iou_example 2000000000000000)"
    by (simp_all add: iou_example_arith cminvalue_def cmaxvalue_def)
  have P: "p10 (- 15) = 1 / 10 ^ 15" using p10_minus_mult [of 15] p10_nat [of 15] by (simp add: field_simps)
  have "amt_val (iou_example 1000000000000000) * amt_val (iou_example 2000000000000000) = 2"
    by (simp add: amt_val_def iou_example_simps magnitude_def P)
  then show ?thesis
    using multiply_accurate [OF bn_spec_nat ok, of "\<lparr>currency = 5, account = 7\<rparr>"]
    by (simp add: isnative_def isxrp_def isvbc_def vbccurrency_def)
qed

section \<open>The native product\<close>

lemma guard_excludes_wrap:
  fixes lo hi :: nat
  assumes "lo \<le> 3000000000" "hi div 2 ^ 32 * lo \<le> 2095475792"
  shows "lo * hi < 2 ^ 64"
proof -
  define h l where "h = hi div 2 ^ 32" and "l = hi mod 2 ^ 32"
  have hi: "hi = h * 2 ^ 32 + l" and l: "l < 2 ^ 32" by (simp_all add: h_def l_def)
  have prod: "lo * hi = h * lo * 2 ^ 32 + lo * l" unfolding hi by (simp add: algebra_simps)
  show ?thesis
  proof (cases "h = 0")
    case True
    have "lo * l \<le> 3000000000 * 2 ^ 32" using assms(1) l by (intro mult_le_mono) simp_all
    then show ?thesis unfolding prod True by simp
  next
    case False
    then have "lo \<le> h * lo" by simp
    then have "lo \<le> 2095475792" using assms(2) unfolding h_def [symmetric] by linarith
    then have "lo * l \<le> 2095475792 * 2 ^ 32" using l by (intro mult_le_mono) simp_all
    moreover have "h * lo * 2 ^ 32 \<le> 2095475792 * 2 ^ 32" using assms(2) unfolding h_def [symmetric] by (rule mult_le_mono1)
    ultimately show ?thesis unfolding prod by simp
  qed
qed

lemma guard_complete:
  fixes lo hi :: nat
  assumes "lo \<le> hi" "lo * hi \<le> 9000000000000000000"
  shows "lo \<le> 3000000000" "hi div 2 ^ 32 * lo \<le> 2095475792"
proof -
  show "lo \<le> 3000000000"
  proof (rule ccontr)
    assume "\<not> lo \<le> 3000000000"
    then have "3000000001 * 3000000001 \<le> lo * hi" using assms(1) by (intro mult_le_mono) simp_all
    then show False using assms(2) by simp
  qed
  define h where "h = hi div 2 ^ 32"
  have "h * 2 ^ 32 * lo \<le> hi * lo" unfolding h_def by (intro mult_le_mono1) simp
  moreover have "h * lo * 2 ^ 32 = h * 2 ^ 32 * lo" by simp
  ultimately have "h * lo * 2 ^ 32 \<le> 9000000000000000000" using assms(2) by (simp only: mult.commute [of hi lo])
  then have "h * lo \<le> 2095475792" by simp
  then show "hi div 2 ^ 32 * lo \<le> 2095475792" unfolding h_def .
qed

lemma native_product_neg:
  assumes "\<bar>x\<bar> \<le> 10 ^ 17" "x < 0"
  shows "u64_of_int x > 3000000000"
proof -
  have "uint (u64_of_int x) = (x + 2 ^ 64) mod 2 ^ 64" by (simp add: u64_of_int_def uint_word_of_int)
  also have "\<dots> = x + 2 ^ 64" using assms by (intro mod_pos_pos_trivial) auto
  finally show ?thesis using assms by (simp add: word_less_def)
qed

lemma native_product_pos:
  assumes "0 \<le> x" "x \<le> 10 ^ 17" "0 \<le> y" "y \<le> x"
  shows "u64_of_int y > 3000000000 \<longleftrightarrow> 3000000000 < nat y"
    and "nat y \<le> 3000000000 \<Longrightarrow>
      drop_bit 32 (u64_of_int x) * u64_of_int y > 2095475792 \<longleftrightarrow> 2095475792 < nat x div 2 ^ 32 * nat y"
    and "nat y * nat x < 2 ^ 64 \<Longrightarrow> uint (u64_of_int y * u64_of_int x) = y * x"
proof -
  have ux: "unat (u64_of_int x) = nat x" and uy: "unat (u64_of_int y) = nat y"
    using assms by (simp_all add: unat_u64_of_int)
  show "u64_of_int y > 3000000000 \<longleftrightarrow> 3000000000 < nat y" by (simp add: word_less_nat_alt uy)
  have d: "unat (drop_bit 32 (u64_of_int x)) = nat x div 2 ^ 32"
    by (simp add: unat_drop_bit_eq drop_bit_eq_div [where 'a = nat] ux)
  assume le: "nat y \<le> 3000000000"
  have "nat x div 2 ^ 32 \<le> 10 ^ 17 div 2 ^ 32" using assms(2) by (intro div_le_mono) simp
  from mult_le_mono [OF this le] have "nat x div 2 ^ 32 * nat y < 2 ^ 64" by simp
  then have "unat (drop_bit 32 (u64_of_int x) * u64_of_int y) = nat x div 2 ^ 32 * nat y"
    by (simp only: unat_word_ariths d uy) simp
  then show "drop_bit 32 (u64_of_int x) * u64_of_int y > 2095475792 \<longleftrightarrow> 2095475792 < nat x div 2 ^ 32 * nat y"
    by (simp add: word_less_nat_alt)
next
  assume "nat y * nat x < 2 ^ 64"
  then have "unat (u64_of_int y * u64_of_int x) = nat y * nat x"
    using assms by (simp only: unat_word_ariths unat_u64_of_int) (simp add: unat_u64_of_int)
  then have "int (unat (u64_of_int y * u64_of_int x)) = y * x" using assms by simp
  then show "uint (u64_of_int y * u64_of_int x) = y * x" by simp
qed

lemma native_product_cases:
  assumes "canonical a" "canonical b" "misnative a" "misnative b"
  defines "lo \<equiv> min (snval a) (snval b)" and "hi \<equiv> max (snval a) (snval b)"
  shows "native_product a b =
    (if lo < 0 \<or> 3000000000 < nat lo \<or> 2095475792 < nat hi div 2 ^ 32 * nat lo
     then Inl (Runtime_error ''native value overflow'')
     else Inr (mk_native_u64 (amt_isvbc a) (u64_of_int lo * u64_of_int hi) False))"
proof -
  note A = canonical_native_bound [OF assms(1,3)] and B = canonical_native_bound [OF assms(2,4)]
  have g: "getsnvalue a = Inr (snval a)" "getsnvalue b = Inr (snval b)"
    using assms(3,4) A(1) B(1) by (simp_all add: getsnvalue_snval)
  have mm: "u64_min_max (snval a) (snval b) = (u64_of_int lo, u64_of_int hi)"
    by (auto simp: u64_min_max_def lo_def hi_def min_def max_def)
  have e: "native_product a b =
      (if u64_of_int lo > 3000000000 then Inl (Runtime_error ''native value overflow'')
       else if drop_bit 32 (u64_of_int hi) * u64_of_int lo > 2095475792 then Inl (Runtime_error ''native value overflow'')
       else Inr (mk_native_u64 (amt_isvbc a) (u64_of_int lo * u64_of_int hi) False))"
    by (simp add: native_product_def g mm)
  have b: "\<bar>lo\<bar> \<le> 10 ^ 17" "lo \<le> hi" "hi \<le> 10 ^ 17" using A(2) B(2) by (auto simp: lo_def hi_def)
  show ?thesis
  proof (cases "lo < 0")
    case True
    then show ?thesis using native_product_neg [OF b(1)] by (simp add: e)
  next
    case False
    then show ?thesis
      using native_product_pos [of hi lo] b unfolding e by (cases "3000000000 < nat lo") auto
  qed
qed

text \<open>
  C10. The product of two canonical native amounts other than zero, for a native result, never wraps
  around: whenever \<^verbatim>\<open>multiply\<close> returns, both factors were non-negative and the result is the exact
  product; it returns whenever both are non-negative and the product is at most \<^verbatim>\<open>cMaxNative\<close>; the only
  exception is the one for native overflow, which two negative factors raise as well.
\<close>

theorem native_multiply_exact:
  assumes "canonical a" "canonical b" "misnative a" "misnative b" "mvalue a \<noteq> 0" "mvalue b \<noteq> 0"
    "isnative (currency iss)"
  shows "(\<forall>r. multiply lib a b iss = Inr r \<longrightarrow>
      amt_val r = amt_val a * amt_val b \<and> misnative r \<and> 0 \<le> amt_val a \<and> 0 \<le> amt_val b) \<and>
    (\<forall>e. multiply lib a b iss = Inl e \<longrightarrow> e = Runtime_error ''native value overflow'') \<and>
    (0 \<le> amt_val a \<and> 0 \<le> amt_val b \<and> amt_val a * amt_val b \<le> of_nat (unat cmaxnative) \<longrightarrow>
      (\<exists>r. multiply lib a b iss = Inr r))"
proof -
  define lo hi where "lo = min (snval a) (snval b)" and "hi = max (snval a) (snval b)"
  note A = canonical_native_bound [OF assms(1,3)] and B = canonical_native_bound [OF assms(2,4)]
  have b: "lo \<le> hi" "hi \<le> 10 ^ 17" using A(2) B(2) by (auto simp: lo_def hi_def)
  have v: "amt_val a = of_int (snval a)" "amt_val b = of_int (snval b)" using A(3) B(3) by (simp_all add: amt_val_native)
  have lh: "lo * hi = snval a * snval b" by (auto simp: lo_def hi_def min_def max_def)
  have m: "multiply lib a b iss =
    (if lo < 0 \<or> 3000000000 < nat lo \<or> 2095475792 < nat hi div 2 ^ 32 * nat lo
     then Inl (Runtime_error ''native value overflow'')
     else Inr (mk_native_u64 (amt_isvbc a) (u64_of_int lo * u64_of_int hi) False))"
    using native_product_cases [OF assms(1-4)] assms(3-7) by (simp add: multiply_def lo_def hi_def)
  have "amt_val r = amt_val a * amt_val b \<and> misnative r \<and> 0 \<le> amt_val a \<and> 0 \<le> amt_val b"
    if "multiply lib a b iss = Inr r" for r
  proof -
    from that have g: "\<not> lo < 0" "nat lo \<le> 3000000000" "nat hi div 2 ^ 32 * nat lo \<le> 2095475792"
      and r: "r = mk_native_u64 (amt_isvbc a) (u64_of_int lo * u64_of_int hi) False"
      unfolding m by (auto split: if_splits)
    have "uint (u64_of_int lo * u64_of_int hi) = lo * hi"
      using native_product_pos(3) [of hi lo] guard_excludes_wrap [OF g(2,3)] g(1) b by simp
    then have "amt_val r = of_int (lo * hi)"
      using amt_val_native [of r] by (simp add: r mk_native_u64_def mk_unchecked_def snval_def)
    then have "amt_val r = amt_val a * amt_val b" unfolding lh v by simp
    moreover have "0 \<le> snval a" "0 \<le> snval b" using g(1) by (simp_all add: lo_def not_less)
    moreover have "misnative r" by (simp add: r mk_native_u64_def mk_unchecked_def)
    ultimately show ?thesis by (simp add: v)
  qed
  moreover have "\<exists>r. multiply lib a b iss = Inr r"
    if "0 \<le> amt_val a \<and> 0 \<le> amt_val b \<and> amt_val a * amt_val b \<le> of_nat (unat cmaxnative)"
  proof -
    have pos: "0 \<le> lo" using that by (simp add: v lo_def)
    have "(of_int (snval a * snval b) :: rat) \<le> of_int 9000000000000000000"
      using that by (simp add: v cmaxnative_def)
    then have "lo * hi \<le> 9000000000000000000" unfolding lh by (simp only: of_int_le_iff)
    then have "int (nat lo * nat hi) \<le> int 9000000000000000000" using pos b(1) by simp
    then have "nat lo * nat hi \<le> 9000000000000000000" by (simp only: of_nat_le_iff)
    from guard_complete [OF nat_mono [OF b(1)] this] pos show ?thesis unfolding m by simp
  qed
  ultimately show ?thesis unfolding m by auto
qed

theorem native_multiply_exact_witness:
  "\<exists>r. multiply nat_bn (mk_native_u64 False 3 False) (mk_native_u64 False 5 False) xrpissue = Inr r \<and> amt_val r = 15"
proof -
  let ?a = "mk_native_u64 False 3 False" and ?b = "mk_native_u64 False 5 False"
  have c: "canonical ?a" "canonical ?b"
    by (simp_all add: canonical_def amt_isnative_iff mk_native_u64_def mk_unchecked_def native_issue_def
        cmaxnativen_def xrpissue_def special_defs isnative_def isxrp_def)
  have n: "misnative ?a" "misnative ?b" "mvalue ?a \<noteq> 0" "mvalue ?b \<noteq> 0" "isnative (currency xrpissue)"
    by (simp_all add: mk_native_u64_def mk_unchecked_def xrpissue_def)
  have "amt_val ?a = 3" "amt_val ?b = 5"
    by (simp_all add: amt_val_def magnitude_def mk_native_u64_def mk_unchecked_def)
  then show ?thesis using native_multiply_exact [OF c n, of nat_bn] by (auto simp: cmaxnative_def)
qed

end
