(* ===== verification/Amount_Rounding.thy ===== *)
theory Amount_Rounding
  imports Amount_Accuracy
begin

text \<open>
  Directed rounding: \<^verbatim>\<open>mulRound\<close> and \<^verbatim>\<open>divRound\<close> of \<^verbatim>\<open>src/ripple/protocol/impl/STAmount.cpp\<close>.
  Rounding down is sound. Rounding up stays within one unit in the last place of the exact result
  (\<open>mulround_up_within_ulp\<close>, \<open>divround_up_within_ulp\<close>), but the result can lie below it:
  \<^verbatim>\<open>canonicalizeRound\<close> drops all digits but the last one it removes before it adds nine, see
  \<open>mulround_up_below_exact\<close>.
\<close>

section \<open>Truncation never increases an amount\<close>

lemma mk_amount_le:
  assumes "\<not> isnative (currency iss)" "mk_amount iss m e False = Inr r"
  shows "0 \<le> amt_val r" "amt_val r \<le> magnitude m e" "missue r = iss"
proof -
  let ?a = "mk_unchecked iss m e False False"
  have c: "canonicalize_iou ?a = Inr r"
    using assms by (simp add: mk_amount_def canonicalize_def amt_isnative_iff mk_unchecked_def)
  have nn: "0 \<le> magnitude v k" for v k
    using magnitude_pos [of v k] by (cases "v = 0") auto
  have "0 \<le> amt_val r \<and> amt_val r \<le> magnitude m e \<and> missue r = iss"
  proof (cases "m = 0")
    case True
    then show ?thesis using c by (auto simp: canonicalize_iou_def mk_unchecked_def amt_val_def)
  next
    case False
    then have "mvalue ?a \<noteq> 0" by (simp add: mk_unchecked_def)
    then show ?thesis
    proof (cases rule: canonicalize_iou_cases)
      case overflow
      then show ?thesis using c by simp
    next
      case underflow
      then show ?thesis using c nn by (auto simp: mk_unchecked_def amt_val_def)
    next
      case (normal v k)
      then show ?thesis using c nn by (auto simp: mk_unchecked_def amt_val_def truncated16_def)
    qed
  qed
  then show "0 \<le> amt_val r" "amt_val r \<le> magnitude m e" "missue r = iss" by auto
qed

lemma magnitude_quotient_le:
  assumes "0 < d" "n div d < 2 ^ 64"
  shows "magnitude (of_nat (n div d)) off \<le> of_nat n / of_nat d * p10 off"
  using quotient_bounds(1) [OF assms(1), of n] of_nat_unat_of_nat [OF assms(2)]
  unfolding magnitude_def by (simp only: mult_right_mono p10_pos)

text \<open>
  C25. Rounding down is sound: for operands of the same sign with at most sixteen digits and a result
  that is not native, what \<^verbatim>\<open>mulRound\<close> and \<^verbatim>\<open>divRound\<close> return with \<^verbatim>\<open>roundUp\<close> false is at most the exact
  product and quotient, and not negative.
\<close>

theorem round_down_sound:
  assumes "bn_spec lib val" "arith_ok v1" "arith_ok v2" "\<not> isnative (currency iss)"
    "misnegative v1 = misnegative v2"
  shows "(\<forall>r. mulround lib v1 v2 iss False = Inr r \<longrightarrow> 0 \<le> amt_val r \<and> amt_val r \<le> amt_val v1 * amt_val v2) \<and>
    (\<forall>r. divround lib v1 v2 iss False = Inr r \<longrightarrow> 0 \<le> amt_val r \<and> amt_val r \<le> amt_val v1 / amt_val v2)"
proof -
  obtain m1 o1 where a: "operand v1 = Inr (m1, o1)" "10 ^ 15 \<le> unat m1" "unat m1 < 10 ^ 16"
    "magnitude m1 o1 = magnitude (mvalue v1) (moffset v1)" using operand_spec [OF assms(2)] .
  obtain m2 o2 where b: "operand v2 = Inr (m2, o2)" "10 ^ 15 \<le> unat m2" "unat m2 < 10 ^ 16"
    "magnitude m2 o2 = magnitude (mvalue v2) (moffset v2)" using operand_spec [OF assms(3)] .
  let ?p = "unat m1 * unat m2 div 10 ^ 14" and ?q = "unat m1 * 10 ^ 17 div unat m2"
  have m2: "0 < unat m2" "m2 \<noteq> 0" using b(2) by auto
  have "unat m1 * unat m2 < 2 ^ 64 * 10 ^ 14" using mult_strict_mono [OF a(3) b(3)] by simp
  then have fp: "?p < 2 ^ 64" by (simp add: div_less_iff_less_mult)
  have fq: "?q < 2 ^ 64" using a(3) b(2) m2(1) by (simp add: div_less_iff_less_mult)
  have mul: "mulround lib v1 v2 iss False = mk_amount iss (of_nat ?p) (o1 + o2 + 14) False"
    using assms(2-5) a(1) b(1) bn_muldiv [OF assms(1), of tento14 m1 m2] fp
    by (simp add: mulround_def arith_ok_def u64_simps canonicalizeround_def) (simp add: tento14_def)
  have dv: "divround lib v1 v2 iss False = mk_amount iss (of_nat ?q) (o1 - o2 - 17) False"
    using assms(2-5) a(1) b(1) bn_muldiv [OF assms(1) m2(2), of m1 tento17] fq
    by (simp add: divround_def arith_ok_def u64_simps canonicalizeround_def)
  have xp: "of_nat (unat m1 * unat m2) / of_nat (10 ^ 14) * p10 (o1 + o2 + 14) = amt_val v1 * amt_val v2"
  proof -
    have "of_nat (unat m1 * unat m2) / of_nat (10 ^ 14) * p10 (o1 + o2 + 14) = magnitude m1 o1 * magnitude m2 o2"
      using p10_nat [of 14] by (simp add: magnitude_def p10_add)
    then show ?thesis using assms(5) unfolding a(4) b(4) by (simp add: amt_val_def)
  qed
  have xq: "of_nat (unat m1 * 10 ^ 17) / of_nat (unat m2) * p10 (o1 - o2 - 17) = amt_val v1 / amt_val v2"
  proof -
    have "of_nat (unat m1 * 10 ^ 17) / of_nat (unat m2) * p10 (o1 - o2 - 17) = magnitude m1 o1 / magnitude m2 o2"
      using p10_nat [of 17] by (simp add: magnitude_def p10_diff)
    then show ?thesis using assms(5) unfolding a(4) b(4) by (simp add: amt_val_def)
  qed
  have "amt_val r \<le> amt_val v1 * amt_val v2 \<and> 0 \<le> amt_val r" if "mulround lib v1 v2 iss False = Inr r" for r
    using mk_amount_le [OF assms(4) that [unfolded mul]] magnitude_quotient_le [OF _ fp, of "o1 + o2 + 14"] xp
    by simp
  moreover have "amt_val r \<le> amt_val v1 / amt_val v2 \<and> 0 \<le> amt_val r" if "divround lib v1 v2 iss False = Inr r" for r
    using mk_amount_le [OF assms(4) that [unfolded dv]] magnitude_quotient_le [OF m2(1) fq, of "o1 - o2 - 17"] xq
    by simp
  ultimately show ?thesis by blast
qed

abbreviation example_issue :: issue where
  "example_issue \<equiv> \<lparr>currency = 5, account = 7\<rparr>"

lemma example_issue_iou: "\<not> isnative (currency example_issue)"
  by (simp add: isnative_def isxrp_def isvbc_def vbccurrency_def)

lemma mk_amount_example:
  assumes "scale_down v off = Inr (w, - 15)" "cminvalue \<le> w" "w \<le> cmaxvalue" "cminvalue \<le> v"
  shows "mk_amount example_issue v off False = Inr (iou_example w)"
proof -
  have "v \<noteq> 0" "w \<noteq> 0" using assms by (auto simp: cminvalue_def)
  then show ?thesis
    using assms example_issue_iou
    by (auto simp: mk_amount_def canonicalize_def canonicalize_iou_def mk_unchecked_def amt_isnative_iff
        scale_stop cminoffset_def cmaxoffset_def iou_example_def not_less [symmetric])
qed

theorem round_down_sound_witness:
  "\<exists>r. mulround nat_bn (iou_example 1000000000000000) (iou_example 2000000000000000) example_issue False = Inr r \<and>
     0 \<le> amt_val r \<and> amt_val r \<le> amt_val (iou_example 1000000000000000) * amt_val (iou_example 2000000000000000)"
proof -
  let ?a = "iou_example 1000000000000000" and ?b = "iou_example 2000000000000000"
  have ok: "arith_ok ?a" "arith_ok ?b"
    by (simp_all add: iou_example_arith cminvalue_def cmaxvalue_def)
  have "scale_down 20000000000000000 (- 16) = Inr (2000000000000000, - 15)"
    by (simp add: scale_down.simps cmaxvalue_def cmaxoffset_def)
  then have "mk_amount example_issue 20000000000000000 (- 16) False = Inr (iou_example 2000000000000000)"
    by (rule mk_amount_example) (simp_all add: cminvalue_def cmaxvalue_def)
  then have "mulround nat_bn ?a ?b example_issue False = Inr (iou_example 2000000000000000)"
    by (simp add: mulround_def operand_def iou_example_simps bn_check_def bn_result_def nat_bn_def bytes_of_le
        tento14_def canonicalizeround_def)
  then show ?thesis
    using round_down_sound [OF bn_spec_nat ok example_issue_iou] by (simp add: iou_example_simps)
qed

section \<open>Rounding up is accurate\<close>

lemma bn_mulplusdiv:
  assumes "bn_spec lib val" "w3 \<noteq> 0" "(unat w1 * unat w2 + unat c) div unat w3 < 2 ^ 64"
  shows "rbind (bn_check lib (bn_add_word lib (bn_new lib) w1)) (\<lambda>b1.
      rbind (bn_check lib (bn_mul_word lib b1 w2)) (\<lambda>b2.
      rbind (bn_check lib (bn_div_word lib (bn_add_unchecked lib b2 c) w3)) (\<lambda>b3.
      rbind (bn_result lib b3) f))) = f (of_nat ((unat w1 * unat w2 + unat c) div unat w3))"
proof -
  have sp: "val (bn_new lib) = 0"
    "\<And>b w. \<exists>b'. bn_add_word lib b w = Some b' \<and> val b' = val b + unat w"
    "\<And>b w. \<exists>b'. bn_mul_word lib b w = Some b' \<and> val b' = val b * unat w"
    "\<And>b w. w \<noteq> 0 \<Longrightarrow> \<exists>b'. bn_div_word lib b w = Some b' \<and> val b' = val b div unat w"
    "\<And>b. bn_get_word lib b = (if val b < 2 ^ 64 then of_nat (val b) else - 1)"
    "\<And>b n. bn_num_bytes lib b \<le> n \<longleftrightarrow> val b < 256 ^ n"
    using assms(1) unfolding bn_spec_def by blast+
  obtain b1 where b1: "bn_add_word lib (bn_new lib) w1 = Some b1" "val b1 = unat w1" using sp(1,2) by fastforce
  obtain b2 where b2: "bn_mul_word lib b1 w2 = Some b2" "val b2 = unat w1 * unat w2" using sp(3) b1(2) by fastforce
  obtain b3 where b3: "bn_add_word lib b2 c = Some b3" "val b3 = unat w1 * unat w2 + unat c"
    using sp(2) b2(2) by fastforce
  obtain b4 where b4: "bn_div_word lib b3 w3 = Some b4" "val b4 = (unat w1 * unat w2 + unat c) div unat w3"
    using sp(4) [OF assms(2)] b3(2) by fastforce
  have "(2 :: nat) ^ 64 \<le> 256 ^ 64" by simp
  then have "val b4 < 256 ^ 64" using assms(3) unfolding b4(2) by (rule order.strict_trans2 [rotated])
  then show ?thesis
    using b1(1) b2(1) b3(1) b4 sp(5,6) assms(3) by (simp add: bn_check_def bn_result_def bn_add_unchecked_def)
qed

text \<open>the loop keeps seventeen digits, the final division sixteen\<close>

lemma shrink_loop_spec:
  "shrink_loop v off = (v', off') \<Longrightarrow> 10 ^ 16 - 1 \<le> unat v \<Longrightarrow>
     \<exists>k. unat v' = unat v div 10 ^ k \<and> off' = off + int k \<and> 10 ^ 16 - 1 \<le> unat v' \<and> unat v' \<le> 10 ^ 17 - 10"
proof (induction v off rule: shrink_loop.induct)
  case (1 v off)
  have lim: "v > 10 * cmaxvalue \<longleftrightarrow> 10 ^ 17 - 10 < unat v" by (simp add: word_less_nat_alt cmaxvalue_def)
  show ?case
  proof (cases "v > 10 * cmaxvalue")
    case True
    then have "shrink_loop (v div 10) (off + 1) = (v', off')" using 1(2) by (simp add: shrink_loop.simps [of v off])
    moreover have d: "unat (v div 10) = unat v div 10" by (simp add: unat_div)
    moreover have "10 ^ 16 - 1 \<le> unat v div 10" using True unfolding lim by simp
    ultimately obtain k where "unat v' = unat v div 10 div 10 ^ k" "off' = off + 1 + int k"
      "10 ^ 16 - 1 \<le> unat v'" "unat v' \<le> 10 ^ 17 - 10"
      using 1(1) [OF True] by auto
    then show ?thesis by (intro exI [of _ "Suc k"]) (simp add: div_mult2_eq)
  next
    case False
    then show ?thesis
      using 1(2,3) unfolding lim by (intro exI [of _ 0]) (simp add: shrink_loop.simps [of v off] lim)
  qed
qed

lemma canonicalizeround_up:
  assumes "canonicalizeround False q off True = (w, e)" "10 ^ 16 \<le> unat q"
    and "x \<le> of_nat (unat q)" "of_nat (unat q) < x + 1"
  shows "10 ^ 15 \<le> unat w" "unat w < 10 ^ 16" "\<bar>magnitude w e - x * p10 off\<bar> < p10 e"
proof -
  have big: "q > cmaxvalue" using assms(2) by (simp add: word_less_nat_alt cmaxvalue_def)
  obtain v off1 where sl: "shrink_loop q off = (v, off1)" by fastforce
  obtain k where k: "unat v = unat q div 10 ^ k" "off1 = off + int k" "10 ^ 16 - 1 \<le> unat v" "unat v \<le> 10 ^ 17 - 10"
    using shrink_loop_spec [OF sl] assms(2) by auto
  have we: "w = (v + 9) div 10" "e = off + int k + 1" using assms(1) big sl k(2) by (simp_all add: canonicalizeround_def)
  have "unat (v + 9) = unat v + 9" using k(4) by (subst unat_add_lem [THEN iffD1]) simp_all
  then have w: "unat w = (unat v + 9) div 10" by (simp add: we(1) unat_div)
  show "10 ^ 15 \<le> unat w" "unat w < 10 ^ 16" using k(3,4) unfolding w by simp_all
  have "unat v \<le> 10 * unat w" "10 * unat w \<le> unat v + 9" unfolding w by simp_all
  then have W: "(of_nat (unat v) :: rat) \<le> 10 * of_nat (unat w)" "10 * of_nat (unat w) \<le> (of_nat (unat v) + 9 :: rat)"
    using of_nat_mono [of "unat v" "10 * unat w", where 'a = rat] of_nat_mono [of "10 * unat w" "unat v + 9", where 'a = rat]
    by simp_all
  let ?t = "10 ^ k :: rat"
  have t: "1 \<le> ?t" by simp
  have "of_nat (unat v) \<le> (of_nat (unat q) / ?t :: rat)" "of_nat (unat q) / ?t < (of_nat (unat v) + 1 :: rat)"
    using quotient_bounds [of "10 ^ k" "unat q"] unfolding k(1) by simp_all
  then have V: "of_nat (unat v) * ?t \<le> of_nat (unat q)" "of_nat (unat q) < (of_nat (unat v) + 1) * ?t"
    using t by (simp_all add: field_simps)
  have "(10 * of_nat (unat w)) * ?t \<le> (of_nat (unat v) + 9) * ?t" "of_nat (unat v) * ?t \<le> (10 * of_nat (unat w)) * ?t"
    using W t by (simp_all only: mult_right_mono)
  then have "10 * of_nat (unat w) * ?t < x + 10 * ?t" "x - 10 * ?t < 10 * of_nat (unat w) * ?t"
    using V assms(3,4) t unfolding distrib_right by linarith+
  then have "\<bar>10 * of_nat (unat w) * ?t - x\<bar> < 10 * ?t" by (simp add: abs_less_iff)
  then have "\<bar>10 * of_nat (unat w) * ?t - x\<bar> * p10 off < 10 * ?t * p10 off" by simp
  moreover have "p10 e = 10 * ?t * p10 off" using p10_nat [of k] p10_nat [of 1] by (simp add: we(2) p10_add)
  moreover have "magnitude w e - x * p10 off = (10 * of_nat (unat w) * ?t - x) * p10 off"
    unfolding magnitude_def calculation(2) by (simp add: algebra_simps)
  ultimately show "\<bar>magnitude w e - x * p10 off\<bar> < p10 e" by (simp add: abs_mult)
qed

lemma near_round:
  assumes ni: "\<not> isnative (currency iss)" and w: "10 ^ 15 \<le> unat w" "unat w < 10 ^ 16" and pos: "0 < x"
    and near: "\<bar>magnitude w off - x\<bar> < p10 off"
  shows "accurate iss x (mk_amount iss w off False)"
    and "mk_amount iss w off False = Inr r \<Longrightarrow> \<not> misnegative r"
proof -
  define a where "a = mk_unchecked iss w off False False"
  let ?y = "magnitude w off"
  have y: "?y = magnitude (mvalue a) (moffset a)" by (simp add: a_def mk_unchecked_def)
  have "\<not> amt_isnative a" using ni by (simp add: a_def mk_unchecked_def amt_isnative_iff)
  then have c: "mk_amount iss w off False = canonicalize_iou a" by (simp add: mk_amount_def canonicalize_def a_def)
  have nz: "mvalue a \<noteq> 0" using w(1) by (auto simp: a_def mk_unchecked_def)
  have lo: "p10 (15 + off) \<le> ?y" using magnitude_ge [OF w(1) order_refl, of off] by simp
  have sh: "p10 (15 + off) = 10 ^ 15 * p10 off" using p10_nat [of 15] by (simp add: p10_add)
  have hi: "?y + p10 off \<le> p10 (16 + off)"
  proof -
    have "(of_nat (unat w + 1) :: rat) \<le> of_nat (10 ^ 16)" using w(2) by (intro of_nat_mono) simp
    then have "of_nat (unat w + 1) * p10 off \<le> of_nat (10 ^ 16) * p10 off" by (intro mult_right_mono) simp_all
    then show ?thesis using p10_nat [of 16] by (simp add: magnitude_def distrib_right p10_add)
  qed
  from nz have "accurate iss x (mk_amount iss w off False) \<and>
    (mk_amount iss w off False = Inr r \<longrightarrow> \<not> misnegative r)"
  proof (cases rule: canonicalize_iou_cases)
    case overflow
    have "?y < x + p10 off" "10 ^ 15 * p10 off \<le> ?y" using near lo sh by (auto simp: abs_less_iff)
    then have "?y < x + p10 off" "1000000000000000 * p10 off \<le> ?y" by simp_all
    then have "100000000000000 * ?y \<le> 100000000000001 * x" using p10_pos [of off] by linarith
    then have "?y \<le> x * (1 + 1 / 10 ^ 14)" by simp
    then show ?thesis using overflow pos unfolding y [symmetric] by (auto simp: accurate_def c)
  next
    case underflow
    then have "15 + off < - 81" using lo p10_mono [of "- 81" "15 + off"] unfolding y [symmetric] by fastforce
    then have "p10 (16 + off) \<le> p10 (- 81)" by (intro p10_mono) simp
    then have "x < p10 (- 81)" using near hi by (simp add: abs_less_iff)
    then show ?thesis using underflow pos by (auto simp: accurate_def c a_def mk_unchecked_def)
  next
    case (normal m e)
    then have t: "10 ^ 15 \<le> unat m" "unat m < 10 ^ 16" "magnitude m e \<le> ?y" "?y < magnitude m e + p10 e"
      unfolding y [symmetric] by (auto simp: truncated16_def magnitude_def distrib_right)
    have "?y < (of_nat (unat m) + 1) * p10 e" using t(4) by (simp add: magnitude_def distrib_right)
    then have "?y < p10 (int 16 + e)" using t(2) by (rule less_magnitude_Suc) simp
    then have "\<not> 16 + e \<le> 15 + off" using lo p10_mono [of "16 + e" "15 + off"] by auto
    moreover have "p10 (int 15 + e) \<le> magnitude m e" by (rule magnitude_ge [OF t(1)]) simp
    then have "\<not> 16 + off \<le> 15 + e" using hi t(3) p10_mono [of "16 + off" "15 + e"] p10_pos [of off] by auto
    ultimately have e: "e = off" by simp
    have "of_nat (unat m) * p10 off \<le> of_nat (unat w) * p10 off" "of_nat (unat w) * p10 off < of_nat (unat m + 1) * p10 off"
      using t(3,4) unfolding e magnitude_def of_nat_add distrib_right by simp_all
    then have "of_nat (unat m) \<le> (of_nat (unat w) :: rat)" "of_nat (unat w) < (of_nat (unat m + 1) :: rat)"
      by (simp_all only: mult_le_cancel_right_pos mult_less_cancel_right_pos p10_pos)
    then have "unat m = unat w" by (simp only: of_nat_le_iff of_nat_less_iff)
    then have m: "m = w" by (simp only: word_unat_eq_iff)
    have "canonical (a\<lparr>misnative := False, mvalue := m, moffset := e\<rparr>)"
      using normal(1) ni
      by (auto simp: canonical_def truncated16_def amt_isnative_iff cmin_iff cmax_iff cminoffset_def
          cmaxoffset_def a_def mk_unchecked_def simp flip: not_less)
    moreover have "m \<noteq> 0" using t(1) by auto
    ultimately show ?thesis
      using near unfolding c normal(4) m e by (auto simp: accurate_def amt_val_def a_def mk_unchecked_def)
  qed
  then show "accurate iss x (mk_amount iss w off False)"
    and "mk_amount iss w off False = Inr r \<Longrightarrow> \<not> misnegative r" by auto
qed

text \<open>the quotient rounded up to an integer\<close>

lemma quotient_up:
  assumes "0 < d" "10 ^ 16 * d \<le> n" "n < 10 ^ 18 * d"
  defines "q \<equiv> of_nat ((n + (d - 1)) div d) :: u64"
  shows "(n + (d - 1)) div d < 2 ^ 64" "10 ^ 16 \<le> unat q"
    "of_nat n / of_nat d \<le> (of_nat (unat q) :: rat)" "of_nat (unat q) < (of_nat n / of_nat d + 1 :: rat)"
proof -
  let ?c = "(n + (d - 1)) div d"
  have "n + (d - 1) < (10 ^ 18 + 1) * d" "10 ^ 16 * d \<le> n + (d - 1)" using assms(1-3) by simp_all
  then have r: "?c < 10 ^ 18 + 1" "10 ^ 16 \<le> ?c"
    using assms(1) by (simp_all only: less_eq_div_iff_mult_less_eq div_less_iff_less_mult)
  then show "?c < 2 ^ 64" by simp
  then have u: "unat q = ?c" unfolding q_def by (rule of_nat_unat_of_nat)
  then show "10 ^ 16 \<le> unat q" using r(2) by simp
  have "?c * d \<le> n + (d - 1)" by simp
  moreover have "n + (d - 1) < (?c + 1) * d" using assms(1) dividend_less_div_times [of d "n + (d - 1)"] by simp
  ultimately have "n \<le> ?c * d" "?c * d < n + d" using assms(1) unfolding add_mult_distrib by linarith+
  then have "(of_nat n :: rat) \<le> of_nat (?c * d)" "(of_nat (?c * d) :: rat) < of_nat (n + d)"
    by (simp_all only: of_nat_le_iff of_nat_less_iff)
  then show "of_nat n / of_nat d \<le> (of_nat (unat q) :: rat)" "of_nat (unat q) < (of_nat n / of_nat d + 1 :: rat)"
    using assms(1) unfolding u by (simp_all add: field_simps)
qed

lemma round_up_within_ulp:
  assumes "\<not> isnative (currency iss)" "0 < d" "10 ^ 16 * d \<le> n" "n < 10 ^ 18 * d"
    and "canonicalizeround False (of_nat ((n + (d - 1)) div d)) off True = (w, e)"
    and x: "of_nat n / of_nat d * p10 off = x" "0 < x"
  shows "accurate iss x (mk_amount iss w e False)"
    "mk_amount iss w e False = Inr r \<Longrightarrow> \<not> misnegative r"
proof -
  note q = quotient_up [OF assms(2-4)]
  note cr = canonicalizeround_up [OF assms(5) q(2-4)]
  show "accurate iss x (mk_amount iss w e False)"
    using cr(3) unfolding x(1) by (rule near_round(1) [OF assms(1) cr(1,2) x(2)])
  show "mk_amount iss w e False = Inr r \<Longrightarrow> \<not> misnegative r"
    using cr(3) unfolding x(1) by (rule near_round(2) [OF assms(1) cr(1,2) x(2)])
qed

lemma mulround_up_within_ulp:
  assumes "bn_spec lib val" "arith_ok v1" "arith_ok v2" "\<not> isnative (currency iss)"
    "misnegative v1 = misnegative v2"
  shows "accurate iss (amt_val v1 * amt_val v2) (mulround lib v1 v2 iss True)"
    and "mulround lib v1 v2 iss True = Inr r \<Longrightarrow> \<not> misnegative r"
proof -
  obtain m1 o1 where a: "operand v1 = Inr (m1, o1)" "10 ^ 15 \<le> unat m1" "unat m1 < 10 ^ 16"
    "magnitude m1 o1 = magnitude (mvalue v1) (moffset v1)" using operand_spec [OF assms(2)] .
  obtain m2 o2 where b: "operand v2 = Inr (m2, o2)" "10 ^ 15 \<le> unat m2" "unat m2 < 10 ^ 16"
    "magnitude m2 o2 = magnitude (mvalue v2) (moffset v2)" using operand_spec [OF assms(3)] .
  let ?n = "unat m1 * unat m2" and ?d = "10 ^ 14 :: nat" and ?off = "o1 + o2 + 14"
  have lo: "10 ^ 16 * ?d \<le> ?n" using mult_le_mono [OF a(2) b(2)] by simp
  have hi: "?n < 10 ^ 18 * ?d" using mult_strict_mono [OF a(3) b(3)] by simp
  have "unat tento14m1 = ?d - 1" "unat tento14 = ?d" "tento14 \<noteq> 0" by (simp_all add: tento14m1_def tento14_def)
  then have ml: "mulround lib v1 v2 iss True =
      (case canonicalizeround False (of_nat ((?n + (?d - 1)) div ?d)) ?off True of (w, e) \<Rightarrow> mk_amount iss w e False)"
    using assms(2-5) a(1) b(1) bn_mulplusdiv [OF assms(1), of tento14 m1 m2 tento14m1] quotient_up(1) [OF _ lo hi]
    by (simp add: mulround_def arith_ok_def)
  obtain w e where cr: "canonicalizeround False (of_nat ((?n + (?d - 1)) div ?d)) ?off True = (w, e)" by fastforce
  have ml: "mulround lib v1 v2 iss True = mk_amount iss w e False" unfolding ml cr by simp
  have x: "of_nat ?n / of_nat ?d * p10 ?off = amt_val v1 * amt_val v2"
  proof -
    have "of_nat ?n / of_nat ?d * p10 ?off = magnitude m1 o1 * magnitude m2 o2"
      using p10_nat [of 14] by (simp add: magnitude_def p10_add)
    then show ?thesis using assms(5) unfolding a(4) b(4) by (simp add: amt_val_def)
  qed
  have "0 < ?n" "0 < ?d" using a(2) b(2) by simp_all
  then have "(0 :: rat) < of_nat ?n" "(0 :: rat) < of_nat ?d" by (simp_all only: of_nat_0_less_iff)
  then have "0 < of_nat ?n / of_nat ?d * p10 ?off" by (intro mult_pos_pos divide_pos_pos p10_pos)
  then have pos: "0 < amt_val v1 * amt_val v2" unfolding x .
  show "accurate iss (amt_val v1 * amt_val v2) (mulround lib v1 v2 iss True)"
    unfolding ml by (rule round_up_within_ulp(1) [OF assms(4) _ lo hi cr x pos]) simp
  show "mulround lib v1 v2 iss True = Inr r \<Longrightarrow> \<not> misnegative r"
    unfolding ml by (rule round_up_within_ulp(2) [OF assms(4) _ lo hi cr x pos]) simp_all
qed

lemma divround_up_within_ulp:
  assumes "bn_spec lib val" "arith_ok num" "arith_ok den" "\<not> isnative (currency iss)"
    "misnegative num = misnegative den"
  shows "accurate iss (amt_val num / amt_val den) (divround lib num den iss True)"
    and "divround lib num den iss True = Inr r \<Longrightarrow> \<not> misnegative r"
proof -
  obtain m1 o1 where a: "operand num = Inr (m1, o1)" "10 ^ 15 \<le> unat m1" "unat m1 < 10 ^ 16"
    "magnitude m1 o1 = magnitude (mvalue num) (moffset num)" using operand_spec [OF assms(2)] .
  obtain m2 o2 where b: "operand den = Inr (m2, o2)" "10 ^ 15 \<le> unat m2" "unat m2 < 10 ^ 16"
    "magnitude m2 o2 = magnitude (mvalue den) (moffset den)" using operand_spec [OF assms(3)] .
  let ?n = "unat m1 * 10 ^ 17" and ?d = "unat m2" and ?off = "o1 - o2 - 17"
  have dpos: "0 < ?d" "m2 \<noteq> 0" using b(2) by auto
  have lo: "10 ^ 16 * ?d \<le> ?n" and hi: "?n < 10 ^ 18 * ?d" using a(2,3) b(2,3) by simp_all
  have "unat (m2 - 1) = ?d - 1" using dpos(2) by (simp add: unat_minus_one)
  then have dv: "divround lib num den iss True =
      (case canonicalizeround False (of_nat ((?n + (?d - 1)) div ?d)) ?off True of (w, e) \<Rightarrow> mk_amount iss w e False)"
    using assms(2-5) a(1) b(1) bn_mulplusdiv [OF assms(1) dpos(2), of m1 tento17 "m2 - 1"] quotient_up(1) [OF dpos(1) lo hi]
    by (simp add: divround_def arith_ok_def u64_simps)
  obtain w e where cr: "canonicalizeround False (of_nat ((?n + (?d - 1)) div ?d)) ?off True = (w, e)" by fastforce
  have dv: "divround lib num den iss True = mk_amount iss w e False" unfolding dv cr by simp
  have x: "of_nat ?n / of_nat ?d * p10 ?off = amt_val num / amt_val den"
  proof -
    have "of_nat ?n / of_nat ?d * p10 ?off = magnitude m1 o1 / magnitude m2 o2"
      using p10_nat [of 17] by (simp add: magnitude_def p10_diff)
    then show ?thesis using assms(5) unfolding a(4) b(4) by (simp add: amt_val_def)
  qed
  have "0 < ?n" "0 < ?d" using a(2) b(2) by simp_all
  then have "(0 :: rat) < of_nat ?n" "(0 :: rat) < of_nat ?d" by (simp_all only: of_nat_0_less_iff)
  then have "0 < of_nat ?n / of_nat ?d * p10 ?off" by (intro mult_pos_pos divide_pos_pos p10_pos)
  then have pos: "0 < amt_val num / amt_val den" unfolding x .
  show "accurate iss (amt_val num / amt_val den) (divround lib num den iss True)"
    unfolding dv by (rule round_up_within_ulp(1) [OF assms(4) dpos(1) lo hi cr x pos])
  show "divround lib num den iss True = Inr r \<Longrightarrow> \<not> misnegative r"
    unfolding dv by (rule round_up_within_ulp(2) [OF assms(4) dpos(1) lo hi cr x pos])
qed

section \<open>Rounding up can round down\<close>

text \<open>
  The mantissas 9090909090909091 and 1100000000000000 have the product \<open>(10^17 + 1) * 10^14\<close>. After the
  division by \<open>10^14\<close> the loop of \<^verbatim>\<open>canonicalizeRound\<close> drops the final 1 without a trace.
\<close>

lemma mulround_up_below_exact:
  "\<exists>r. mulround nat_bn (iou_example 9090909090909091) (iou_example 1100000000000000) example_issue True = Inr r \<and>
     amt_val r < amt_val (iou_example 9090909090909091) * amt_val (iou_example 1100000000000000)"
proof -
  let ?a = "iou_example 9090909090909091" and ?b = "iou_example 1100000000000000"
    and ?r = "mk_unchecked example_issue 1000000000000000 (- 14) False False"
  have "shrink_loop 100000000000000001 (- 16) = (10000000000000000, - 15)"
    by (simp add: shrink_loop.simps cmaxvalue_def)
  then have cr: "canonicalizeround False 100000000000000001 (- 16) True = (1000000000000000, - 14)"
    by (simp add: canonicalizeround_def cmaxvalue_def)
  have "mk_amount example_issue 1000000000000000 (- 14) False = Inr ?r"
    using mk_amount_canonical [of example_issue 1000000000000000 "- 14" False] example_issue_iou
    by (simp add: canonical_def amt_isnative_iff mk_unchecked_def cminvalue_def cmaxvalue_def cminoffset_def cmaxoffset_def)
  then have "mulround nat_bn ?a ?b example_issue True = Inr ?r"
    using example_issue_iou cr
    by (simp add: mulround_def operand_def iou_example_simps bn_check_def bn_result_def nat_bn_def bytes_of_le
        tento14_def tento14m1_def bn_add_unchecked_def)
  moreover have P: "p10 (- 14) = 1 / 10 ^ 14" "p10 (- 15) = 1 / 10 ^ 15"
    using p10_minus_mult [of 14] p10_nat [of 14] p10_minus_mult [of 15] p10_nat [of 15] by (simp_all add: field_simps)
  have "amt_val ?r < amt_val ?a * amt_val ?b"
    by (simp add: amt_val_def iou_example_simps magnitude_def mk_unchecked_def P)
  with calculation show ?thesis by blast
qed

end
