(* ===== verification/Quality.thy ===== *)
theory Quality
  imports Amount_Rounding
begin

text \<open>
  Exchange rates as 64-bit integers (\<^verbatim>\<open>getRate\<close>, \<^verbatim>\<open>amountFromQuality\<close> of
  \<^verbatim>\<open>src/ripple/protocol/impl/STAmount.cpp\<close>) and the quality of offers
  (\<^verbatim>\<open>src/ripple/app/book/Quality.h\<close>, \<^verbatim>\<open>src/ripple/app/book/impl/Quality.cpp\<close>,
  \<^verbatim>\<open>src/ripple/app/book/Amounts.h\<close>). A rate is stored with its exponent in the top byte and its
  mantissa below, so that the order of the integers is the order of the rates.
\<close>

section \<open>Qualities\<close>

record amounts =
  amounts_in :: stamount
  amounts_out :: stamount

type_synonym quality = u64

definition amounts_empty :: "amounts \<Rightarrow> bool" where
  "amounts_empty a \<longleftrightarrow> signum (amounts_in a) \<le> 0 \<or> signum (amounts_out a) \<le> 0"

definition quality_of_amounts :: "'b bn_lib \<Rightarrow> amounts \<Rightarrow> quality res" where
  "quality_of_amounts lib a = getrate lib (amounts_out a) (amounts_in a)"

definition quality_inc :: "quality \<Rightarrow> quality res" where
  "quality_inc q = (if q > 0 then Inr (q - 1) else Inl Assertion_failed)"

definition quality_dec :: "quality \<Rightarrow> quality res" where
  "quality_dec q = (if q < - 1 then Inr (q + 1) else Inl Assertion_failed)"

definition quality_rate :: "quality \<Rightarrow> stamount res" where
  "quality_rate q = amountfromquality q"

definition quality_less :: "quality \<Rightarrow> quality \<Rightarrow> bool" where
  "quality_less l r \<longleftrightarrow> l > r"

definition ceil_in :: "'b bn_lib \<Rightarrow> quality \<Rightarrow> amounts \<Rightarrow> stamount \<Rightarrow> amounts res" where
  "ceil_in lib q amt limit =
     rbind (amt_greater (amounts_in amt) limit) (\<lambda>over.
       if over then
         rbind (quality_rate q) (\<lambda>rt.
         rbind (divround lib limit rt (missue (amounts_out amt)) True) (\<lambda>out0.
         rbind (amt_greater out0 (amounts_out amt)) (\<lambda>clamp.
           let result = \<lparr>amounts_in = limit, amounts_out = if clamp then amounts_out amt else out0\<rparr>
           in if amt_eq (amounts_in result) limit then Inr result else Inl Assertion_failed)))
       else
         rbind (amt_leq (amounts_in amt) limit) (\<lambda>ok.
           if ok then Inr amt else Inl Assertion_failed))"

definition ceil_out :: "'b bn_lib \<Rightarrow> quality \<Rightarrow> amounts \<Rightarrow> stamount \<Rightarrow> amounts res" where
  "ceil_out lib q amt limit =
     rbind (amt_greater (amounts_out amt) limit) (\<lambda>over.
       if over then
         rbind (quality_rate q) (\<lambda>rt.
         rbind (mulround lib limit rt (missue (amounts_in amt)) True) (\<lambda>in0.
         rbind (amt_greater in0 (amounts_in amt)) (\<lambda>clamp.
           let result = \<lparr>amounts_in = if clamp then amounts_in amt else in0, amounts_out = limit\<rparr>
           in if amt_eq (amounts_out result) limit then Inr result else Inl Assertion_failed)))
       else
         rbind (amt_leq (amounts_out amt) limit) (\<lambda>ok.
           if ok then Inr amt else Inl Assertion_failed))"

definition composed_quality :: "'b bn_lib \<Rightarrow> quality \<Rightarrow> quality \<Rightarrow> quality res" where
  "composed_quality lib lhs rhs =
     rbind (quality_rate lhs) (\<lambda>lhs_rate.
       if amt_is_zero lhs_rate then Inl Assertion_failed
       else
         rbind (quality_rate rhs) (\<lambda>rhs_rate.
           if amt_is_zero rhs_rate then Inl Assertion_failed
           else
             rbind (mulround lib lhs_rate rhs_rate (missue lhs_rate) True) (\<lambda>rt.
               let stored_exponent = u64_of_int (moffset rt + 100)
               in if stored_exponent > 0 \<and> stored_exponent \<le> 255
                  then Inr (push_bit (64 - 8) stored_exponent OR mvalue rt)
                  else Inl Assertion_failed)))"

section \<open>The integer form of a rate\<close>

definition rate_code :: "u64 \<Rightarrow> int \<Rightarrow> u64" where
  "rate_code m e = push_bit (64 - 8) (u64_of_int (e + 100)) OR m"

lemma rate_code_fields:
  assumes "unat m < 2 ^ 56" "0 \<le> e + 100" "e + 100 < 256"
  shows "unat (rate_code m e) = nat (e + 100) * 2 ^ 56 + unat m"
    and "rate_code m e AND NOT (push_bit (64 - 8) 255) = m"
    and "uint (drop_bit (64 - 8) (rate_code m e)) - 100 = e"
proof -
  let ?k = "u64_of_int (e + 100)"
  have uk: "uint ?k = e + 100" using assms(2,3) by (intro uint_u64_of_int) auto
  have uk8: "unat ?k < 2 ^ 8" "unat ?k = nat (e + 100)" using assms(2,3) by (simp_all add: unat_u64_of_int nat_less_iff)
  note b = small_bitD [OF _ uk8(1)] small_bitD [OF _ assms(1)]
  have c: "(255 :: u64) = mask 8" by (simp add: mask_eq_exp_minus_1)
  show "rate_code m e AND NOT (push_bit (64 - 8) 255) = m"
    unfolding c by (rule bit_word_eqI) (auto simp: rate_code_def bit_simps dest: b)
  have "drop_bit (64 - 8) (rate_code m e) = ?k"
    by (rule bit_word_eqI) (auto simp: rate_code_def bit_simps dest: b)
  then show "uint (drop_bit (64 - 8) (rate_code m e)) - 100 = e" by (simp only: uk)
  have "rate_code m e = push_bit (64 - 8) ?k + m"
    unfolding rate_code_def by (intro disjunctive_add [symmetric]) (auto simp: bit_simps dest: b)
  moreover have "unat (push_bit (64 - 8) ?k) = nat (e + 100) * 2 ^ 56"
    using uk8 by (simp add: unsigned_push_bit_eq push_bit_eq_mult [where 'a = nat] take_bit_nat_eq_self)
  moreover have "nat (e + 100) * 2 ^ 56 + unat m < 2 ^ 64"
    using assms by (simp add: nat_less_iff)
  ultimately show "unat (rate_code m e) = nat (e + 100) * 2 ^ 56 + unat m"
    by (simp add: unat_word_ariths)
qed

lemma noissue_iou [simp]: "\<not> isnative (currency noissue)"
  by (simp add: noissue_def isnative_def isxrp_def isvbc_def special_defs)

text \<open>Rates are positive canonical amounts of no issue.\<close>

definition is_rate :: "stamount \<Rightarrow> bool" where
  "is_rate r \<longleftrightarrow> canonical r \<and> missue r = noissue \<and> \<not> misnative r \<and> \<not> misnegative r \<and> mvalue r \<noteq> 0"

lemma canonical_rate_fields:
  assumes "canonical r" "\<not> misnative r" "mvalue r \<noteq> 0"
  shows "unat (mvalue r) < 2 ^ 56" "0 \<le> moffset r + 100" "moffset r + 100 < 256" "rate_code (mvalue r) (moffset r) \<noteq> 0"
proof -
  have r: "- 96 \<le> moffset r" "moffset r \<le> 80" using canonical_iou(3) [OF assms] by auto
  have m: "10 ^ 15 \<le> unat (mvalue r)" "unat (mvalue r) < 10 ^ 16" using canonical_range [OF assms] by auto
  show f: "unat (mvalue r) < 2 ^ 56" "0 \<le> moffset r + 100" "moffset r + 100 < 256" using r m(2) by auto
  show "rate_code (mvalue r) (moffset r) \<noteq> 0"
    using rate_code_fields(1) [OF f] m(1) by (auto simp: unat_eq_zero)
qed

lemma amountfromquality_code:
  assumes "canonical r" "\<not> misnative r" "mvalue r \<noteq> 0"
  shows "amountfromquality (rate_code (mvalue r) (moffset r)) =
    Inr \<lparr>missue = noissue, mvalue = mvalue r, moffset = moffset r, misnative = False, misnegative = False\<rparr>"
proof -
  note f = canonical_rate_fields [OF assms] and c = canonical_iou(3) [OF assms]
  have "canonical \<lparr>missue = noissue, mvalue = mvalue r, moffset = moffset r, misnative = False, misnegative = False\<rparr>"
    using c assms(3) by (auto simp: canonical_def amt_isnative_iff cminoffset_def cmaxoffset_def)
  then have "mk_amount noissue (mvalue r) (moffset r) False =
      Inr \<lparr>missue = noissue, mvalue = mvalue r, moffset = moffset r, misnative = False, misnegative = False\<rparr>"
    using mk_amount_canonical [of noissue "mvalue r" "moffset r" False] by simp
  then show ?thesis
    unfolding amountfromquality_def rate_code_fields(2,3) [OF f(1-3)] using f(4) by simp
qed

lemma rate_code_order:
  assumes "canonical r" "\<not> misnative r" "mvalue r \<noteq> 0" "canonical t" "\<not> misnative t" "mvalue t \<noteq> 0"
  shows "rate_code (mvalue r) (moffset r) < rate_code (mvalue t) (moffset t) \<longleftrightarrow>
    magnitude (mvalue r) (moffset r) < magnitude (mvalue t) (moffset t)"
proof -
  note fr = canonical_rate_fields [OF assms(1-3)] and ft = canonical_rate_fields [OF assms(4-6)]
  have lex: "rate_code (mvalue r) (moffset r) < rate_code (mvalue t) (moffset t)"
    if "canonical r" "\<not> misnative r" "mvalue r \<noteq> 0" "canonical t" "\<not> misnative t" "mvalue t \<noteq> 0"
      "moffset r < moffset t \<or> moffset r = moffset t \<and> mvalue r < mvalue t" for r t
  proof -
    note fr = canonical_rate_fields [OF that(1-3)] and ft = canonical_rate_fields [OF that(4-6)]
    have "nat (moffset r + 100) * 2 ^ 56 + unat (mvalue r) < nat (moffset t + 100) * 2 ^ 56 + unat (mvalue t)"
    proof (cases "moffset r < moffset t")
      case True
      then have "Suc (nat (moffset r + 100)) \<le> nat (moffset t + 100)" using fr(2) by simp
      then have "Suc (nat (moffset r + 100)) * 2 ^ 56 \<le> nat (moffset t + 100) * 2 ^ 56" by (rule mult_le_mono1)
      then show ?thesis using fr(1) by simp
    next
      case False
      then show ?thesis using that(7) by (simp add: word_less_nat_alt)
    qed
    then show ?thesis
      unfolding word_less_nat_alt rate_code_fields(1) [OF fr(1-3)] rate_code_fields(1) [OF ft(1-3)] .
  qed
  consider "moffset r < moffset t \<or> moffset r = moffset t \<and> mvalue r < mvalue t"
    | "moffset t < moffset r \<or> moffset t = moffset r \<and> mvalue t < mvalue r"
    | "moffset r = moffset t" "mvalue r = mvalue t"
    using less_linear [of "moffset r" "moffset t"] less_linear [of "mvalue r" "mvalue t"] by metis
  then show ?thesis
  proof cases
    case 1
    then show ?thesis
      using lex [OF assms 1] canonical_magnitude_less [OF assms(1,4) _ assms(3,6) 1] assms(2,5) by simp
  next
    case 2
    then show ?thesis
      using lex [OF assms(4-6,1-3) 2] canonical_magnitude_less [OF assms(4,1) _ assms(6,3) 2] assms(2,5) by auto
  next
    case 3
    then show ?thesis by simp
  qed
qed

lemma getrate_cases:
  assumes "bn_spec lib val" "arith_ok offerout" "arith_ok offerin"
  defines "x \<equiv> \<bar>amt_val offerin / amt_val offerout\<bar>"
  obtains
    (worthless) "getrate lib offerout offerin = Inr 0"
      "x < p10 (- 81) \<or> p10 96 \<le> x * (1 + 1 / 10 ^ 14)"
  | (rate) r where "getrate lib offerout offerin = Inr (rate_code (mvalue r) (moffset r))"
      "divide lib offerin offerout noissue = Inr r"
      "canonical r" "\<not> misnative r" "mvalue r \<noteq> 0"
      "\<bar>magnitude (mvalue r) (moffset r) - x\<bar> < p10 (moffset r)"
proof -
  have acc: "accurate noissue (amt_val offerin / amt_val offerout) (divide lib offerin offerout noissue)"
    by (rule divide_within_ulp [OF assms(1,3,2) noissue_iou])
  have nz: "\<not> amt_is_zero offerout" using assms(2) by (simp add: arith_ok_def)
  show thesis
  proof (cases "divide lib offerin offerout noissue")
    case (Inl e)
    then show thesis using acc nz by (intro worthless) (auto simp: getrate_def accurate_def x_def)
  next
    case (Inr r)
    show thesis
    proof (cases "mvalue r = 0")
      case True
      then show thesis using acc nz Inr by (intro worthless) (auto simp: getrate_def accurate_def x_def)
    next
      case False
      then have c: "canonical r" "\<not> misnative r" "\<bar>amt_val r - amt_val offerin / amt_val offerout\<bar> < p10 (moffset r)"
        using acc Inr by (auto simp: accurate_def)
      note f = canonical_iou(3) [OF c(1,2) False]
      have "\<bar>\<bar>amt_val r\<bar> - x\<bar> < p10 (moffset r)" using c(3) unfolding x_def by linarith
      then show thesis
        using nz Inr False c f by (intro rate [of r]) (auto simp: getrate_def rate_code_def arith_ok_val)
    qed
  qed
qed

section \<open>Properties\<close>



text \<open>
  C27. The order of the stored integers is the order of the rates: of two offers whose amounts are
  canonical, not zero and have at most sixteen digits, and whose rates are representable (\<^verbatim>\<open>getRate\<close> is
  not 0), the one with the smaller integer has the smaller rate, which \<^verbatim>\<open>Quality::operator<\<close> calls the
  higher quality; equal rates have equal integers. Offer books sorted by this integer are sorted by
  rate.
\<close>

theorem quality_order_is_rate_order:
  assumes "bn_spec lib val" "arith_ok out1" "arith_ok in1" "arith_ok out2" "arith_ok in2"
    and "getrate lib out1 in1 = Inr q1" "getrate lib out2 in2 = Inr q2" "q1 \<noteq> 0" "q2 \<noteq> 0"
  shows "\<exists>r1 r2. quality_rate q1 = Inr r1 \<and> quality_rate q2 = Inr r2 \<and>
    (quality_less q1 q2 \<longleftrightarrow> amt_val r2 < amt_val r1) \<and> (q1 = q2 \<longleftrightarrow> amt_val r1 = amt_val r2)"
proof -
  obtain r1 where r1: "q1 = rate_code (mvalue r1) (moffset r1)" "canonical r1" "\<not> misnative r1" "mvalue r1 \<noteq> 0"
    using assms(6,8) by (cases rule: getrate_cases [OF assms(1-3)]) auto
  obtain r2 where r2: "q2 = rate_code (mvalue r2) (moffset r2)" "canonical r2" "\<not> misnative r2" "mvalue r2 \<noteq> 0"
    using assms(7,9) by (cases rule: getrate_cases [OF assms(1,4,5)]) auto
  have "q2 < q1 \<longleftrightarrow> magnitude (mvalue r2) (moffset r2) < magnitude (mvalue r1) (moffset r1)"
    "q1 < q2 \<longleftrightarrow> magnitude (mvalue r1) (moffset r1) < magnitude (mvalue r2) (moffset r2)"
    unfolding r1(1) r2(1) by (rule rate_code_order; use r1 r2 in simp)+
  then have "(quality_less q1 q2 \<longleftrightarrow> magnitude (mvalue r2) (moffset r2) < magnitude (mvalue r1) (moffset r1)) \<and>
      (q1 = q2 \<longleftrightarrow> magnitude (mvalue r1) (moffset r1) = magnitude (mvalue r2) (moffset r2))"
    unfolding quality_less_def by (metis less_linear less_irrefl)
  then show ?thesis
    using amountfromquality_code [OF r1(2-4)] amountfromquality_code [OF r2(2-4)]
    unfolding r1(1) [symmetric] r2(1) [symmetric] by (simp add: quality_rate_def amt_val_def)
qed

lemma getrate_example:
  "getrate nat_bn (iou_example 1000000000000000) (iou_example 2000000000000000) =
     Inr (rate_code 2000000000000000 (- 15))"
  "getrate nat_bn (iou_example 1000000000000000) (iou_example 1000000000000000) =
     Inr (rate_code 1000000000000000 (- 15))"
proof -
  have mk: "mk_amount noissue v (- 17) False =
      Inr \<lparr>missue = noissue, mvalue = w, moffset = - 15, misnative = False, misnegative = False\<rparr>"
    if "scale_down v (- 17) = Inr (w, - 15)" "cminvalue \<le> w" "w \<le> cmaxvalue" "cminvalue \<le> v" for v w
  proof -
    have "v \<noteq> 0" "w \<noteq> 0" using that by (auto simp: cminvalue_def)
    then show ?thesis
      using that
      by (auto simp: mk_amount_def canonicalize_def canonicalize_iou_def mk_unchecked_def amt_isnative_iff
          scale_stop cminoffset_def cmaxoffset_def not_less [symmetric])
  qed
  have sd: "scale_down 200000000000000005 (- 17) = Inr (2000000000000000, - 15)"
    "scale_down 100000000000000005 (- 17) = Inr (1000000000000000, - 15)"
    by (simp_all add: scale_down.simps cmaxvalue_def cmaxoffset_def)
  note m = mk [OF sd(1)] mk [OF sd(2)]
  show "getrate nat_bn (iou_example 1000000000000000) (iou_example 2000000000000000) =
      Inr (rate_code 2000000000000000 (- 15))"
    "getrate nat_bn (iou_example 1000000000000000) (iou_example 1000000000000000) =
      Inr (rate_code 1000000000000000 (- 15))"
    using m
    by (simp_all add: getrate_def divide_def operand_def iou_example_simps bn_check_def bn_result_def nat_bn_def
        bytes_of_le tento17_def tento14_def rate_code_def cminvalue_def cmaxvalue_def)
qed

theorem quality_order_is_rate_order_witness:
  "\<exists>r1 r2. quality_rate (rate_code 2000000000000000 (- 15)) = Inr r1 \<and>
     quality_rate (rate_code 1000000000000000 (- 15)) = Inr r2 \<and> amt_val r2 < amt_val r1 \<and>
     quality_less (rate_code 2000000000000000 (- 15)) (rate_code 1000000000000000 (- 15))"
proof -
  let ?q1 = "rate_code 2000000000000000 (- 15)" and ?q2 = "rate_code 1000000000000000 (- 15)"
  have ok: "arith_ok (iou_example 1000000000000000)" "arith_ok (iou_example 2000000000000000)"
    by (simp_all add: iou_example_arith cminvalue_def cmaxvalue_def)
  have "unat (2000000000000000 :: u64) < 2 ^ 56" "unat (1000000000000000 :: u64) < 2 ^ 56" by simp_all
  then have u: "unat ?q1 = 85 * 2 ^ 56 + 2000000000000000" "unat ?q2 = 85 * 2 ^ 56 + 1000000000000000"
    by (subst rate_code_fields(1); simp)+
  then have "?q1 \<noteq> 0" "?q2 \<noteq> 0" "quality_less ?q1 ?q2" by (auto simp: quality_less_def word_less_nat_alt)
  then show ?thesis
    using quality_order_is_rate_order [OF bn_spec_nat ok ok(1,1) getrate_example] by blast
qed

text \<open>The part of an offer that corresponds to a limit: \<open>x\<close> up to one unit in the last place, and never
  more than the whole of it\<close>

definition capped :: "rat \<Rightarrow> stamount \<Rightarrow> stamount \<Rightarrow> bool" where
  "capped x full got \<longleftrightarrow>
     (\<exists>p. accurate (missue full) x (Inr p) \<and> got = (if amt_val full < amt_val p then full else p))"

lemma canonical_misnative: "canonical a \<Longrightarrow> misnative a \<longleftrightarrow> isnative (currency (missue a))"
  by (simp add: canonical_def amt_isnative_iff)

lemma amt_greater_val:
  "canonical a \<Longrightarrow> canonical b \<Longrightarrow> iscomparable a b \<Longrightarrow>
     amt_greater a b = Inr (amt_val b < amt_val a) \<and> amt_leq a b = Inr (amt_val a \<le> amt_val b)"
  using amt_compare_less [of a b] iscomparable_native [of a b]
  by (simp add: amt_greater_def amt_leq_def throwcomparable_def) linarith

lemma positive_nonneg: "0 < amt_val a \<Longrightarrow> \<not> misnegative a \<and> mvalue a \<noteq> 0"
  using magnitude_pos [of "mvalue a" "moffset a"] by (cases "mvalue a = 0") (auto simp: amt_val_def split: if_splits)

lemma accurate_greater:
  assumes "canonical full" "\<not> isnative (currency (missue full))" "0 < amt_val full"
    and "accurate (missue full) x (Inr p)" "\<not> misnegative p"
  shows "amt_greater p full = Inr (amt_val full < amt_val p)"
proof -
  have n: "\<not> misnative full" "\<not> misnative p" "missue p = missue full"
    using assms(1,2,4) canonical_misnative by (auto simp: accurate_def)
  then have c: "iscomparable p full" by (simp add: iscomparable_def)
  show ?thesis
  proof (cases "mvalue p = 0")
    case True
    then have "amt_val p = 0" "mvalue full \<noteq> 0" "\<not> misnegative full"
      using positive_nonneg [OF assms(3)] by (simp_all add: amt_val_def)
    then show ?thesis
      using amt_compare_zero(1) [OF True assms(5), of full] assms(3) c
      by (simp add: amt_greater_def throwcomparable_def)
  next
    case False
    then have "canonical p" using assms(4) by (simp add: accurate_def)
    then show ?thesis using amt_greater_val [OF _ assms(1) c] by simp
  qed
qed

lemma rate_arith_ok: "is_rate rt \<Longrightarrow> arith_ok rt"
  using canonical_range [of rt] by (simp add: is_rate_def arith_ok_def)

lemma ceil_in_over:
  assumes "bn_spec lib val" "canonical (amounts_in amt)" "canonical (amounts_out amt)" "0 < amt_val (amounts_out amt)"
    "\<not> isnative (currency (missue (amounts_out amt)))"
    "arith_ok limit" "0 < amt_val limit" "quality_rate q = Inr rt" "is_rate rt"
    "iscomparable (amounts_in amt) limit" "amt_val limit < amt_val (amounts_in amt)"
  shows "case ceil_in lib q amt limit of
      Inl e \<Rightarrow> e = Runtime_error ''value overflow'' \<and> p10 96 \<le> \<bar>amt_val limit / amt_val rt\<bar> * (1 + 1 / 10 ^ 14)
    | Inr r \<Rightarrow> amounts_in r = limit \<and> capped (amt_val limit / amt_val rt) (amounts_out amt) (amounts_out r)"
proof -
  let ?d = "divround lib limit rt (missue (amounts_out amt)) True"
  have sg: "misnegative limit = misnegative rt" using positive_nonneg [OF assms(7)] assms(9) by (simp add: is_rate_def)
  note acc = divround_up_within_ulp [OF assms(1,6) rate_arith_ok [OF assms(9)] assms(5) sg]
  have over: "amt_greater (amounts_in amt) limit = Inr True"
    using amt_greater_val [OF assms(2) _ assms(10)] assms(6,11) by (simp add: arith_ok_def)
  show ?thesis
  proof (cases ?d)
    case (Inl e)
    then have "ceil_in lib q amt limit = Inl e" by (simp add: ceil_in_def over assms(8))
    then show ?thesis using acc(1) Inl by (simp add: accurate_def)
  next
    case (Inr p)
    have a: "accurate (missue (amounts_out amt)) (amt_val limit / amt_val rt) (Inr p)" using acc(1) Inr by simp
    have "ceil_in lib q amt limit = Inr \<lparr>amounts_in = limit,
        amounts_out = if amt_val (amounts_out amt) < amt_val p then amounts_out amt else p\<rparr>"
      using accurate_greater [OF assms(3,5,4) a acc(2) [OF Inr]]
      by (simp add: ceil_in_def over assms(8) Inr amt_eq_def iscomparable_def Let_def)
    then show ?thesis using a by (auto simp: capped_def)
  qed
qed

lemma ceil_out_over:
  assumes "bn_spec lib val" "canonical (amounts_in amt)" "canonical (amounts_out amt)" "0 < amt_val (amounts_in amt)"
    "\<not> isnative (currency (missue (amounts_in amt)))"
    "arith_ok limit" "0 < amt_val limit" "quality_rate q = Inr rt" "is_rate rt"
    "iscomparable (amounts_out amt) limit" "amt_val limit < amt_val (amounts_out amt)"
  shows "case ceil_out lib q amt limit of
      Inl e \<Rightarrow> e = Runtime_error ''value overflow'' \<and> p10 96 \<le> \<bar>amt_val limit * amt_val rt\<bar> * (1 + 1 / 10 ^ 14)
    | Inr r \<Rightarrow> amounts_out r = limit \<and> capped (amt_val limit * amt_val rt) (amounts_in amt) (amounts_in r)"
proof -
  let ?d = "mulround lib limit rt (missue (amounts_in amt)) True"
  have sg: "misnegative limit = misnegative rt" using positive_nonneg [OF assms(7)] assms(9) by (simp add: is_rate_def)
  note acc = mulround_up_within_ulp [OF assms(1,6) rate_arith_ok [OF assms(9)] assms(5) sg]
  have over: "amt_greater (amounts_out amt) limit = Inr True"
    using amt_greater_val [OF assms(3) _ assms(10)] assms(6,11) by (simp add: arith_ok_def)
  show ?thesis
  proof (cases ?d)
    case (Inl e)
    then have "ceil_out lib q amt limit = Inl e" by (simp add: ceil_out_def over assms(8))
    then show ?thesis using acc(1) Inl by (simp add: accurate_def)
  next
    case (Inr p)
    have a: "accurate (missue (amounts_in amt)) (amt_val limit * amt_val rt) (Inr p)" using acc(1) Inr by simp
    have "ceil_out lib q amt limit = Inr \<lparr>amounts_in = if amt_val (amounts_in amt) < amt_val p then amounts_in amt else p,
        amounts_out = limit\<rparr>"
      using accurate_greater [OF assms(2,5,4) a acc(2) [OF Inr]]
      by (simp add: ceil_out_def over assms(8) Inr amt_eq_def iscomparable_def Let_def)
    then show ?thesis using a by (auto simp: capped_def)
  qed
qed

lemma ceil_within:
  assumes "canonical limit"
  shows "canonical (amounts_in amt) \<Longrightarrow> iscomparable (amounts_in amt) limit \<Longrightarrow>
      amt_val (amounts_in amt) \<le> amt_val limit \<Longrightarrow> ceil_in lib q amt limit = Inr amt"
    and "canonical (amounts_out amt) \<Longrightarrow> iscomparable (amounts_out amt) limit \<Longrightarrow>
      amt_val (amounts_out amt) \<le> amt_val limit \<Longrightarrow> ceil_out lib q amt limit = Inr amt"
  using amt_greater_val [OF _ assms] by (simp_all add: ceil_in_def ceil_out_def)

text \<open>
  C26. Capping an offer keeps its rate. Take an offer of positive canonical amounts, a quality that
  stands for a rate, and a positive limit with at most sixteen digits that is comparable with the
  capped side. If that side is within the limit, \<^verbatim>\<open>ceil_in\<close> and \<^verbatim>\<open>ceil_out\<close> return the offer unchanged.
  If it is above, the capped side becomes the limit, and the other side, when it is not native, becomes
  the limit divided by the rate (for \<^verbatim>\<open>ceil_in\<close>) or multiplied by it (for \<^verbatim>\<open>ceil_out\<close>) up to one unit in
  the last place, or stays the whole of the offer's side where that is less. The only exception thrown
  is the overflow exception, and only if the exact value reaches \<open>10^96\<close> up to a relative error of \<open>10^(-14)\<close>.
\<close>

theorem ceil_follows_rate:
  assumes "bn_spec lib val" "canonical (amounts_in amt)" "canonical (amounts_out amt)"
    "0 < amt_val (amounts_in amt)" "0 < amt_val (amounts_out amt)"
    "arith_ok limit" "0 < amt_val limit" "quality_rate q = Inr rt" "is_rate rt"
  shows "(iscomparable (amounts_in amt) limit \<longrightarrow>
      (amt_val (amounts_in amt) \<le> amt_val limit \<longrightarrow> ceil_in lib q amt limit = Inr amt) \<and>
      (amt_val limit < amt_val (amounts_in amt) \<and> \<not> isnative (currency (missue (amounts_out amt))) \<longrightarrow>
        (case ceil_in lib q amt limit of
           Inl e \<Rightarrow> e = Runtime_error ''value overflow'' \<and>
             p10 96 \<le> \<bar>amt_val limit / amt_val rt\<bar> * (1 + 1 / 10 ^ 14)
         | Inr r \<Rightarrow> amounts_in r = limit \<and>
             capped (amt_val limit / amt_val rt) (amounts_out amt) (amounts_out r)))) \<and>
    (iscomparable (amounts_out amt) limit \<longrightarrow>
      (amt_val (amounts_out amt) \<le> amt_val limit \<longrightarrow> ceil_out lib q amt limit = Inr amt) \<and>
      (amt_val limit < amt_val (amounts_out amt) \<and> \<not> isnative (currency (missue (amounts_in amt))) \<longrightarrow>
        (case ceil_out lib q amt limit of
           Inl e \<Rightarrow> e = Runtime_error ''value overflow'' \<and>
             p10 96 \<le> \<bar>amt_val limit * amt_val rt\<bar> * (1 + 1 / 10 ^ 14)
         | Inr r \<Rightarrow> amounts_out r = limit \<and>
             capped (amt_val limit * amt_val rt) (amounts_in amt) (amounts_in r))))"
proof -
  have "canonical limit" using assms(6) by (simp add: arith_ok_def)
  then show ?thesis
    using ceil_within [of limit amt lib q] ceil_in_over [OF assms(1-3,5) _ assms(6-9)]
      ceil_out_over [OF assms(1-4) _ assms(6-9)] assms(2,3) by blast
qed

theorem ceil_follows_rate_witness:
  "\<exists>r. ceil_in nat_bn (rate_code 2000000000000000 (- 15))
      \<lparr>amounts_in = mk_native_u64 False 4 False, amounts_out = iou_example 3000000000000000\<rparr>
      (mk_native_u64 False 2 False) = Inr r \<and>
     amounts_in r = mk_native_u64 False 2 False \<and> capped 1 (iou_example 3000000000000000) (amounts_out r)"
proof -
  let ?o = "iou_example 3000000000000000" and ?i = "mk_native_u64 False 4 False" and ?l = "mk_native_u64 False 2 False"
  let ?a = "\<lparr>amounts_in = ?i, amounts_out = ?o\<rparr>" and ?q = "rate_code 2000000000000000 (- 15)"
  let ?r = "\<lparr>missue = noissue, mvalue = 2000000000000000, moffset = - 15, misnative = False, misnegative = False\<rparr>"
  have c: "canonical ?i" "canonical ?l"
    by (simp_all add: canonical_def amt_isnative_iff mk_native_u64_def mk_unchecked_def native_issue_def
        cmaxnativen_def xrpissue_def special_defs isnative_def isxrp_def)
  have o: "canonical ?o" using iou_example_arith [of 3000000000000000] by (simp add: arith_ok_def cminvalue_def cmaxvalue_def)
  have l: "arith_ok ?l" using c(2) by (simp add: arith_ok_def mk_native_u64_def mk_unchecked_def)
  have v: "amt_val ?i = 4" "amt_val ?l = 2" "0 < amt_val ?o"
    by (simp_all add: amt_val_def magnitude_def mk_native_u64_def mk_unchecked_def iou_example_simps)
  have P: "p10 (- 15) = 1 / 10 ^ 15" using p10_minus_mult [of 15] p10_nat [of 15] by (simp add: field_simps)
  have rv: "amt_val ?r = 2" by (simp add: amt_val_def magnitude_def P)
  have r: "is_rate ?r"
    by (simp add: is_rate_def canonical_def amt_isnative_iff cminvalue_def cmaxvalue_def cminoffset_def cmaxoffset_def)
  then have q: "quality_rate ?q = Inr ?r"
    using amountfromquality_code [of ?r] by (simp add: quality_rate_def is_rate_def)
  have n: "\<not> isnative (currency (missue ?o))" "iscomparable ?i ?l"
    using example_issue_iou by (simp_all add: iou_example_simps iscomparable_def mk_native_u64_def mk_unchecked_def)
  have "case ceil_in nat_bn ?q ?a ?l of
      Inl e \<Rightarrow> p10 96 \<le> (1 :: rat) * (1 + 1 / 10 ^ 14) | Inr r \<Rightarrow> amounts_in r = ?l \<and> capped 1 ?o (amounts_out r)"
    using ceil_follows_rate [OF bn_spec_nat, of ?a ?l ?q ?r] c o l v rv r q n by (auto split: sum.splits)
  moreover have "\<not> p10 96 \<le> (1 :: rat) * (1 + 1 / 10 ^ 14)" using p10_nat [of 96] by simp
  ultimately show ?thesis by (cases "ceil_in nat_bn ?q ?a ?l") auto
qed

end
