(* ===== verification/Range_Set.thy ===== *)
theory Range_Set
  imports Prelude
begin

text \<open>
  The sparse set of ledger sequence numbers: \<^verbatim>\<open>src/ripple/basics/RangeSet.h\<close> and
  \<^verbatim>\<open>src/ripple/basics/impl/RangeSet.cpp\<close>. The \<^verbatim>\<open>std::map\<close> from the first to the last number of each
  range is a list of pairs sorted by the first component. A failed \<^verbatim>\<open>assert\<close> of
  \<^verbatim>\<open>checkInternalConsistency\<close> is \<open>Assertion_failed\<close>. The abstraction is the set of numbers covered; the
  operations are shown to be the set operations on it.
\<close>

section \<open>Successor and predecessor of 32-bit words\<close>

lemma unat_plus_1: "b < c \<Longrightarrow> unat (b + 1) = unat b + 1" for b c :: u32
proof -
  assume "b < c"
  moreover have "unat c < 2 ^ LENGTH(32)" by (rule unsigned_less)
  ultimately show ?thesis by (simp add: unat_word_ariths word_less_nat_alt)
qed

lemma unat_minus_1: "a < c \<Longrightarrow> unat (c - 1) = unat c - 1" for a c :: u32
  by (rule unat_minus_one) auto

section \<open>Operations\<close>

type_synonym rangeset = "(u32 \<times> u32) list"

definition absent :: u32 where
  "absent = - 1"

text \<open>\<^verbatim>\<open>mRanges[k] = v\<close>\<close>

fun map_put :: "u32 \<Rightarrow> u32 \<Rightarrow> rangeset \<Rightarrow> rangeset" where
  "map_put k v [] = [(k, v)]"
| "map_put k v ((a, b) # xs) =
     (if k < a then (k, v) # (a, b) # xs
      else if k = a then (k, v) # xs
      else (a, b) # map_put k v xs)"

definition contains :: "u32 \<times> u32 \<Rightarrow> u32 \<Rightarrow> bool" where
  "contains it v \<longleftrightarrow> fst it \<le> v \<and> snd it \<ge> v"

fun hasvalue :: "rangeset \<Rightarrow> u32 \<Rightarrow> bool" where
  "hasvalue [] v = False"
| "hasvalue (it # xs) v = (if contains it v then True else hasvalue xs v)"

fun getfirst :: "rangeset \<Rightarrow> u32" where
  "getfirst [] = absent"
| "getfirst (it # xs) = fst it"

fun getnext :: "rangeset \<Rightarrow> u32 \<Rightarrow> u32" where
  "getnext [] v = absent"
| "getnext (it # xs) v =
     (if fst it > v then fst it else if contains it (v + 1) then v + 1 else getnext xs v)"

definition getlast :: "rangeset \<Rightarrow> u32" where
  "getlast xs = (if xs = [] then absent else snd (last xs))"

fun getprev_rev :: "rangeset \<Rightarrow> u32 \<Rightarrow> u32" where
  "getprev_rev [] v = absent"
| "getprev_rev (it # xs) v =
     (if snd it < v then snd it else if contains it (v + 1) then v - 1 else getprev_rev xs v)"

definition getprev :: "rangeset \<Rightarrow> u32 \<Rightarrow> u32" where
  "getprev xs v = getprev_rev (rev xs) v"

fun checkinternalconsistency :: "rangeset \<Rightarrow> bool" where
  "checkinternalconsistency [] = True"
| "checkinternalconsistency [(a, b)] = (a \<le> b)"
| "checkinternalconsistency ((a, b) # (c, d) # xs) =
     (a \<le> b \<and> c \<le> d \<and> b + 1 < c \<and> (xs = [] \<or> checkinternalconsistency ((c, d) # xs)))"

definition checked :: "rangeset \<Rightarrow> rangeset res" where
  "checked xs = (if checkinternalconsistency xs then Inr xs else Inl Assertion_failed)"

fun prevmissing_rev :: "rangeset \<Rightarrow> u32 \<Rightarrow> u32" where
  "prevmissing_rev [] r = r"
| "prevmissing_rev (cur # xs) r = (if contains cur r then fst cur - 1 else prevmissing_rev xs r)"

definition prevmissing :: "rangeset \<Rightarrow> u32 \<Rightarrow> u32 res" where
  "prevmissing xs v =
     (if v = 0 then Inr absent
      else if \<not> checkinternalconsistency xs then Inl Assertion_failed
      else
        let result = prevmissing_rev (rev xs) (v - 1)
        in if result = absent \<or> \<not> hasvalue xs result then Inr result else Inl Assertion_failed)"

fun simplify :: "rangeset \<Rightarrow> rangeset" where
  "simplify ((a, b) # (c, d) # xs) =
     (if b \<ge> c - 1 then simplify ((a, max b d) # xs) else (a, b) # simplify ((c, d) # xs))"
| "simplify xs = xs"

definition setvalue :: "rangeset \<Rightarrow> u32 \<Rightarrow> rangeset res" where
  "setvalue xs v = (if \<not> hasvalue xs v then checked (simplify (map_put v v xs)) else Inr xs)"

text \<open>\<^verbatim>\<open>while (hasValue (minV)) { ++minV; if (minV >= maxV) return; }\<close>: \<open>None\<close> is the early return.\<close>

function skip_present :: "rangeset \<Rightarrow> u32 \<Rightarrow> u32 \<Rightarrow> u32 option" where
  "skip_present xs minv maxv =
     (if hasvalue xs minv
      then (if minv + 1 \<ge> maxv then None else skip_present xs (minv + 1) maxv)
      else Some minv)"
  by auto
termination
proof (relation "measure (\<lambda>(xs, minv, maxv). if minv < maxv then unat maxv - unat minv else 2 ^ 32)", simp)
  fix xs :: rangeset and minv maxv :: u32
  assume "\<not> maxv \<le> minv + 1"
  then have lt: "minv + 1 < maxv" by simp
  have "unat maxv < 2 ^ LENGTH(32)" by (rule unsigned_less)
  moreover have "unat (minv + 1) = unat minv + 1" if "minv < maxv"
    using that by (rule unat_plus_1)
  ultimately show "((xs, minv + 1, maxv), xs, minv, maxv)
      \<in> measure (\<lambda>(xs, minv, maxv). if minv < maxv then unat maxv - unat minv else 2 ^ 32)"
    using lt by (auto simp: word_less_nat_alt)
qed

declare skip_present.simps [simp del]

definition setrange :: "rangeset \<Rightarrow> u32 \<Rightarrow> u32 \<Rightarrow> rangeset res" where
  "setrange xs minv maxv =
     (case skip_present xs minv maxv of
        None \<Rightarrow> Inr xs
      | Some m \<Rightarrow> checked (simplify (map_put m maxv xs)))"

text \<open>The loop stops at the first range that contains the value; \<open>pre\<close> are the ranges before it.\<close>

fun clear_loop :: "rangeset \<Rightarrow> rangeset \<Rightarrow> u32 \<Rightarrow> rangeset option" where
  "clear_loop pre [] v = None"
| "clear_loop pre ((a, b) # xs) v =
     (if contains (a, b) v then
        Some (if a = v then
                (if b = v then pre @ xs else map_put (v + 1) b (pre @ xs))
              else if b = v then pre @ (a, b - 1) # xs
              else map_put (v + 1) b (pre @ (a, v - 1) # xs))
      else clear_loop (pre @ [(a, b)]) xs v)"

definition clearvalue :: "rangeset \<Rightarrow> u32 \<Rightarrow> rangeset res" where
  "clearvalue xs v = (case clear_loop [] xs v of None \<Rightarrow> Inr xs | Some ys \<Rightarrow> checked ys)"

section \<open>The set a list of ranges denotes\<close>

definition rs_set :: "rangeset \<Rightarrow> nat set" where
  "rs_set xs = (\<Union>(a, b)\<in>set xs. {unat a..unat b})"

lemma rs_set_simps [simp]:
  "rs_set [] = {}" "rs_set ((a, b) # xs) = {unat a..unat b} \<union> rs_set xs" "rs_set (xs @ ys) = rs_set xs \<union> rs_set ys"
  by (auto simp: rs_set_def)

text \<open>Every range ends after a lower bound \<open>l\<close>, is not empty and is separated from the next by a gap.\<close>

fun wf_from :: "nat \<Rightarrow> rangeset \<Rightarrow> bool" where
  "wf_from l [] = True"
| "wf_from l ((a, b) # xs) = (l \<le> unat a \<and> a \<le> b \<and> wf_from (unat b + 2) xs)"

abbreviation rs_wf :: "rangeset \<Rightarrow> bool" where
  "rs_wf \<equiv> wf_from 0"

lemma wf_from_mono: "wf_from l xs \<Longrightarrow> k \<le> l \<Longrightarrow> wf_from k xs"
  by (cases xs) auto

lemma wf_from_set: "wf_from l xs \<Longrightarrow> x \<in> rs_set xs \<Longrightarrow> l \<le> x"
  by (induction l xs rule: wf_from.induct) (force simp: word_le_nat_alt)+

lemma wf_from_append:
  "wf_from l (xs @ ys) \<longleftrightarrow> wf_from l xs \<and> wf_from (if xs = [] then l else unat (snd (last xs)) + 2) ys"
  by (induction l xs rule: wf_from.induct) auto

lemma wf_check: "wf_from l xs \<Longrightarrow> checkinternalconsistency xs"
proof (induction xs arbitrary: l rule: checkinternalconsistency.induct)
  case (3 a b c d xs)
  then have "unat b + 2 \<le> unat c" by simp
  then have "b < c" by (simp add: word_less_nat_alt)
  from unat_plus_1 [OF this] have "b + 1 < c" using \<open>unat b + 2 \<le> unat c\<close> by (simp add: word_less_nat_alt)
  then show ?case using 3 by auto
qed auto

lemma wf_checked: "rs_wf xs \<Longrightarrow> checked xs = Inr xs"
  by (simp add: checked_def wf_check)

lemma hasvalue_iff: "hasvalue xs v \<longleftrightarrow> unat v \<in> rs_set xs"
  by (induction xs) (auto simp: contains_def word_le_nat_alt)

section \<open>Inserting a range\<close>

text \<open>
  Between \<^verbatim>\<open>mRanges[k] = v\<close> and \<^verbatim>\<open>simplify\<close> the ranges are sorted by their first number but may touch
  or overlap.
\<close>

fun loose_from :: "nat \<Rightarrow> rangeset \<Rightarrow> bool" where
  "loose_from l [] = True"
| "loose_from l ((a, b) # xs) = (l \<le> unat a \<and> a \<le> b \<and> loose_from (unat a + 1) xs)"

lemma loose_mono: "loose_from l xs \<Longrightarrow> k \<le> l \<Longrightarrow> loose_from k xs"
  by (cases xs) auto

lemma wf_loose: "wf_from l xs \<Longrightarrow> loose_from l xs"
proof (induction l xs rule: wf_from.induct)
  case (2 l a b xs)
  then show ?case by (auto simp: word_le_nat_alt intro: loose_mono)
qed simp

lemma map_put_loose:
  "loose_from l xs \<Longrightarrow> l \<le> unat k \<Longrightarrow> k \<le> v \<Longrightarrow> loose_from l (map_put k v xs)"
  by (induction k v xs arbitrary: l rule: map_put.induct)
    (auto simp: word_less_nat_alt word_le_nat_alt word_unat_eq_iff intro: loose_mono)

lemma map_put_set:
  "wf_from l xs \<Longrightarrow> unat k \<notin> rs_set xs \<Longrightarrow> rs_set (map_put k v xs) = {unat k..unat v} \<union> rs_set xs"
  by (induction k v xs arbitrary: l rule: map_put.induct) (auto simp: word_le_nat_alt)

lemma map_put_not_Nil [simp]: "map_put k v xs \<noteq> []"
  by (induction k v xs rule: map_put.induct) auto

lemma simplify_spec:
  "loose_from l xs \<Longrightarrow> wf_from l (simplify xs) \<and> rs_set (simplify xs) = rs_set xs"
proof (induction xs arbitrary: l rule: simplify.induct)
  case (1 a b c d xs)
  then have h: "l \<le> unat a" "a \<le> b" "unat a + 1 \<le> unat c" "c \<le> d" "loose_from (unat c + 1) xs" by simp_all
  then have ac: "a < c" by (simp add: word_less_nat_alt)
  have c1: "unat (c - 1) = unat c - 1" using ac by (rule unat_minus_1)
  show ?case
  proof (cases "b \<ge> c - 1")
    case True
    then have bc: "unat c \<le> unat b + 1" by (simp add: word_le_nat_alt c1)
    have "loose_from l ((a, max b d) # xs)"
      using h by (auto simp: max_def intro: loose_mono)
    then have ih: "wf_from l (simplify ((a, max b d) # xs))"
      "rs_set (simplify ((a, max b d) # xs)) = rs_set ((a, max b d) # xs)"
      using "1.IH"(1) [OF True] by auto
    have "{unat a..unat (max b d)} = {unat a..unat b} \<union> {unat c..unat d}"
      using h ac bc by (auto simp: max_def word_le_nat_alt word_less_nat_alt)
    then show ?thesis using ih True by auto
  next
    case False
    then have "unat b + 2 \<le> unat c" using h(3) by (simp add: word_le_nat_alt c1)
    moreover from this have "loose_from (unat b + 2) ((c, d) # xs)" using h by simp
    ultimately show ?thesis using "1.IH"(2) [OF False] h False by auto
  qed
qed auto

lemma insert_range:
  assumes "rs_wf xs" "unat k \<notin> rs_set xs" "k \<le> v"
  shows "\<exists>ys. checked (simplify (map_put k v xs)) = Inr ys \<and> rs_wf ys \<and> rs_set ys = {unat k..unat v} \<union> rs_set xs"
  using simplify_spec [OF map_put_loose [OF wf_loose [OF assms(1)] _ assms(3)]] map_put_set [OF assms(1,2)]
  by (auto simp: wf_checked)

lemma skip_present_spec:
  assumes "minv \<le> maxv" "maxv \<noteq> absent"
  shows "case skip_present xs minv maxv of
      None \<Rightarrow> {unat minv..<unat maxv} \<subseteq> rs_set xs \<and> unat minv \<in> rs_set xs
    | Some m \<Rightarrow> minv \<le> m \<and> m \<le> maxv \<and> (m < maxv \<or> m = minv) \<and> unat m \<notin> rs_set xs \<and>
        {unat minv..<unat m} \<subseteq> rs_set xs"
  using assms
proof (induction xs minv maxv rule: skip_present.induct)
  case (1 xs minv maxv)
  show ?case
  proof (cases "hasvalue xs minv")
    case True
    have "maxv < absent" using 1(3) by (simp add: absent_def word_order.not_eq_extremum)
    then have "minv < absent" using 1(2) by simp
    then have u: "unat (minv + 1) = unat minv + 1" by (rule unat_plus_1)
    show ?thesis
    proof (cases "minv + 1 \<ge> maxv")
      case stop: True
      then have "{unat minv..<unat maxv} \<subseteq> {unat minv}" by (auto simp: word_le_nat_alt u)
      then show ?thesis using True stop by (auto simp: skip_present.simps [of xs minv maxv] hasvalue_iff)
    next
      case go: False
      then have r: "skip_present xs minv maxv = skip_present xs (minv + 1) maxv"
        using True by (simp add: skip_present.simps [of xs minv maxv])
      have "minv + 1 \<le> maxv" using go by simp
      note ih = "1.IH" [OF True go this 1(3)]
      have here: "unat minv \<in> rs_set xs" using True by (simp add: hasvalue_iff)
      have step: "{unat minv..<n} \<subseteq> rs_set xs" if "{unat (minv + 1)..<n} \<subseteq> rs_set xs" for n
      proof
        fix x assume "x \<in> {unat minv..<n}"
        then show "x \<in> rs_set xs" using here that by (cases "x = unat minv") (auto simp: u)
      qed
      have le: "minv \<le> m" if "minv + 1 \<le> m" for m using that by (simp add: word_le_nat_alt u)
      show ?thesis
      proof (cases "skip_present xs (minv + 1) maxv")
        case None
        then show ?thesis using ih here step unfolding r by simp
      next
        case (Some m)
        then show ?thesis using ih step le go unfolding r by auto
      qed
    qed
  next
    case False
    then show ?thesis using 1(2) by (simp add: skip_present.simps [of xs minv maxv] hasvalue_iff)
  qed
qed

section \<open>Removing a value\<close>

lemma wf_from_split:
  assumes "wf_from l (pre @ (a, b) # xs)"
  shows "wf_from l pre" "a \<le> b" "wf_from (unat b + 2) xs" "\<And>x. x \<in> rs_set pre \<Longrightarrow> x + 1 < unat a"
    "\<And>x. x \<in> rs_set xs \<Longrightarrow> unat b + 2 \<le> x" "wf_from l (pre @ xs)"
proof -
  show "wf_from l pre" "a \<le> b" "wf_from (unat b + 2) xs" using assms by (simp_all add: wf_from_append)
  then show "\<And>x. x \<in> rs_set xs \<Longrightarrow> unat b + 2 \<le> x" by (blast intro: wf_from_set)
  show "\<And>x. x \<in> rs_set pre \<Longrightarrow> x + 1 < unat a"
    using assms
  proof (induction l pre rule: wf_from.induct)
    case (2 l c d pre)
    then show ?case
      by (cases pre) (force simp: wf_from_append word_le_nat_alt)+
  qed simp
  show "wf_from l (pre @ xs)"
    using assms by (auto simp: wf_from_append word_le_nat_alt elim!: wf_from_mono split: if_splits)
qed

lemma map_put_wf:
  assumes "wf_from l (pre @ xs)" "k \<le> v" "wf_from (unat v + 2) xs" "l \<le> unat k" "\<And>x. x \<in> rs_set pre \<Longrightarrow> x + 1 < unat k"
  shows "map_put k v (pre @ xs) = pre @ (k, v) # xs"
  using assms
proof (induction pre arbitrary: l)
  case Nil
  then show ?case by (cases xs) (auto simp: word_less_nat_alt word_le_nat_alt)
next
  case (Cons p pre)
  obtain a b where p: "p = (a, b)" by fastforce
  have "unat a \<in> rs_set ((a, b) # pre)" using Cons.prems(1) p by (simp add: word_le_nat_alt)
  then have "unat a + 1 < unat k" using Cons.prems(5) p by blast
  moreover have "unat b \<in> rs_set ((a, b) # pre)" using Cons.prems(1) p by (simp add: word_le_nat_alt)
  then have "unat b + 1 < unat k" using Cons.prems(5) p by blast
  ultimately show ?case
    using Cons.IH [of "unat b + 2"] Cons.prems p by (auto simp: word_less_nat_alt)
qed

lemma clear_loop_spec:
  assumes "rs_wf (pre @ xs)" "unat v \<notin> rs_set pre"
  shows "case clear_loop pre xs v of
      None \<Rightarrow> unat v \<notin> rs_set xs
    | Some ys \<Rightarrow> rs_wf ys \<and> rs_set ys = rs_set (pre @ xs) - {unat v}"
  using assms
proof (induction pre xs v rule: clear_loop.induct)
  case (2 pre a b xs v)
  note s = wf_from_split [OF "2.prems"(1)]
  have vpre: "unat v \<notin> rs_set pre" by (rule "2.prems"(2))
  show ?case
  proof (cases "contains (a, b) v")
    case False
    then have vab: "unat v \<notin> {unat a..unat b}" by (simp add: contains_def word_le_nat_alt)
    have "rs_wf ((pre @ [(a, b)]) @ xs)" "unat v \<notin> rs_set (pre @ [(a, b)])"
      using "2.prems" vab by simp_all
    note ih = "2.IH" [OF False this]
    show ?thesis
      using ih False vab by (cases "clear_loop (pre @ [(a, b)]) xs v") simp_all
  next
    case True
    then have ab: "unat a \<le> unat v" "unat v \<le> unat b" by (auto simp: contains_def word_le_nat_alt)
    have out: "unat v \<notin> rs_set xs" using s(5) ab(2) by force
    define bound where "bound = (if pre = [] then 0 else unat (snd (last pre)) + 2)"
    have W: "rs_wf (pre @ ys) \<longleftrightarrow> wf_from bound ys" for ys
      using s(1) by (simp add: wf_from_append bound_def)
    have bnd: "bound \<le> unat a" using "2.prems"(1) unfolding W by simp
    have gap: "rs_set pre \<union> (N \<union> rs_set xs) = rs_set (pre @ (a, b) # xs) - {unat v}"
      if "N = {unat a..unat b} - {unat v}" for N
      using vpre out unfolding that by auto
    consider (one) "a = v" "b = v" | (low) "a = v" "b \<noteq> v" | (high) "a \<noteq> v" "b = v" | (mid) "a \<noteq> v" "b \<noteq> v" by blast
    then show ?thesis
    proof cases
      case one
      then have "clear_loop pre ((a, b) # xs) v = Some (pre @ xs)" using True by simp
      moreover have "rs_set (pre @ xs) = rs_set (pre @ (a, b) # xs) - {unat v}" using gap [of "{}"] one by simp
      ultimately show ?thesis using s(6) by simp
    next
      case low
      then have "v < b" using ab by (simp add: word_less_nat_alt word_unat_eq_iff)
      then have u: "unat (v + 1) = unat v + 1" "unat v < unat b" by (simp_all add: unat_plus_1 word_less_nat_alt)
      then have vb: "v + 1 \<le> b" by (simp add: word_le_nat_alt)
      have m: "map_put (v + 1) b (pre @ xs) = pre @ (v + 1, b) # xs"
      proof (rule map_put_wf [OF s(6) vb s(3)])
        show "x + 1 < unat (v + 1)" if "x \<in> rs_set pre" for x using s(4) [OF that] low(1) u(1) by simp
      qed simp
      have "clear_loop pre ((a, b) # xs) v = Some (pre @ (v + 1, b) # xs)" using True low m by simp
      moreover have "rs_wf (pre @ (v + 1, b) # xs)" using W bnd low(1) u vb s(3) by simp
      moreover have "rs_set (pre @ (v + 1, b) # xs) = rs_set (pre @ (a, b) # xs) - {unat v}"
      proof -
        have "{unat (v + 1)..unat b} = {unat a..unat b} - {unat v}" using low(1) u by auto
        from gap [OF this] show ?thesis by simp
      qed
      ultimately show ?thesis by simp
    next
      case high
      then have "a < b" using ab by (simp add: word_less_nat_alt word_unat_eq_iff)
      then have u: "unat (b - 1) = unat b - 1" "unat a < unat b" by (simp_all add: unat_minus_1 word_less_nat_alt)
      have "clear_loop pre ((a, b) # xs) v = Some (pre @ (a, b - 1) # xs)" using True high by simp
      moreover have "wf_from (unat (b - 1) + 2) xs" using s(3) by (rule wf_from_mono) (simp add: u)
      then have "rs_wf (pre @ (a, b - 1) # xs)" using W bnd u by (simp add: word_le_nat_alt)
      moreover have "rs_set (pre @ (a, b - 1) # xs) = rs_set (pre @ (a, b) # xs) - {unat v}"
      proof -
        have "{unat a..unat (b - 1)} = {unat a..unat b} - {unat v}" using high(2) u by auto
        from gap [OF this] show ?thesis by simp
      qed
      ultimately show ?thesis by simp
    next
      case mid
      then have lt: "a < v" "v < b" using ab by (simp_all add: word_less_nat_alt word_unat_eq_iff)
      then have u: "unat (v - 1) = unat v - 1" "unat a < unat v" "unat (v + 1) = unat v + 1" "unat v < unat b"
        by (simp_all add: unat_minus_1 unat_plus_1 word_less_nat_alt)
      have av: "a \<le> v - 1" and vb: "v + 1 \<le> b" using u by (simp_all add: word_le_nat_alt)
      have "wf_from (unat (v - 1) + 2) xs" using s(3) by (rule wf_from_mono) (use u in simp)
      then have w: "rs_wf ((pre @ [(a, v - 1)]) @ xs)" using W bnd av by simp
      have m: "map_put (v + 1) b ((pre @ [(a, v - 1)]) @ xs) = (pre @ [(a, v - 1)]) @ (v + 1, b) # xs"
      proof (rule map_put_wf [OF w vb s(3)])
        fix x assume "x \<in> rs_set (pre @ [(a, v - 1)])"
        then have "x \<in> rs_set pre \<or> x \<le> unat (v - 1)" by auto
        then show "x + 1 < unat (v + 1)" using s(4) [of x] u by auto
      qed simp
      have "clear_loop pre ((a, b) # xs) v = Some (pre @ (a, v - 1) # (v + 1, b) # xs)"
        using True mid m by simp
      moreover have "rs_wf (pre @ (a, v - 1) # (v + 1, b) # xs)" using W bnd av vb u s(3) by simp
      moreover have "rs_set (pre @ (a, v - 1) # (v + 1, b) # xs) = rs_set (pre @ (a, b) # xs) - {unat v}"
      proof -
        have "{unat a..unat (v - 1)} \<union> {unat (v + 1)..unat b} = {unat a..unat b} - {unat v}" using u by auto
        from gap [OF this] show ?thesis by (simp add: Un_assoc)
      qed
      ultimately show ?thesis by simp
    qed
  qed
qed simp

section \<open>Refinement of the set operations\<close>

datatype rs_op = Set_value u32 | Set_range u32 u32 | Clear_value u32

fun rs_apply :: "rs_op \<Rightarrow> rangeset \<Rightarrow> rangeset res" where
  "rs_apply (Set_value v) xs = setvalue xs v"
| "rs_apply (Set_range a b) xs = setrange xs a b"
| "rs_apply (Clear_value v) xs = clearvalue xs v"

text \<open>
  The specification: a number is inserted, the closed interval is added, a number is removed. An
  operation is permitted when a range is ordered and below the reserved number, and not one of which
  the last number alone is missing: for such a range \<^verbatim>\<open>setRange\<close> returns before it looks at the last
  number (\<open>setrange_drops_last\<close>).
\<close>

fun spec_apply :: "rs_op \<Rightarrow> nat set \<Rightarrow> nat set" where
  "spec_apply (Set_value v) S = insert (unat v) S"
| "spec_apply (Set_range a b) S = S \<union> {unat a..unat b}"
| "spec_apply (Clear_value v) S = S - {unat v}"

definition last_missing :: "u32 \<Rightarrow> u32 \<Rightarrow> nat set \<Rightarrow> bool" where
  "last_missing a b S \<longleftrightarrow> a < b \<and> {unat a..<unat b} \<subseteq> S \<and> unat b \<notin> S"

fun rs_op_ok :: "rs_op \<Rightarrow> nat set \<Rightarrow> bool" where
  "rs_op_ok (Set_range a b) S \<longleftrightarrow> a \<le> b \<and> b \<noteq> absent \<and> \<not> last_missing a b S"
| "rs_op_ok op S \<longleftrightarrow> True"

lemma setvalue_refines:
  assumes "rs_wf xs"
  shows "\<exists>ys. setvalue xs v = Inr ys \<and> rs_wf ys \<and> rs_set ys = insert (unat v) (rs_set xs)"
proof (cases "hasvalue xs v")
  case True
  then show ?thesis using assms by (auto simp: setvalue_def hasvalue_iff)
next
  case False
  then show ?thesis using insert_range [OF assms, of v v] by (simp add: setvalue_def hasvalue_iff)
qed

lemma setrange_refines:
  assumes "rs_wf xs" "a \<le> b" "b \<noteq> absent"
  shows "\<exists>ys. setrange xs a b = Inr ys \<and> rs_wf ys \<and>
    rs_set ys = (if last_missing a b (rs_set xs) then rs_set xs else rs_set xs \<union> {unat a..unat b})"
proof (cases "skip_present xs a b")
  case None
  then have "{unat a..<unat b} \<subseteq> rs_set xs" "unat a \<in> rs_set xs" using skip_present_spec [OF assms(2,3), of xs] by simp_all
  then have "rs_set xs = (if last_missing a b (rs_set xs) then rs_set xs else rs_set xs \<union> {unat a..unat b})"
    using assms(2) by (cases "a = b") (auto simp: last_missing_def word_le_nat_alt word_less_nat_alt le_eq_less_or_eq)
  then show ?thesis using None assms(1) by (simp add: setrange_def)
next
  case (Some m)
  then have m: "a \<le> m" "m \<le> b" "unat m \<notin> rs_set xs" "{unat a..<unat m} \<subseteq> rs_set xs" "m < b \<or> m = a"
    using skip_present_spec [OF assms(2,3), of xs] by simp_all
  have le: "unat a \<le> unat m" "unat m \<le> unat b" using m(1,2) by (simp_all add: word_le_nat_alt)
  have new: "\<not> last_missing a b (rs_set xs)"
    using m(3,5) le by (auto simp: last_missing_def word_less_nat_alt)
  have "{unat m..unat b} \<union> rs_set xs = rs_set xs \<union> {unat a..unat b}"
    using m(4) le by (auto simp: subset_iff not_less)
  then show ?thesis
    using insert_range [OF assms(1) m(3,2)] Some new by (auto simp: setrange_def)
qed

lemma clearvalue_refines:
  assumes "rs_wf xs"
  shows "\<exists>ys. clearvalue xs v = Inr ys \<and> rs_wf ys \<and> rs_set ys = rs_set xs - {unat v}"
  using clear_loop_spec [of "[]" xs v] assms
  by (cases "clear_loop [] xs v") (auto simp: clearvalue_def wf_checked)

interpretation range_sim: simulation rs_op_ok rs_wf rs_set rs_apply spec_apply
proof
  fix op xs
  assume "rs_op_ok op (rs_set xs)" "rs_wf xs"
  then show "\<exists>ys. rs_apply op xs = Inr ys \<and> rs_wf ys \<and> rs_set ys = spec_apply op (rs_set xs)"
    using setvalue_refines [of xs] setrange_refines [of xs] clearvalue_refines [of xs]
    by (cases op) fastforce+
qed

section \<open>Queries\<close>

lemma getnext_spec:
  assumes "wf_from l xs" "v \<noteq> absent"
  shows "(\<exists>x\<in>rs_set xs. unat v < x) \<longrightarrow>
      unat (getnext xs v) \<in> rs_set xs \<and> unat v < unat (getnext xs v) \<and>
      (\<forall>x\<in>rs_set xs. unat v < x \<longrightarrow> unat (getnext xs v) \<le> x)"
    and "(\<forall>x\<in>rs_set xs. x \<le> unat v) \<longrightarrow> getnext xs v = absent"
proof -
  have "v < absent" using assms(2) by (simp add: absent_def word_order.not_eq_extremum)
  then have u: "unat (v + 1) = unat v + 1" by (rule unat_plus_1)
  have "((\<exists>x\<in>rs_set xs. unat v < x) \<longrightarrow>
      unat (getnext xs v) \<in> rs_set xs \<and> unat v < unat (getnext xs v) \<and>
      (\<forall>x\<in>rs_set xs. unat v < x \<longrightarrow> unat (getnext xs v) \<le> x)) \<and>
    ((\<forall>x\<in>rs_set xs. x \<le> unat v) \<longrightarrow> getnext xs v = absent)"
    using assms(1)
  proof (induction l xs rule: wf_from.induct)
    case (2 l a b xs)
    then have ab: "unat a \<le> unat b" and w: "wf_from (unat b + 2) xs" by (simp_all add: word_le_nat_alt)
    have above: "unat b + 2 \<le> x" if "x \<in> rs_set xs" for x using wf_from_set [OF w that] .
    consider (after) "unat v < unat a" | (inside) "unat a \<le> unat v" "unat v < unat b" | (before) "unat b \<le> unat v"
      by linarith
    then show ?case
    proof cases
      case after
      then have "getnext ((a, b) # xs) v = a" by (simp add: word_less_nat_alt)
      then show ?thesis using after ab above by force
    next
      case inside
      then have "getnext ((a, b) # xs) v = v + 1" by (simp add: contains_def word_less_nat_alt word_le_nat_alt u)
      moreover have "unat v + 1 \<in> rs_set ((a, b) # xs)" using inside by simp
      ultimately show ?thesis using u by (metis Suc_eq_plus1 Suc_leI lessI not_less)
    next
      case before
      then have g: "getnext ((a, b) # xs) v = getnext xs v"
        using ab by (simp add: contains_def word_less_nat_alt word_le_nat_alt u)
      have "(\<exists>x\<in>rs_set ((a, b) # xs). unat v < x) \<longleftrightarrow> (\<exists>x\<in>rs_set xs. unat v < x)" using before by auto
      then show ?thesis using 2(1) [OF w] before unfolding g by auto
    qed
  qed simp
  then show "(\<exists>x\<in>rs_set xs. unat v < x) \<longrightarrow>
      unat (getnext xs v) \<in> rs_set xs \<and> unat v < unat (getnext xs v) \<and>
      (\<forall>x\<in>rs_set xs. unat v < x \<longrightarrow> unat (getnext xs v) \<le> x)"
    "(\<forall>x\<in>rs_set xs. x \<le> unat v) \<longrightarrow> getnext xs v = absent" by blast+
qed

lemma prevmissing_rev_spec:
  "(\<forall>p\<in>set xs. \<not> contains p r) \<and> prevmissing_rev xs r = r \<or>
   (\<exists>a b. (a, b) \<in> set xs \<and> contains (a, b) r \<and> prevmissing_rev xs r = a - 1)"
  by (induction xs) auto

lemma wf_range_start:
  assumes "wf_from l xs" "(a, b) \<in> set xs" "x \<in> rs_set xs"
  shows "x + 1 \<noteq> unat a"
  using assms
proof (induction l xs rule: wf_from.induct)
  case (2 l c d xs)
  from 2(2) have w: "wf_from (unat d + 2) xs" and cd: "unat c \<le> unat d" by (simp_all add: word_le_nat_alt)
  have self: "unat a \<in> rs_set xs" if "(a, b) \<in> set xs"
  proof -
    have "a \<le> b" using w that by (induction "unat d + 2" xs arbitrary: d rule: wf_from.induct) auto
    then show ?thesis using that by (force simp: rs_set_def word_le_nat_alt)
  qed
  from 2(3,4) consider "(a, b) = (c, d)" "x \<in> {unat c..unat d}" | "(a, b) = (c, d)" "x \<in> rs_set xs"
    | "(a, b) \<in> set xs" "x \<in> {unat c..unat d}" | "(a, b) \<in> set xs" "x \<in> rs_set xs" by auto
  then show ?case
  proof cases
    case 2
    then show ?thesis using wf_from_set [OF w] cd by fastforce
  next
    case 3
    then show ?thesis using wf_from_set [OF w self] by fastforce
  next
    case 4
    then show ?thesis using "2.IH" w by blast
  qed auto
qed simp

lemma prevmissing_result:
  assumes "rs_wf xs" "v \<noteq> 0"
  defines "r \<equiv> prevmissing_rev (rev xs) (v - 1)"
  shows "(r = absent \<and> {..<unat v} \<subseteq> rs_set xs) \<or>
         (unat r < unat v \<and> unat r \<notin> rs_set xs \<and> {unat r<..<unat v} \<subseteq> rs_set xs)"
proof -
  have v1: "unat (v - 1) = unat v - 1" "0 < unat v" using assms(2) by (simp_all add: unat_minus_one unat_gt_0)
  show ?thesis
  proof (cases "unat (v - 1) \<in> rs_set xs")
    case False
    then have "\<not> (\<exists>p\<in>set xs. contains p (v - 1))"
      by (force simp: rs_set_def contains_def word_le_nat_alt)
    then have "r = v - 1" using prevmissing_rev_spec [of "rev xs" "v - 1"] by (auto simp: r_def)
    then show ?thesis using False v1 by auto
  next
    case True
    then have "\<exists>p\<in>set xs. contains p (v - 1)"
      by (force simp: rs_set_def contains_def word_le_nat_alt)
    then obtain a b where ab: "(a, b) \<in> set xs" "contains (a, b) (v - 1)" "r = a - 1"
      using prevmissing_rev_spec [of "rev xs" "v - 1"] by (auto simp: r_def)
    then have le: "unat a \<le> unat v - 1" "unat v - 1 \<le> unat b"
      using v1 by (simp_all add: contains_def word_le_nat_alt)
    have sub: "{unat a..unat b} \<subseteq> rs_set xs" using ab(1) by (force simp: rs_set_def)
    show ?thesis
    proof (cases "a = 0")
      case True
      then have "{..<unat v} \<subseteq> {unat a..unat b}" using le v1(2) by auto
      then show ?thesis using True sub ab(3) by (auto simp: absent_def)
    next
      case False
      then have "unat (a - 1) = unat a - 1" "0 < unat a" by (simp_all add: unat_minus_one unat_gt_0)
      moreover from this have "unat a - 1 \<notin> rs_set xs" using wf_range_start [OF assms(1) ab(1), of "unat a - 1"] by auto
      moreover have "{unat a - 1<..<unat v} \<subseteq> {unat a..unat b}" using le v1(2) by auto
      ultimately show ?thesis using sub ab(3) le v1(2) by auto
    qed
  qed
qed

lemma prevmissing_spec:
  assumes "rs_wf xs" "v \<noteq> 0"
  shows "\<exists>r. prevmissing xs v = Inr r \<and>
    ((r = absent \<and> {..<unat v} \<subseteq> rs_set xs) \<or>
     (unat r < unat v \<and> unat r \<notin> rs_set xs \<and> {unat r<..<unat v} \<subseteq> rs_set xs))"
  using prevmissing_result [OF assms] wf_check [OF assms(1)] assms(2)
  by (auto simp: prevmissing_def Let_def hasvalue_iff)

lemma getfirst_least: "wf_from l xs \<Longrightarrow> x \<in> rs_set xs \<Longrightarrow> unat (getfirst xs) \<in> rs_set xs \<and> unat (getfirst xs) \<le> x"
  using wf_from_set by (cases xs; cases "hd xs") (force simp: word_le_nat_alt)+

lemma getlast_greatest:
  "wf_from l xs \<Longrightarrow> x \<in> rs_set xs \<Longrightarrow> unat (getlast xs) \<in> rs_set xs \<and> x \<le> unat (getlast xs)"
proof (induction l xs arbitrary: x rule: wf_from.induct)
  case (2 l a b xs)
  show ?case
  proof (cases "xs = []")
    case True
    then show ?thesis using 2 by (auto simp: getlast_def word_le_nat_alt)
  next
    case False
    then obtain c d ys where xs: "xs = (c, d) # ys" by (cases xs) auto
    have w: "wf_from (unat b + 2) xs" using 2 by simp
    then have c: "unat c \<in> rs_set xs" "unat b < unat c" by (auto simp: xs word_le_nat_alt)
    have l: "getlast ((a, b) # xs) = getlast xs" using False by (simp add: getlast_def)
    have "x \<in> rs_set xs \<or> x \<le> unat c" using 2(3) c(2) by auto
    then show ?thesis using 2(1) [OF w, of x] 2(1) [OF w c(1)] by (auto simp: l)
  qed
qed simp

section \<open>Properties\<close>

text \<open>
  C6. A sequence of \<^verbatim>\<open>setValue\<close>, \<^verbatim>\<open>setRange\<close> and \<^verbatim>\<open>clearValue\<close> calls on a well-formed range set, in which
  every range is ordered, below the reserved number and not one of which the last number alone is
  missing when it is added, runs without tripping an assertion of \<^verbatim>\<open>checkInternalConsistency\<close>, ends in a
  well-formed range set again, and that set denotes exactly the set of numbers that inserting the
  number, adding the closed interval and removing the number give.
\<close>

theorem rangeset_refines_set:
  assumes "run_ok rs_op_ok spec_apply ops (rs_set xs)" "rs_wf xs"
  shows "\<exists>ys. run_ops rs_apply ops xs = Inr ys \<and> rs_wf ys \<and> rs_set ys = fold spec_apply ops (rs_set xs)"
  using assms by (rule range_sim.run)

theorem rangeset_refines_set_witness:
  "run_ok rs_op_ok spec_apply [Set_range 3 9, Clear_value 5, Set_value 10, Set_range 1 2] {} \<and> rs_wf [] \<and>
   (\<exists>ys. run_ops rs_apply [Set_range 3 9, Clear_value 5, Set_value 10, Set_range 1 2] [] = Inr ys \<and> rs_wf ys \<and>
      rs_set ys = fold spec_apply [Set_range 3 9, Clear_value 5, Set_value 10, Set_range 1 2] {})"
proof -
  have "run_ok rs_op_ok spec_apply [Set_range 3 9, Clear_value 5, Set_value 10, Set_range 1 2] {}"
    by (auto simp: absent_def last_missing_def subset_iff dest: spec [of _ 1])
  with rangeset_refines_set [of "[Set_range 3 9, Clear_value 5, Set_value 10, Set_range 1 2]" "[]"]
  show ?thesis by simp
qed

text \<open>
  C30. On a well-formed range set the queries answer for the set it denotes: \<^verbatim>\<open>hasValue\<close> is membership,
  \<^verbatim>\<open>getFirst\<close> and \<^verbatim>\<open>getLast\<close> are its least and greatest member, \<^verbatim>\<open>getNext\<close> is the least member above
  the argument or the reserved number when there is none, and \<^verbatim>\<open>prevMissing\<close> is the greatest number below
  the argument that is missing, or the reserved number when all of them are present, and its assertions
  hold.
\<close>

theorem rangeset_queries:
  assumes "rs_wf xs" "x \<in> rs_set xs" "v \<noteq> absent" "v \<noteq> 0"
  shows "(hasvalue xs v \<longleftrightarrow> unat v \<in> rs_set xs) \<and>
    unat (getfirst xs) \<in> rs_set xs \<and> unat (getfirst xs) \<le> x \<and>
    unat (getlast xs) \<in> rs_set xs \<and> x \<le> unat (getlast xs) \<and>
    (if unat v < unat (getlast xs)
     then unat (getnext xs v) \<in> rs_set xs \<and> unat v < unat (getnext xs v) \<and> (unat v < x \<longrightarrow> unat (getnext xs v) \<le> x)
     else getnext xs v = absent) \<and>
    (\<exists>r. prevmissing xs v = Inr r \<and>
      (if {..<unat v} \<subseteq> rs_set xs then r = absent
       else unat r < unat v \<and> unat r \<notin> rs_set xs \<and> {unat r<..<unat v} \<subseteq> rs_set xs))"
proof -
  note first = getfirst_least [OF assms(1,2)]
  note last = getlast_greatest [OF assms(1,2)]
  have above: "y \<le> unat v" if "\<not> unat v < unat (getlast xs)" "y \<in> rs_set xs" for y
    using getlast_greatest [OF assms(1) that(2)] that(1) by linarith
  have "if unat v < unat (getlast xs)
     then unat (getnext xs v) \<in> rs_set xs \<and> unat v < unat (getnext xs v) \<and> (unat v < x \<longrightarrow> unat (getnext xs v) \<le> x)
     else getnext xs v = absent"
    using getnext_spec [OF assms(1,3)] last above assms(2) by (auto split: if_split)
  moreover have "\<exists>r. prevmissing xs v = Inr r \<and>
      (if {..<unat v} \<subseteq> rs_set xs then r = absent
       else unat r < unat v \<and> unat r \<notin> rs_set xs \<and> {unat r<..<unat v} \<subseteq> rs_set xs)"
    using prevmissing_spec [OF assms(1,4)] by fastforce
  ultimately show ?thesis using first last by (simp add: hasvalue_iff)
qed

theorem rangeset_queries_witness:
  "rs_wf [(2, 4), (7, 7)] \<and> 3 \<in> rs_set [(2, 4), (7, 7)] \<and>
   getnext [(2, 4), (7, 7)] 4 = 7 \<and> prevmissing [(2, 4), (7, 7)] 4 = Inr 1 \<and>
   unat (getnext [(2, 4), (7, 7)] 4) \<in> rs_set [(2, 4), (7, 7)]"
proof -
  have wf: "rs_wf [(2, 4), (7, 7)]" "3 \<in> rs_set [(2, 4), (7, 7)]" by simp_all
  have "getnext [(2, 4), (7, 7)] 4 = 7" "prevmissing [(2, 4), (7, 7)] 4 = Inr 1" by code_simp+
  moreover have "(4 :: u32) \<noteq> absent" "(4 :: u32) \<noteq> 0" by (simp_all add: absent_def)
  ultimately show ?thesis
    using rangeset_queries [OF wf, of 4] wf by (simp add: getlast_def del: wf_from.simps)
qed

text \<open>
  Two divergences. \<^verbatim>\<open>getPrev\<close> looks for \<open>v + 1\<close> where \<open>v - 1\<close> is meant, and \<^verbatim>\<open>setRange\<close> drops the last
  number when all the others are present.
\<close>

lemma getprev_misses: "getprev [(5, 7)] 7 = absent \<and> hasvalue [(5, 7)] 6"
  by code_simp

lemma setrange_drops_last: "setrange [(5, 7)] 5 8 = Inr [(5, 7)]"
  by (simp add: setrange_def skip_present.simps [of _ 5] skip_present.simps [of _ 6] skip_present.simps [of _ 7]
      contains_def)

end
