(* ===== verification/S_Field.thy ===== *)
theory S_Field
  imports Serializer
begin

text \<open>
  Field identifiers: \<^verbatim>\<open>src/ripple/protocol/SField.h\<close> and \<^verbatim>\<open>src/ripple/protocol/impl/SField.cpp\<close>. Every
  field of the sources is a constant with its type, number, name, metadata flags and signing flag.
  \<^verbatim>\<open>SField::getField\<close> looks a code up among the known fields and makes a field of a type it is willing
  to extend otherwise; the database of the fields made so far caches them and is not part of the model,
  since making a field twice gives the same field. The running number of a field and its JSON name are
  left out.
\<close>

section \<open>Type codes and metadata flags\<close>

abbreviation (input) sti_unknown :: int where "sti_unknown \<equiv> - 2"
abbreviation (input) sti_notpresent :: int where "sti_notpresent \<equiv> 0"
abbreviation (input) sti_uint16 :: int where "sti_uint16 \<equiv> 1"
abbreviation (input) sti_uint32 :: int where "sti_uint32 \<equiv> 2"
abbreviation (input) sti_uint64 :: int where "sti_uint64 \<equiv> 3"
abbreviation (input) sti_hash128 :: int where "sti_hash128 \<equiv> 4"
abbreviation (input) sti_hash256 :: int where "sti_hash256 \<equiv> 5"
abbreviation (input) sti_amount :: int where "sti_amount \<equiv> 6"
abbreviation (input) sti_vl :: int where "sti_vl \<equiv> 7"
abbreviation (input) sti_account :: int where "sti_account \<equiv> 8"
abbreviation (input) sti_object :: int where "sti_object \<equiv> 14"
abbreviation (input) sti_array :: int where "sti_array \<equiv> 15"
abbreviation (input) sti_uint8 :: int where "sti_uint8 \<equiv> 16"
abbreviation (input) sti_hash160 :: int where "sti_hash160 \<equiv> 17"
abbreviation (input) sti_pathset :: int where "sti_pathset \<equiv> 18"
abbreviation (input) sti_vector256 :: int where "sti_vector256 \<equiv> 19"
abbreviation (input) sti_transaction :: int where "sti_transaction \<equiv> 10001"
abbreviation (input) sti_ledgerentry :: int where "sti_ledgerentry \<equiv> 10002"
abbreviation (input) sti_validation :: int where "sti_validation \<equiv> 10003"
abbreviation (input) sti_metadata :: int where "sti_metadata \<equiv> 10004"

definition smd_never :: int where "smd_never = 0"
definition smd_changeorig :: int where "smd_changeorig = 1"
definition smd_changenew :: int where "smd_changenew = 2"
definition smd_deletefinal :: int where "smd_deletefinal = 4"
definition smd_create :: int where "smd_create = 8"
definition smd_always :: int where "smd_always = 16"

definition smd_default :: int where
  "smd_default = smd_changeorig OR smd_changenew OR smd_deletefinal OR smd_create"

definition field_code :: "int \<Rightarrow> int \<Rightarrow> int" where
  "field_code i idx = push_bit 16 i OR idx"

section \<open>Fields\<close>

record sfield =
  fieldcode :: int
  fieldtype :: int
  fieldvalue :: int
  fieldname :: string
  fieldmeta :: int
  signingfield :: bool

definition isgeneric :: "sfield \<Rightarrow> bool" where "isgeneric f \<longleftrightarrow> fieldcode f = 0"
definition isinvalid :: "sfield \<Rightarrow> bool" where "isinvalid f \<longleftrightarrow> fieldcode f = - 1"
definition isuseful :: "sfield \<Rightarrow> bool" where "isuseful f \<longleftrightarrow> fieldcode f > 0"
definition isknown :: "sfield \<Rightarrow> bool" where "isknown f \<longleftrightarrow> fieldtype f \<noteq> sti_unknown"
definition isbinary :: "sfield \<Rightarrow> bool" where "isbinary f \<longleftrightarrow> fieldvalue f < 256"
definition isdiscardable :: "sfield \<Rightarrow> bool" where "isdiscardable f \<longleftrightarrow> fieldvalue f > 256"
definition shouldmeta :: "sfield \<Rightarrow> int \<Rightarrow> bool" where "shouldmeta f c \<longleftrightarrow> fieldmeta f AND c \<noteq> 0"

definition shouldinclude :: "sfield \<Rightarrow> bool \<Rightarrow> bool" where
  "shouldinclude f withsigningfield \<longleftrightarrow> fieldvalue f < 256 \<and> (withsigningfield \<or> signingfield f)"

definition field_eq :: "sfield \<Rightarrow> sfield \<Rightarrow> bool" where
  "field_eq f g \<longleftrightarrow> fieldcode f = fieldcode g"

definition field_compare :: "sfield \<Rightarrow> sfield \<Rightarrow> int" where
  "field_compare f1 f2 =
     (if fieldcode f1 \<le> 0 \<or> fieldcode f2 \<le> 0 then 0
      else if fieldcode f1 < fieldcode f2 then - 1
      else if fieldcode f2 < fieldcode f1 then 1
      else 0)"

definition mk_sfield :: "int \<Rightarrow> int \<Rightarrow> string \<Rightarrow> int \<Rightarrow> bool \<Rightarrow> sfield" where
  "mk_sfield tid fv fn meta signing =
     \<lparr>fieldcode = field_code tid fv, fieldtype = tid, fieldvalue = fv, fieldname = fn, fieldmeta = meta,
      signingfield = signing\<rparr>"

definition mk_sfield_code :: "int \<Rightarrow> sfield" where
  "mk_sfield_code fc =
     \<lparr>fieldcode = fc, fieldtype = sti_unknown, fieldvalue = 0, fieldname = [], fieldmeta = smd_never,
      signingfield = True\<rparr>"

text \<open>\<^verbatim>\<open>std::to_string\<close> of a non-negative integer.\<close>

fun dec_string :: "nat \<Rightarrow> string" where
  "dec_string n = (if n < 10 then [char_of (48 + n)] else dec_string (n div 10) @ [char_of (48 + n mod 10)])"

declare dec_string.simps [simp del]

definition mk_sfield_dynamic :: "int \<Rightarrow> int \<Rightarrow> sfield res" where
  "mk_sfield_dynamic tid fv =
     (if fv \<noteq> 1 \<or> (tid \<noteq> sti_array \<and> tid \<noteq> sti_object)
      then Inr (mk_sfield tid fv (dec_string (nat tid) @ ''/'' @ dec_string (nat fv)) smd_default True)
      else Inl Assertion_failed)"

section \<open>The fields of the protocol\<close>

definition sfinvalid :: sfield where
  "sfinvalid = mk_sfield_code (-1)"
definition sfgeneric :: sfield where
  "sfgeneric = mk_sfield_code 0"
definition sfledgerentry :: sfield where
  "sfledgerentry = mk_sfield sti_ledgerentry 257 ''ledgerentry'' smd_default True"
definition sftransaction :: sfield where
  "sftransaction = mk_sfield sti_transaction 257 ''transaction'' smd_default True"
definition sfvalidation :: sfield where
  "sfvalidation = mk_sfield sti_validation 257 ''validation'' smd_default True"
definition sfmetadata :: sfield where
  "sfmetadata = mk_sfield sti_metadata 257 ''metadata'' smd_default True"
definition sfhash :: sfield where
  "sfhash = mk_sfield sti_hash256 257 ''hash'' smd_default True"
definition sfindex :: sfield where
  "sfindex = mk_sfield sti_hash256 258 ''index'' smd_default True"
definition sfcloseresolution :: sfield where
  "sfcloseresolution = mk_sfield sti_uint8 1 ''closeresolution'' smd_default True"
definition sftemplateentrytype :: sfield where
  "sftemplateentrytype = mk_sfield sti_uint8 2 ''templateentrytype'' smd_default True"
definition sftransactionresult :: sfield where
  "sftransactionresult = mk_sfield sti_uint8 3 ''transactionresult'' smd_default True"
definition sfdividendstate :: sfield where
  "sfdividendstate = mk_sfield sti_uint8 181 ''dividendstate'' smd_default True"
definition sfdividendtype :: sfield where
  "sfdividendtype = mk_sfield sti_uint8 182 ''dividendtype'' smd_default True"
definition sfledgerentrytype :: sfield where
  "sfledgerentrytype = mk_sfield sti_uint16 1 ''ledgerentrytype'' smd_never True"
definition sftransactiontype :: sfield where
  "sftransactiontype = mk_sfield sti_uint16 2 ''transactiontype'' smd_default True"
definition sfflags :: sfield where
  "sfflags = mk_sfield sti_uint32 2 ''flags'' smd_default True"
definition sfsourcetag :: sfield where
  "sfsourcetag = mk_sfield sti_uint32 3 ''sourcetag'' smd_default True"
definition sfsequence :: sfield where
  "sfsequence = mk_sfield sti_uint32 4 ''sequence'' smd_default True"
definition sfprevioustxnlgrseq :: sfield where
  "sfprevioustxnlgrseq = mk_sfield sti_uint32 5 ''previoustxnlgrseq'' smd_deletefinal True"
definition sfledgersequence :: sfield where
  "sfledgersequence = mk_sfield sti_uint32 6 ''ledgersequence'' smd_default True"
definition sfclosetime :: sfield where
  "sfclosetime = mk_sfield sti_uint32 7 ''closetime'' smd_default True"
definition sfparentclosetime :: sfield where
  "sfparentclosetime = mk_sfield sti_uint32 8 ''parentclosetime'' smd_default True"
definition sfsigningtime :: sfield where
  "sfsigningtime = mk_sfield sti_uint32 9 ''signingtime'' smd_default True"
definition sfexpiration :: sfield where
  "sfexpiration = mk_sfield sti_uint32 10 ''expiration'' smd_default True"
definition sftransferrate :: sfield where
  "sftransferrate = mk_sfield sti_uint32 11 ''transferrate'' smd_default True"
definition sfwalletsize :: sfield where
  "sfwalletsize = mk_sfield sti_uint32 12 ''walletsize'' smd_default True"
definition sfownercount :: sfield where
  "sfownercount = mk_sfield sti_uint32 13 ''ownercount'' smd_default True"
definition sfdestinationtag :: sfield where
  "sfdestinationtag = mk_sfield sti_uint32 14 ''destinationtag'' smd_default True"
definition sfdividendledger :: sfield where
  "sfdividendledger = mk_sfield sti_uint32 181 ''dividendledger'' smd_default True"
definition sfreferenceheight :: sfield where
  "sfreferenceheight = mk_sfield sti_uint32 182 ''referenceheight'' smd_default True"
definition sfreleaserate :: sfield where
  "sfreleaserate = mk_sfield sti_uint32 183 ''releaserate'' smd_default True"
definition sfnextreleasetime :: sfield where
  "sfnextreleasetime = mk_sfield sti_uint32 184 ''nextreleasetime'' smd_default True"
definition sfhighqualityin :: sfield where
  "sfhighqualityin = mk_sfield sti_uint32 16 ''highqualityin'' smd_default True"
definition sfhighqualityout :: sfield where
  "sfhighqualityout = mk_sfield sti_uint32 17 ''highqualityout'' smd_default True"
definition sflowqualityin :: sfield where
  "sflowqualityin = mk_sfield sti_uint32 18 ''lowqualityin'' smd_default True"
definition sflowqualityout :: sfield where
  "sflowqualityout = mk_sfield sti_uint32 19 ''lowqualityout'' smd_default True"
definition sfqualityin :: sfield where
  "sfqualityin = mk_sfield sti_uint32 20 ''qualityin'' smd_default True"
definition sfqualityout :: sfield where
  "sfqualityout = mk_sfield sti_uint32 21 ''qualityout'' smd_default True"
definition sfstampescrow :: sfield where
  "sfstampescrow = mk_sfield sti_uint32 22 ''stampescrow'' smd_default True"
definition sfbondamount :: sfield where
  "sfbondamount = mk_sfield sti_uint32 23 ''bondamount'' smd_default True"
definition sfloadfee :: sfield where
  "sfloadfee = mk_sfield sti_uint32 24 ''loadfee'' smd_default True"
definition sfoffersequence :: sfield where
  "sfoffersequence = mk_sfield sti_uint32 25 ''offersequence'' smd_default True"
definition sffirstledgersequence :: sfield where
  "sffirstledgersequence = mk_sfield sti_uint32 26 ''firstledgersequence'' smd_default True"
definition sflastledgersequence :: sfield where
  "sflastledgersequence = mk_sfield sti_uint32 27 ''lastledgersequence'' smd_default True"
definition sftransactionindex :: sfield where
  "sftransactionindex = mk_sfield sti_uint32 28 ''transactionindex'' smd_default True"
definition sfoperationlimit :: sfield where
  "sfoperationlimit = mk_sfield sti_uint32 29 ''operationlimit'' smd_default True"
definition sfreferencefeeunits :: sfield where
  "sfreferencefeeunits = mk_sfield sti_uint32 30 ''referencefeeunits'' smd_default True"
definition sfreservebase :: sfield where
  "sfreservebase = mk_sfield sti_uint32 31 ''reservebase'' smd_default True"
definition sfreserveincrement :: sfield where
  "sfreserveincrement = mk_sfield sti_uint32 32 ''reserveincrement'' smd_default True"
definition sfsetflag :: sfield where
  "sfsetflag = mk_sfield sti_uint32 33 ''setflag'' smd_default True"
definition sfclearflag :: sfield where
  "sfclearflag = mk_sfield sti_uint32 34 ''clearflag'' smd_default True"
definition sfindexnext :: sfield where
  "sfindexnext = mk_sfield sti_uint64 1 ''indexnext'' smd_default True"
definition sfindexprevious :: sfield where
  "sfindexprevious = mk_sfield sti_uint64 2 ''indexprevious'' smd_default True"
definition sfbooknode :: sfield where
  "sfbooknode = mk_sfield sti_uint64 3 ''booknode'' smd_default True"
definition sfownernode :: sfield where
  "sfownernode = mk_sfield sti_uint64 4 ''ownernode'' smd_default True"
definition sfbasefee :: sfield where
  "sfbasefee = mk_sfield sti_uint64 5 ''basefee'' smd_default True"
definition sfexchangerate :: sfield where
  "sfexchangerate = mk_sfield sti_uint64 6 ''exchangerate'' smd_default True"
definition sflownode :: sfield where
  "sflownode = mk_sfield sti_uint64 7 ''lownode'' smd_default True"
definition sfhighnode :: sfield where
  "sfhighnode = mk_sfield sti_uint64 8 ''highnode'' smd_default True"
definition sfdividendcoinsvbc :: sfield where
  "sfdividendcoinsvbc = mk_sfield sti_uint64 181 ''dividendcoinsvbc'' smd_default True"
definition sfdividendcoinsvbcrank :: sfield where
  "sfdividendcoinsvbcrank = mk_sfield sti_uint64 182 ''dividendcoinsvbcrank'' smd_default True"
definition sfdividendcoinsvbcsprd :: sfield where
  "sfdividendcoinsvbcsprd = mk_sfield sti_uint64 183 ''dividendcoinsvbcsprd'' smd_default True"
definition sfdividendvrank :: sfield where
  "sfdividendvrank = mk_sfield sti_uint64 184 ''dividendvrank'' smd_default True"
definition sfdividendvsprd :: sfield where
  "sfdividendvsprd = mk_sfield sti_uint64 185 ''dividendvsprd'' smd_default True"
definition sfdividendcoins :: sfield where
  "sfdividendcoins = mk_sfield sti_uint64 186 ''dividendcoins'' smd_default True"
definition sfdividendtsprd :: sfield where
  "sfdividendtsprd = mk_sfield sti_uint64 187 ''dividendtsprd'' smd_default True"
definition sfemailhash :: sfield where
  "sfemailhash = mk_sfield sti_hash128 1 ''emailhash'' smd_default True"
definition sfledgerhash :: sfield where
  "sfledgerhash = mk_sfield sti_hash256 1 ''ledgerhash'' smd_default True"
definition sfparenthash :: sfield where
  "sfparenthash = mk_sfield sti_hash256 2 ''parenthash'' smd_default True"
definition sftransactionhash :: sfield where
  "sftransactionhash = mk_sfield sti_hash256 3 ''transactionhash'' smd_default True"
definition sfaccounthash :: sfield where
  "sfaccounthash = mk_sfield sti_hash256 4 ''accounthash'' smd_default True"
definition sfprevioustxnid :: sfield where
  "sfprevioustxnid = mk_sfield sti_hash256 5 ''previoustxnid'' smd_deletefinal True"
definition sfledgerindex :: sfield where
  "sfledgerindex = mk_sfield sti_hash256 6 ''ledgerindex'' smd_default True"
definition sfwalletlocator :: sfield where
  "sfwalletlocator = mk_sfield sti_hash256 7 ''walletlocator'' smd_default True"
definition sfrootindex :: sfield where
  "sfrootindex = mk_sfield sti_hash256 8 ''rootindex'' smd_always True"
definition sfaccounttxnid :: sfield where
  "sfaccounttxnid = mk_sfield sti_hash256 9 ''accounttxnid'' smd_default True"
definition sfdividendresulthash :: sfield where
  "sfdividendresulthash = mk_sfield sti_hash256 181 ''dividendresulthash'' smd_default True"
definition sfbookdirectory :: sfield where
  "sfbookdirectory = mk_sfield sti_hash256 16 ''bookdirectory'' smd_default True"
definition sfinvoiceid :: sfield where
  "sfinvoiceid = mk_sfield sti_hash256 17 ''invoiceid'' smd_default True"
definition sfnickname :: sfield where
  "sfnickname = mk_sfield sti_hash256 18 ''nickname'' smd_default True"
definition sfamendment :: sfield where
  "sfamendment = mk_sfield sti_hash256 19 ''amendment'' smd_default True"
definition sfticketid :: sfield where
  "sfticketid = mk_sfield sti_hash256 20 ''ticketid'' smd_default True"
definition sftakerpayscurrency :: sfield where
  "sftakerpayscurrency = mk_sfield sti_hash160 1 ''takerpayscurrency'' smd_default True"
definition sftakerpaysissuer :: sfield where
  "sftakerpaysissuer = mk_sfield sti_hash160 2 ''takerpaysissuer'' smd_default True"
definition sftakergetscurrency :: sfield where
  "sftakergetscurrency = mk_sfield sti_hash160 3 ''takergetscurrency'' smd_default True"
definition sftakergetsissuer :: sfield where
  "sftakergetsissuer = mk_sfield sti_hash160 4 ''takergetsissuer'' smd_default True"
definition sfamount :: sfield where
  "sfamount = mk_sfield sti_amount 1 ''amount'' smd_default True"
definition sfbalance :: sfield where
  "sfbalance = mk_sfield sti_amount 2 ''balance'' smd_default True"
definition sflimitamount :: sfield where
  "sflimitamount = mk_sfield sti_amount 3 ''limitamount'' smd_default True"
definition sftakerpays :: sfield where
  "sftakerpays = mk_sfield sti_amount 4 ''takerpays'' smd_default True"
definition sftakergets :: sfield where
  "sftakergets = mk_sfield sti_amount 5 ''takergets'' smd_default True"
definition sflowlimit :: sfield where
  "sflowlimit = mk_sfield sti_amount 6 ''lowlimit'' smd_default True"
definition sfhighlimit :: sfield where
  "sfhighlimit = mk_sfield sti_amount 7 ''highlimit'' smd_default True"
definition sffee :: sfield where
  "sffee = mk_sfield sti_amount 8 ''fee'' smd_default True"
definition sfsendmax :: sfield where
  "sfsendmax = mk_sfield sti_amount 9 ''sendmax'' smd_default True"
definition sfbalancevbc :: sfield where
  "sfbalancevbc = mk_sfield sti_amount 181 ''balancevbc'' smd_default True"
definition sfminimumoffer :: sfield where
  "sfminimumoffer = mk_sfield sti_amount 16 ''minimumoffer'' smd_default True"
definition sfrippleescrow :: sfield where
  "sfrippleescrow = mk_sfield sti_amount 17 ''rippleescrow'' smd_default True"
definition sfdeliveredamount :: sfield where
  "sfdeliveredamount = mk_sfield sti_amount 18 ''deliveredamount'' smd_default True"
definition sfreserve :: sfield where
  "sfreserve = mk_sfield sti_amount 182 ''reserve'' smd_default True"
definition sfpublickey :: sfield where
  "sfpublickey = mk_sfield sti_vl 1 ''publickey'' smd_default True"
definition sfmessagekey :: sfield where
  "sfmessagekey = mk_sfield sti_vl 2 ''messagekey'' smd_default True"
definition sfsigningpubkey :: sfield where
  "sfsigningpubkey = mk_sfield sti_vl 3 ''signingpubkey'' smd_default True"
definition sftxnsignature :: sfield where
  "sftxnsignature = mk_sfield sti_vl 4 ''txnsignature'' smd_default False"
definition sfgenerator :: sfield where
  "sfgenerator = mk_sfield sti_vl 5 ''generator'' smd_default True"
definition sfsignature :: sfield where
  "sfsignature = mk_sfield sti_vl 6 ''signature'' smd_default False"
definition sfdomain :: sfield where
  "sfdomain = mk_sfield sti_vl 7 ''domain'' smd_default True"
definition sffundcode :: sfield where
  "sffundcode = mk_sfield sti_vl 8 ''fundcode'' smd_default True"
definition sfremovecode :: sfield where
  "sfremovecode = mk_sfield sti_vl 9 ''removecode'' smd_default True"
definition sfexpirecode :: sfield where
  "sfexpirecode = mk_sfield sti_vl 10 ''expirecode'' smd_default True"
definition sfcreatecode :: sfield where
  "sfcreatecode = mk_sfield sti_vl 11 ''createcode'' smd_default True"
definition sfmemotype :: sfield where
  "sfmemotype = mk_sfield sti_vl 12 ''memotype'' smd_default True"
definition sfmemodata :: sfield where
  "sfmemodata = mk_sfield sti_vl 13 ''memodata'' smd_default True"
definition sfmemoformat :: sfield where
  "sfmemoformat = mk_sfield sti_vl 14 ''memoformat'' smd_default True"
definition sfaccount :: sfield where
  "sfaccount = mk_sfield sti_account 1 ''account'' smd_default True"
definition sfowner :: sfield where
  "sfowner = mk_sfield sti_account 2 ''owner'' smd_default True"
definition sfdestination :: sfield where
  "sfdestination = mk_sfield sti_account 3 ''destination'' smd_default True"
definition sfissuer :: sfield where
  "sfissuer = mk_sfield sti_account 4 ''issuer'' smd_default True"
definition sftarget :: sfield where
  "sftarget = mk_sfield sti_account 7 ''target'' smd_default True"
definition sfregularkey :: sfield where
  "sfregularkey = mk_sfield sti_account 8 ''regularkey'' smd_default True"
definition sfreferee :: sfield where
  "sfreferee = mk_sfield sti_account 181 ''referee'' smd_default True"
definition sfreference :: sfield where
  "sfreference = mk_sfield sti_account 182 ''reference'' smd_default True"
definition sfpaths :: sfield where
  "sfpaths = mk_sfield sti_pathset 1 ''paths'' smd_default True"
definition sfindexes :: sfield where
  "sfindexes = mk_sfield sti_vector256 1 ''indexes'' smd_never True"
definition sfhashes :: sfield where
  "sfhashes = mk_sfield sti_vector256 2 ''hashes'' smd_default True"
definition sfamendments :: sfield where
  "sfamendments = mk_sfield sti_vector256 3 ''amendments'' smd_default True"
definition sftransactionmetadata :: sfield where
  "sftransactionmetadata = mk_sfield sti_object 2 ''transactionmetadata'' smd_default True"
definition sfcreatednode :: sfield where
  "sfcreatednode = mk_sfield sti_object 3 ''creatednode'' smd_default True"
definition sfdeletednode :: sfield where
  "sfdeletednode = mk_sfield sti_object 4 ''deletednode'' smd_default True"
definition sfmodifiednode :: sfield where
  "sfmodifiednode = mk_sfield sti_object 5 ''modifiednode'' smd_default True"
definition sfpreviousfields :: sfield where
  "sfpreviousfields = mk_sfield sti_object 6 ''previousfields'' smd_default True"
definition sffinalfields :: sfield where
  "sffinalfields = mk_sfield sti_object 7 ''finalfields'' smd_default True"
definition sfnewfields :: sfield where
  "sfnewfields = mk_sfield sti_object 8 ''newfields'' smd_default True"
definition sftemplateentry :: sfield where
  "sftemplateentry = mk_sfield sti_object 9 ''templateentry'' smd_default True"
definition sfmemo :: sfield where
  "sfmemo = mk_sfield sti_object 10 ''memo'' smd_default True"
definition sfreferenceholder :: sfield where
  "sfreferenceholder = mk_sfield sti_object 181 ''referenceholder'' smd_default True"
definition sffeesharetaker :: sfield where
  "sffeesharetaker = mk_sfield sti_object 182 ''feesharetaker'' smd_default True"
definition sfreleasepoint :: sfield where
  "sfreleasepoint = mk_sfield sti_object 183 ''releasepoint'' smd_default True"
definition sfsigningaccounts :: sfield where
  "sfsigningaccounts = mk_sfield sti_array 2 ''signingaccounts'' smd_default True"
definition sftxnsignatures :: sfield where
  "sftxnsignatures = mk_sfield sti_array 3 ''txnsignatures'' smd_default False"
definition sfsignatures :: sfield where
  "sfsignatures = mk_sfield sti_array 4 ''signatures'' smd_default True"
definition sftemplate :: sfield where
  "sftemplate = mk_sfield sti_array 5 ''template'' smd_default True"
definition sfnecessary :: sfield where
  "sfnecessary = mk_sfield sti_array 6 ''necessary'' smd_default True"
definition sfsufficient :: sfield where
  "sfsufficient = mk_sfield sti_array 7 ''sufficient'' smd_default True"
definition sfaffectednodes :: sfield where
  "sfaffectednodes = mk_sfield sti_array 8 ''affectednodes'' smd_default True"
definition sfmemos :: sfield where
  "sfmemos = mk_sfield sti_array 9 ''memos'' smd_default True"
definition sfreferences :: sfield where
  "sfreferences = mk_sfield sti_array 181 ''references'' smd_default True"
definition sffeesharetakers :: sfield where
  "sffeesharetakers = mk_sfield sti_array 182 ''feesharetakers'' smd_default True"
definition sfreleaseschedule :: sfield where
  "sfreleaseschedule = mk_sfield sti_array 183 ''releaseschedule'' smd_default True"

definition known_fields :: "sfield list" where
  "known_fields = [
     sfinvalid, sfgeneric, sfledgerentry, sftransaction, sfvalidation,
     sfmetadata, sfhash, sfindex, sfcloseresolution, sftemplateentrytype,
     sftransactionresult, sfdividendstate, sfdividendtype, sfledgerentrytype, sftransactiontype,
     sfflags, sfsourcetag, sfsequence, sfprevioustxnlgrseq, sfledgersequence,
     sfclosetime, sfparentclosetime, sfsigningtime, sfexpiration, sftransferrate,
     sfwalletsize, sfownercount, sfdestinationtag, sfdividendledger, sfreferenceheight,
     sfreleaserate, sfnextreleasetime, sfhighqualityin, sfhighqualityout, sflowqualityin,
     sflowqualityout, sfqualityin, sfqualityout, sfstampescrow, sfbondamount,
     sfloadfee, sfoffersequence, sffirstledgersequence, sflastledgersequence, sftransactionindex,
     sfoperationlimit, sfreferencefeeunits, sfreservebase, sfreserveincrement, sfsetflag,
     sfclearflag, sfindexnext, sfindexprevious, sfbooknode, sfownernode,
     sfbasefee, sfexchangerate, sflownode, sfhighnode, sfdividendcoinsvbc,
     sfdividendcoinsvbcrank, sfdividendcoinsvbcsprd, sfdividendvrank, sfdividendvsprd, sfdividendcoins,
     sfdividendtsprd, sfemailhash, sfledgerhash, sfparenthash, sftransactionhash,
     sfaccounthash, sfprevioustxnid, sfledgerindex, sfwalletlocator, sfrootindex,
     sfaccounttxnid, sfdividendresulthash, sfbookdirectory, sfinvoiceid, sfnickname,
     sfamendment, sfticketid, sftakerpayscurrency, sftakerpaysissuer, sftakergetscurrency,
     sftakergetsissuer, sfamount, sfbalance, sflimitamount, sftakerpays,
     sftakergets, sflowlimit, sfhighlimit, sffee, sfsendmax,
     sfbalancevbc, sfminimumoffer, sfrippleescrow, sfdeliveredamount, sfreserve,
     sfpublickey, sfmessagekey, sfsigningpubkey, sftxnsignature, sfgenerator,
     sfsignature, sfdomain, sffundcode, sfremovecode, sfexpirecode,
     sfcreatecode, sfmemotype, sfmemodata, sfmemoformat, sfaccount,
     sfowner, sfdestination, sfissuer, sftarget, sfregularkey,
     sfreferee, sfreference, sfpaths, sfindexes, sfhashes,
     sfamendments, sftransactionmetadata, sfcreatednode, sfdeletednode, sfmodifiednode,
     sfpreviousfields, sffinalfields, sfnewfields, sftemplateentry, sfmemo,
     sfreferenceholder, sffeesharetaker, sfreleasepoint, sfsigningaccounts, sftxnsignatures,
     sfsignatures, sftemplate, sfnecessary, sfsufficient, sfaffectednodes,
     sfmemos, sfreferences, sffeesharetakers, sfreleaseschedule]"

text \<open>\<^verbatim>\<open>knownCodeToField\<close>: a later registration of a code replaces an earlier one.\<close>

definition knowncodetofield :: "int \<Rightarrow> sfield option" where
  "knowncodetofield = map_of (rev (map (\<lambda>f. (fieldcode f, f)) known_fields))"

definition extendable_types :: "int list" where
  "extendable_types =
     [sti_uint16, sti_uint32, sti_uint64, sti_hash128, sti_hash256, sti_amount, sti_vl, sti_account, sti_object,
      sti_array, sti_uint8, sti_hash160, sti_pathset, sti_vector256]"

definition getfield_code :: "int \<Rightarrow> sfield res" where
  "getfield_code code =
     (case knowncodetofield code of
        Some f \<Rightarrow> Inr f
      | None \<Rightarrow>
          let type = drop_bit 16 code; field = code AND 0xffff
          in if field > 255 \<or> code < 0 then Inr sfinvalid
             else if type \<in> set extendable_types then mk_sfield_dynamic type field
             else Inr sfinvalid)"

definition getfield :: "int \<Rightarrow> int \<Rightarrow> sfield res" where
  "getfield type value = getfield_code (field_code type value)"

section \<open>Codes\<close>

lemma field_code_arith: "0 \<le> idx \<Longrightarrow> idx < 65536 \<Longrightarrow> field_code i idx = i * 65536 + idx"
proof -
  assume b: "0 \<le> idx" "idx < 65536"
  have "take_bit 16 idx = idx" using b by (simp add: take_bit_eq_mod)
  then have "field_code i idx = push_bit 16 i OR take_bit 16 idx" by (simp add: field_code_def)
  also have "\<dots> = push_bit 16 i + take_bit 16 idx"
    by (rule disjunctive_add [symmetric]) (auto simp: bit_simps)
  finally show ?thesis using \<open>take_bit 16 idx = idx\<close> by (simp add: push_bit_eq_mult)
qed

lemma field_code_fields:
  assumes "0 \<le> idx" "idx < 65536"
  shows "drop_bit 16 (field_code i idx) = i" "field_code i idx AND 0xffff = idx"
proof -
  have "field_code i idx AND 0xffff = take_bit 16 (field_code i idx)"
    by (simp add: take_bit_eq_mask mask_eq_exp_minus_1)
  then show "field_code i idx AND 0xffff = idx" using assms by (simp add: field_code_arith take_bit_eq_mod)
qed (use assms in \<open>simp add: field_code_arith drop_bit_eq_div\<close>)

lemma field_code_inject:
  "0 \<le> a \<Longrightarrow> a < 65536 \<Longrightarrow> 0 \<le> b \<Longrightarrow> b < 65536 \<Longrightarrow> field_code i a = field_code j b \<longleftrightarrow> i = j \<and> a = b"
  by (metis field_code_fields)

text \<open>Every declared field but the two special ones carries the code of its type and number.\<close>

definition code_ok :: "sfield \<Rightarrow> bool" where
  "code_ok f \<longleftrightarrow> fieldcode f \<le> 0 \<or>
     0 < fieldtype f \<and> 0 \<le> fieldvalue f \<and> fieldvalue f < 65536 \<and> fieldcode f = field_code (fieldtype f) (fieldvalue f)"

lemma known_fields_ok: "list_all code_ok known_fields"
  by code_simp

lemma known_codes_distinct: "distinct (map fieldcode known_fields)"
  by code_simp

lemma knowncodetofield_Some: "knowncodetofield c = Some f \<longleftrightarrow> f \<in> set known_fields \<and> fieldcode f = c"
proof -
  have d: "distinct (map fst (rev (map (\<lambda>f. (fieldcode f, f)) known_fields)))"
    using known_codes_distinct by (simp add: rev_map [symmetric] o_def)
  show ?thesis unfolding knowncodetofield_def map_of_eq_Some_iff [OF d] by auto
qed

text \<open>A code read from the wire: its type is one the code is willing to extend and it is no terminator.\<close>

definition wire_code :: "int \<Rightarrow> int \<Rightarrow> bool" where
  "wire_code type value \<longleftrightarrow> type \<in> set extendable_types \<and> 0 < value \<and> value < 256 \<and>
     \<not> (value = 1 \<and> (type = sti_array \<or> type = sti_object))"

lemma extendable_pos: "type \<in> set extendable_types \<Longrightarrow> 0 < type \<and> type < 256"
  by (auto simp: extendable_types_def)

lemma getfield_wire:
  assumes "wire_code type value"
  obtains f where "getfield type value = Inr f" "fieldtype f = type" "fieldvalue f = value"
    "fieldcode f = field_code type value"
proof -
  have v: "0 < value" "value < 256" and t: "0 < type" and e: "type \<in> set extendable_types"
    using assms extendable_pos by (auto simp: wire_code_def)
  have c: "0 < field_code type value" using v t by (simp add: field_code_arith)
  show thesis
  proof (cases "knowncodetofield (field_code type value)")
    case (Some f)
    then have f: "f \<in> set known_fields" "fieldcode f = field_code type value" by (simp_all add: knowncodetofield_Some)
    then have "code_ok f" using known_fields_ok by (simp add: list_all_iff)
    then have "fieldtype f = type \<and> fieldvalue f = value"
      using f(2) c v by (auto simp: code_ok_def field_code_inject)
    moreover have "getfield type value = Inr f" using Some by (simp add: getfield_def getfield_code_def)
    ultimately show thesis using that f(2) by blast
  next
    case None
    then have "getfield type value = mk_sfield_dynamic type value"
      using v c e by (simp add: getfield_def getfield_code_def Let_def field_code_fields)
    moreover have "mk_sfield_dynamic type value =
        Inr (mk_sfield type value (dec_string (nat type) @ ''/'' @ dec_string (nat value)) smd_default True)"
      using assms by (auto simp: mk_sfield_dynamic_def wire_code_def)
    ultimately show thesis by (intro that [of "mk_sfield type value (dec_string (nat type) @ ''/'' @ dec_string (nat value)) smd_default True"])
        (simp_all add: mk_sfield_def)
  qed
qed

lemma getfield_known:
  assumes "f \<in> set known_fields" "0 < fieldcode f"
  shows "getfield (fieldtype f) (fieldvalue f) = Inr f"
proof -
  have "code_ok f" using assms(1) known_fields_ok by (simp add: list_all_iff)
  then have "knowncodetofield (field_code (fieldtype f) (fieldvalue f)) = Some f"
    using assms by (auto simp: knowncodetofield_Some code_ok_def)
  then show ?thesis by (simp add: getfield_def getfield_code_def)
qed

section \<open>Property\<close>

text \<open>
  C32. The codes of the 149 declared fields are pairwise different, so that \<^verbatim>\<open>SField::getField\<close> returns
  every declared field for its own code; and for every type and number that may stand in front of a
  serialized field, other than the two terminators, it returns without failing a field of that type and
  number, the declared one if there is one.
\<close>

theorem getfield_complete:
  assumes "wire_code type value"
  shows "length known_fields = 149 \<and> distinct (map fieldcode known_fields) \<and>
    map (\<lambda>f. getfield_code (fieldcode f)) known_fields = map Inr known_fields \<and>
    (\<exists>f. getfield type value = Inr f \<and> fieldtype f = type \<and> fieldvalue f = value \<and> \<not> isinvalid f \<and>
      list_all (\<lambda>g. fieldtype g = type \<and> fieldvalue g = value \<longrightarrow> fieldcode g = fieldcode f \<and> g = f) known_fields)"
proof -
  have own: "getfield_code (fieldcode f) = Inr f" if "f \<in> set known_fields" for f
    using that knowncodetofield_Some [of "fieldcode f" f] by (simp add: getfield_code_def)
  obtain f where f: "getfield type value = Inr f" "fieldtype f = type" "fieldvalue f = value"
    "fieldcode f = field_code type value" using getfield_wire [OF assms] by blast
  have pos: "0 < type" "0 < value" "value < 256" using assms extendable_pos by (auto simp: wire_code_def)
  then have "\<not> isinvalid f" by (simp add: isinvalid_def f(4) field_code_arith)
  moreover have "fieldcode g = fieldcode f \<and> g = f"
    if g: "g \<in> set known_fields" "fieldtype g = type" "fieldvalue g = value" for g
  proof -
    have "code_ok g" using g(1) known_fields_ok by (simp add: list_all_iff)
    moreover have "list_all (\<lambda>f. fieldcode f \<le> 0 \<longrightarrow> fieldtype f < 0) known_fields" by code_simp
    then have "fieldcode g \<le> 0 \<longrightarrow> fieldtype g < 0" using g(1) by (auto simp: list_all_iff)
    ultimately have "fieldcode g = field_code type value" using pos g(2,3) by (auto simp: code_ok_def)
    then show ?thesis using own [OF g(1)] f by (simp add: getfield_def)
  qed
  moreover have "length known_fields = 149" by code_simp
  ultimately show ?thesis using f own known_codes_distinct by (auto simp: list_all_iff)
qed

theorem getfield_complete_witness:
  "wire_code sti_amount 181 \<and> getfield sti_amount 181 = Inr sfbalancevbc \<and>
   map (\<lambda>f. getfield_code (fieldcode f)) known_fields = map Inr known_fields"
proof -
  have "wire_code sti_amount 181" "getfield sti_amount 181 = Inr sfbalancevbc" by code_simp+
  then show ?thesis using getfield_complete [of sti_amount 181] by blast
qed

end
