(* ===== verification/St_Path.thy ===== *)
theory St_Path
  imports S_Field Amount_Wire
begin

text \<open>
  Payment paths and vectors of hashes: \<^verbatim>\<open>src/ripple/protocol/STPathSet.h\<close>,
  \<^verbatim>\<open>src/ripple/protocol/impl/STPathSet.cpp\<close>, \<^verbatim>\<open>src/ripple/protocol/STVector256.h\<close> and
  \<^verbatim>\<open>src/ripple/protocol/impl/STVector256.cpp\<close>. A path is a list of elements and a path set a list of
  paths. The JSON output is left out.
\<close>

section \<open>Path elements\<close>

definition typenone :: u32 where "typenone = 0x00"
definition typeaccount :: u32 where "typeaccount = 0x01"
definition typecurrency :: u32 where "typecurrency = 0x10"
definition typeissuer :: u32 where "typeissuer = 0x20"
definition typeboundary :: u32 where "typeboundary = 0xff"
definition typeall :: u32 where "typeall = typeaccount OR typecurrency OR typeissuer"

lemmas path_type_defs = typenone_def typeaccount_def typecurrency_def typeissuer_def typeboundary_def typeall_def

record stpathelement =
  mtype :: u32
  maccountid :: account
  mcurrencyid :: currency
  missuerid :: account
  is_offer :: bool
  hash_value :: u64

fun hash_bytes :: "u64 \<Rightarrow> u64 \<Rightarrow> byte list \<Rightarrow> u64" where
  "hash_bytes k h [] = h"
| "hash_bytes k h (x # xs) = hash_bytes k (h + ((h * k) XOR ucast x)) xs"

definition get_hash :: "account \<Rightarrow> currency \<Rightarrow> account \<Rightarrow> u64" where
  "get_hash a c i =
     hash_bytes 257 2654435761 (bits_enc a) XOR hash_bytes 509 2654435761 (bits_enc c) XOR
     hash_bytes 911 2654435761 (bits_enc i)"

text \<open>The two constructors: the type is computed from the fields, or given.\<close>

definition mk_element :: "account \<Rightarrow> currency \<Rightarrow> account \<Rightarrow> bool \<Rightarrow> stpathelement" where
  "mk_element a c i forcecurrency =
     \<lparr>mtype = (if \<not> isnative a then typeaccount else typenone) OR
        (if forcecurrency \<or> \<not> isnative c then typecurrency else 0) OR
        (if \<not> isnative i then typeissuer else 0),
      maccountid = a, mcurrencyid = c, missuerid = i, is_offer = isnative a, hash_value = get_hash a c i\<rparr>"

definition mk_element_typed :: "u32 \<Rightarrow> account \<Rightarrow> currency \<Rightarrow> account \<Rightarrow> stpathelement" where
  "mk_element_typed utype a c i =
     \<lparr>mtype = utype, maccountid = a, mcurrencyid = c, missuerid = i, is_offer = isnative a,
      hash_value = get_hash a c i\<rparr>"

definition element_eq :: "stpathelement \<Rightarrow> stpathelement \<Rightarrow> bool" where
  "element_eq s t \<longleftrightarrow> mtype s AND typeaccount = mtype t AND typeaccount \<and> hash_value s = hash_value t \<and>
     maccountid s = maccountid t \<and> mcurrencyid s = mcurrencyid t \<and> missuerid s = missuerid t"

type_synonym stpath = "stpathelement list"
type_synonym stpathset = "stpath list"

definition hasseen :: "stpath \<Rightarrow> account \<Rightarrow> currency \<Rightarrow> account \<Rightarrow> bool" where
  "hasseen p a c i \<longleftrightarrow> list_ex (\<lambda>e. maccountid e = a \<and> mcurrencyid e = c \<and> missuerid e = i) p"

definition path_eq :: "stpath \<Rightarrow> stpath \<Rightarrow> bool" where
  "path_eq p q \<longleftrightarrow> list_all2 element_eq p q"

text \<open>\<open>base\<close> extended by \<open>tail\<close> is added unless an equal path is in the set already.\<close>

definition assembleadd :: "stpathset \<Rightarrow> stpath \<Rightarrow> stpathelement \<Rightarrow> bool \<times> stpathset" where
  "assembleadd ps base tail =
     (let newpath = base @ [tail]
      in if list_ex (\<lambda>q. path_eq q newpath) (rev ps) then (False, ps) else (True, ps @ [newpath]))"

section \<open>Serialization\<close>

definition read_160_if :: "bool \<Rightarrow> seriter \<Rightarrow> (uint160 \<times> seriter) res" where
  "read_160_if c it = (if c then it_getbitstring it else Inr (0, it))"

definition read_element :: "u32 \<Rightarrow> seriter \<Rightarrow> (stpathelement \<times> seriter) res" where
  "read_element itype it =
     rbind (read_160_if (itype AND typeaccount \<noteq> 0) it) (\<lambda>(a, it1).
     rbind (read_160_if (itype AND typecurrency \<noteq> 0) it1) (\<lambda>(c, it2).
     rbind (read_160_if (itype AND typeissuer \<noteq> 0) it2) (\<lambda>(i, it3).
       Inr (mk_element a c i (itype AND typecurrency \<noteq> 0), it3))))"

text \<open>The iterator moved on within its buffer, by at least \<open>k\<close> bytes.\<close>

definition consumes :: "nat \<Rightarrow> seriter \<Rightarrow> seriter \<Rightarrow> bool" where
  "consumes k it it' \<longleftrightarrow> mserializer it' = mserializer it \<and> mpos it + k \<le> mpos it' \<and>
     (mpos it \<le> length (mserializer it) \<longrightarrow> mpos it' \<le> length (mserializer it'))"

lemma consumes_refl [simp]: "consumes 0 it it"
  by (simp add: consumes_def)

lemma consumes_trans: "consumes j it it1 \<Longrightarrow> consumes k it1 it2 \<Longrightarrow> consumes (j + k) it it2"
  by (auto simp: consumes_def)

lemma consumes_mono: "consumes k it it' \<Longrightarrow> j \<le> k \<Longrightarrow> consumes j it it'"
  by (auto simp: consumes_def)

lemma it_get8_consumes: "it_get8 it = Inr (b, it') \<Longrightarrow> consumes 1 it it' \<and> mpos it < length (mserializer it)"
  by (auto simp: it_get8_def it_read_def get8_eq_Some consumes_def advance_def split: option.splits)

lemma it_getbitstring_consumes:
  "it_getbitstring it = Inr (v :: 'a::len word, it') \<Longrightarrow> consumes (LENGTH('a) div 8) it it'"
  by (auto simp: it_getbitstring_def it_read_def getbitstring_def consumes_def advance_def split: option.splits if_splits)

lemma read_element_consumes: "read_element t it = Inr (e, it') \<Longrightarrow> consumes 0 it it'"
proof -
  have one: "consumes 0 it it'" if "read_160_if c it = Inr (v, it')" for c it v it'
    using that it_getbitstring_consumes [of it v it'] by (auto simp: read_160_if_def consumes_def split: if_splits)
  assume "read_element t it = Inr (e, it')"
  then show ?thesis unfolding read_element_def rbind_eq_Inr_iff case_prod_beta
    by (auto dest!: one intro: consumes_trans [of 0 _ _ 0, simplified])
qed

function construct_paths :: "seriter \<Rightarrow> stpath \<Rightarrow> stpathset \<Rightarrow> (stpathset \<times> seriter) res" where
  "construct_paths it path paths =
     rbind (it_get8 it) (\<lambda>(b, it1).
       let itype = ucast b
       in if itype = typenone \<or> itype = typeboundary then
            if path = [] then Inl (Runtime_error ''empty path'')
            else if itype = typenone then Inr (paths @ [path], it1)
            else construct_paths it1 [] (paths @ [path])
          else if itype AND NOT typeall \<noteq> 0 then Inl (Runtime_error ''bad path element'')
          else rbind (read_element itype it1) (\<lambda>(e, it2). construct_paths it2 (path @ [e]) paths))"
  by auto
termination
proof (relation "measure (\<lambda>(it, path, paths). length (mserializer it) - mpos it)", simp)
  fix it :: seriter and path :: stpath and paths :: stpathset and x b it1 and itype :: u32
  assume "it_get8 it = Inr x" "(b, it1) = x"
  then have g: "consumes 1 it it1" "mpos it < length (mserializer it)" using it_get8_consumes by auto
  then show "((it1, [], paths @ [path]), it, path, paths) \<in> measure (\<lambda>(it, path, paths). length (mserializer it) - mpos it)"
    by (auto simp: consumes_def)
  fix y e it2
  assume "read_element itype it1 = Inr y" "(e, it2) = y"
  then have "consumes 0 it1 it2" using read_element_consumes by auto
  with g show "((it2, path @ [e], paths), it, path, paths) \<in> measure (\<lambda>(it, path, paths). length (mserializer it) - mpos it)"
    by (auto simp: consumes_def)
qed

declare construct_paths.simps [simp del]

definition pathset_construct :: "seriter \<Rightarrow> (stpathset \<times> seriter) res" where
  "pathset_construct it = construct_paths it [] []"

definition element_add :: "serializer \<Rightarrow> stpathelement \<Rightarrow> serializer" where
  "element_add s e =
     (let s1 = snd (add8 s (ucast (mtype e)));
          s2 = (if mtype e AND typeaccount \<noteq> 0 then snd (add160 s1 (maccountid e)) else s1);
          s3 = (if mtype e AND typecurrency \<noteq> 0 then snd (add160 s2 (mcurrencyid e)) else s2)
      in if mtype e AND typeissuer \<noteq> 0 then snd (add160 s3 (missuerid e)) else s3)"

fun paths_add :: "bool \<Rightarrow> serializer \<Rightarrow> stpathset \<Rightarrow> serializer" where
  "paths_add first s [] = s"
| "paths_add first s (p # ps) =
     paths_add False (foldl element_add (if first then s else snd (add8 s (ucast typeboundary))) p) ps"

definition pathset_add :: "serializer \<Rightarrow> stpathset \<Rightarrow> serializer" where
  "pathset_add s ps = snd (add8 (paths_add True s ps) (ucast typenone))"

section \<open>Round trip\<close>

definition elem_enc :: "stpathelement \<Rightarrow> blob" where
  "elem_enc e =
     ucast (mtype e) #
     (if mtype e AND typeaccount \<noteq> 0 then bits_enc (maccountid e) else []) @
     (if mtype e AND typecurrency \<noteq> 0 then bits_enc (mcurrencyid e) else []) @
     (if mtype e AND typeissuer \<noteq> 0 then bits_enc (missuerid e) else [])"

lemma add8_append: "snd (add8 s b) = s @ [b]"
  by (simp add: add8_def)

lemma element_add_enc: "element_add s e = s @ elem_enc e"
  by (simp add: element_add_def elem_enc_def add8_append add160_def addbitstring_append Let_def)

text \<open>
  The elements that survive: computed from their fields, not empty, and without the address of a native
  currency, which the type byte drops, other than zero.
\<close>

definition element_ok :: "stpathelement \<Rightarrow> bool" where
  "element_ok e \<longleftrightarrow>
     e = mk_element (maccountid e) (mcurrencyid e) (missuerid e) (mtype e AND typecurrency \<noteq> 0) \<and>
     mtype e \<noteq> typenone \<and> (isnative (maccountid e) \<longrightarrow> maccountid e = 0) \<and>
     (isnative (missuerid e) \<longrightarrow> missuerid e = 0) \<and> (mtype e AND typecurrency = 0 \<longrightarrow> mcurrencyid e = 0)"

definition pathset_ok :: "stpathset \<Rightarrow> bool" where
  "pathset_ok ps \<longleftrightarrow> ps \<noteq> [] \<and> list_all (\<lambda>p. p \<noteq> [] \<and> list_all element_ok p) ps"

lemma mk_element_bits:
  "mtype (mk_element a c i f) AND typeaccount \<noteq> 0 \<longleftrightarrow> \<not> isnative a"
  "mtype (mk_element a c i f) AND typecurrency \<noteq> 0 \<longleftrightarrow> f \<or> \<not> isnative c"
  "mtype (mk_element a c i f) AND typeissuer \<noteq> 0 \<longleftrightarrow> \<not> isnative i"
  "mtype (mk_element a c i f) AND NOT typeall = 0"
  "mtype (mk_element a c i f) \<noteq> typeboundary"
  "ucast (ucast (mtype (mk_element a c i f)) :: byte) = mtype (mk_element a c i f)"
  by (auto simp: mk_element_def path_type_defs)

lemma read_160_at:
  "read_160_if c (iter_at before ((if c then bits_enc v else []) @ rest)) =
     Inr (if c then v else 0, iter_at (before @ (if c then bits_enc v else [])) rest)"
  using codec160.dec_enc [of before v rest] by (simp add: read_160_if_def)

lemma read_element_at:
  assumes "element_ok e"
  shows "read_element (mtype e) (iter_at before (tl (elem_enc e) @ rest)) =
    Inr (e, iter_at (before @ tl (elem_enc e)) rest)"
proof -
  let ?a = "mtype e AND typeaccount \<noteq> 0" and ?c = "mtype e AND typecurrency \<noteq> 0" and ?i = "mtype e AND typeissuer \<noteq> 0"
  have e: "e = mk_element (maccountid e) (mcurrencyid e) (missuerid e) ?c" using assms by (simp add: element_ok_def)
  have "(if ?a then maccountid e else 0) = maccountid e" "(if ?i then missuerid e else 0) = missuerid e"
    "(if ?c then mcurrencyid e else 0) = mcurrencyid e"
    using assms mk_element_bits(1,3) [of "maccountid e" "mcurrencyid e" "missuerid e" ?c, folded e]
    by (auto simp: element_ok_def)
  then show ?thesis
    using e by (simp only: read_element_def elem_enc_def list.sel append_assoc read_160_at rbind_Inr case_prod_conv)
qed

lemma get8_at: "it_get8 (iter_at before (b # rest)) = Inr (b, iter_at (before @ [b]) rest)"
  using codec8.dec_enc [of before b rest] by (simp add: bits_enc_def addbitstring_def be_eval)

lemma construct_elements:
  "list_all element_ok es \<Longrightarrow>
   construct_paths (iter_at before (concat (map elem_enc es) @ rest)) path paths =
     construct_paths (iter_at (before @ concat (map elem_enc es)) rest) (path @ es) paths"
proof (induction es arbitrary: before path)
  case (Cons e es)
  let ?r = "concat (map elem_enc es) @ rest"
  have ok: "element_ok e" using Cons.prems by simp
  then have e: "e = mk_element (maccountid e) (mcurrencyid e) (missuerid e) (mtype e AND typecurrency \<noteq> 0)"
    by (simp add: element_ok_def)
  note bits = mk_element_bits(4,5,6) [of "maccountid e" "mcurrencyid e" "missuerid e" "mtype e AND typecurrency \<noteq> 0", folded e]
  have hd: "elem_enc e = ucast (mtype e) # tl (elem_enc e)" by (simp add: elem_enc_def)
  have "construct_paths (iter_at before (elem_enc e @ ?r)) path paths =
      construct_paths (iter_at (before @ elem_enc e) ?r) (path @ [e]) paths"
    using ok bits read_element_at [OF ok, of "before @ [ucast (mtype e)]" ?r]
    by (subst (1 2) hd, subst construct_paths.simps) (simp add: get8_at Let_def element_ok_def)
  then show ?case using Cons by simp
qed simp

lemma foldl_element_add: "foldl element_add s p = s @ concat (map elem_enc p)"
  by (induction p arbitrary: s) (simp_all add: element_add_enc)

definition pathset_enc :: "stpathset \<Rightarrow> blob" where
  "pathset_enc ps = pathset_add [] ps"

lemma paths_add_append: "paths_add first s ps = s @ paths_add first [] ps"
proof (induction ps arbitrary: first s)
  case (Cons p ps)
  define b where "b = (if first then [] else [ucast typeboundary :: byte])"
  have "paths_add first t (p # ps) = paths_add False (t @ b @ concat (map elem_enc p)) ps" for t
    by (simp add: b_def foldl_element_add add8_append)
  then show ?case using Cons.IH [of False "s @ b @ concat (map elem_enc p)"] Cons.IH [of False "b @ concat (map elem_enc p)"]
    by simp
qed simp

lemma pathset_add_enc: "pathset_add s ps = s @ pathset_enc ps"
  by (simp add: pathset_add_def pathset_enc_def add8_append paths_add_append [of True s])

lemma construct_rest:
  "list_all (\<lambda>p. p \<noteq> [] \<and> list_all element_ok p) ps \<Longrightarrow> path \<noteq> [] \<Longrightarrow> ucast typ = typenone \<Longrightarrow>
   construct_paths (iter_at before (paths_add False [] ps @ typ # rest)) path paths =
     Inr (paths @ path # ps, iter_at (before @ paths_add False [] ps @ [typ]) rest)"
proof (induction ps arbitrary: before path paths)
  case Nil
  then show ?case by (auto simp: construct_paths.simps [of "iter_at _ _"] get8_at Let_def)
next
  case (Cons p ps)
  define b where "b = (ucast typeboundary :: byte)"
  let ?ps = "paths_add False [] ps"
  have enc: "paths_add False [] (p # ps) = b # concat (map elem_enc p) @ ?ps"
    using paths_add_append [of False "b # concat (map elem_enc p)" ps] by (simp add: foldl_element_add add8_append b_def)
  have b: "(ucast b :: u32) = typeboundary" "typeboundary \<noteq> typenone" by (simp_all add: b_def path_type_defs)
  have "construct_paths (iter_at before (b # concat (map elem_enc p) @ ?ps @ typ # rest)) path paths =
      construct_paths (iter_at (before @ [b]) (concat (map elem_enc p) @ ?ps @ typ # rest)) [] (paths @ [path])"
    using Cons.prems(2) b by (subst construct_paths.simps) (simp add: get8_at Let_def)
  also have "\<dots> = construct_paths (iter_at (before @ b # concat (map elem_enc p)) (?ps @ typ # rest)) p (paths @ [path])"
    using construct_elements [of p "before @ [b]" "?ps @ typ # rest" "[]" "paths @ [path]"] Cons.prems(1) by simp
  finally have step: "construct_paths (iter_at before (paths_add False [] (p # ps) @ typ # rest)) path paths =
      construct_paths (iter_at (before @ b # concat (map elem_enc p)) (?ps @ typ # rest)) p (paths @ [path])"
    unfolding enc by simp
  show ?case
    using Cons.IH [of p "before @ b # concat (map elem_enc p)" "paths @ [path]"] Cons.prems
    unfolding step unfolding enc by simp
qed

lemma pathset_roundtrip:
  assumes "pathset_ok ps"
  shows "pathset_construct (iter_at before (pathset_enc ps @ rest)) = Inr (ps, iter_at (before @ pathset_enc ps) rest)"
proof -
  from assms obtain p qs where ps: "ps = p # qs" "p \<noteq> []" "list_all element_ok p"
    and qs: "list_all (\<lambda>p. p \<noteq> [] \<and> list_all element_ok p) qs"
    by (cases ps) (auto simp: pathset_ok_def)
  define n where "n = (ucast typenone :: byte)"
  have n: "(ucast n :: u32) = typenone" by (simp add: n_def path_type_defs)
  have enc: "pathset_enc ps = concat (map elem_enc p) @ paths_add False [] qs @ [n]"
    using paths_add_append [of False "concat (map elem_enc p)" qs]
    by (simp add: pathset_enc_def pathset_add_def add8_append ps(1) foldl_element_add n_def)
  have "pathset_construct (iter_at before (pathset_enc ps @ rest)) =
      construct_paths (iter_at (before @ concat (map elem_enc p)) (paths_add False [] qs @ n # rest)) p []"
    using construct_elements [OF ps(3), of before "paths_add False [] qs @ n # rest" "[]" "[]"]
    by (simp add: pathset_construct_def enc)
  also have "\<dots> = Inr (ps, iter_at (before @ pathset_enc ps) rest)"
    using construct_rest [OF qs ps(2) n, of "before @ concat (map elem_enc p)" rest "[]"]
    unfolding enc by (simp add: ps(1))
  finally show ?thesis .
qed

interpretation codec_pathset: codec pathset_ok pathset_enc pathset_construct
  by unfold_locales (rule pathset_roundtrip)

section \<open>Vectors of 256-bit values\<close>

fun chunks256 :: "nat \<Rightarrow> blob \<Rightarrow> uint256 list" where
  "chunks256 0 data = []"
| "chunks256 (Suc n) data = of_nat (be_val (take 32 data)) # chunks256 n (drop 32 data)"

definition vector256_construct :: "seriter \<Rightarrow> (uint256 list \<times> seriter) res" where
  "vector256_construct it =
     rbind (it_getvl it) (\<lambda>(data, it1). Inr (chunks256 (length data div (256 div 8)) data, it1))"

definition vector256_add :: "serializer \<Rightarrow> uint256 list \<Rightarrow> serializer res" where
  "vector256_add s xs = rbind (addvl s (concat (map bits_enc xs))) (\<lambda>(_, s1). Inr s1)"

definition vector256_enc :: "uint256 list \<Rightarrow> blob" where
  "vector256_enc xs = vl_enc (concat (map bits_enc xs))"

definition vector256_ok :: "uint256 list \<Rightarrow> bool" where
  "vector256_ok xs \<longleftrightarrow> 32 * length xs \<le> 918744"

lemma of_nat_be_val_bits: "of_nat (be_val (bits_enc (v :: uint256))) = v"
proof -
  have "unat v < 2 ^ LENGTH(256)" by (rule unsigned_less)
  then show ?thesis by (simp add: bits_enc_bytes be_val_be_bytes)
qed

lemma chunks256_concat: "chunks256 (length xs) (concat (map bits_enc xs)) = xs"
  by (induction xs) (simp_all add: of_nat_be_val_bits)

lemma length_concat_bits: "length (concat (map bits_enc (xs :: uint256 list))) = 32 * length xs"
  by (induction xs) simp_all

lemma addvl_enc: "length v \<le> 918744 \<Longrightarrow> \<exists>r. addvl s v = Inr (r, s @ vl_enc v)"
  by (auto simp: addvl_def vl_enc_def encodevl_def addraw_def encodelengthlength_def to_i32_id Let_def)

lemma vector256_add_enc: "vector256_ok xs \<Longrightarrow> vector256_add s xs = Inr (s @ vector256_enc xs)"
  using addvl_enc [of "concat (map bits_enc xs)" s]
  by (auto simp: vector256_add_def vector256_enc_def vector256_ok_def length_concat_bits)

interpretation codec_vector256: codec vector256_ok vector256_enc vector256_construct
proof
  fix xs :: "uint256 list" and before rest
  assume "vector256_ok xs"
  then have "length (concat (map bits_enc xs)) \<le> 918744" by (simp only: vector256_ok_def length_concat_bits)
  then show "vector256_construct (iter_at before (vector256_enc xs @ rest)) =
      Inr (xs, iter_at (before @ vector256_enc xs) rest)"
    using codec_vl.dec_enc [of "concat (map bits_enc xs)" before rest]
    by (simp add: vector256_construct_def vector256_enc_def chunks256_concat length_concat_bits)
qed

end
