(* ===== verification/St_Object.thy ===== *)
theory St_Object
  imports St_Path
begin

text \<open>
  Objects made of fields: \<^verbatim>\<open>src/ripple/protocol/STObject.h\<close>, \<^verbatim>\<open>src/ripple/protocol/impl/STObject.cpp\<close>
  and the classes of field values (\<^verbatim>\<open>STBase\<close>, \<^verbatim>\<open>STInteger\<close>, \<^verbatim>\<open>STBitString\<close>, \<^verbatim>\<open>STBlob\<close>,
  \<^verbatim>\<open>STAccount\<close>, \<^verbatim>\<open>STArray\<close>) with the templates of \<^verbatim>\<open>SOTemplate\<close>. An object is a template, when it has
  one, and the vector of its named fields; an optional field that is absent is the value
  \<open>ST_notpresent\<close>. A failing \<^verbatim>\<open>dynamic_cast\<close> is \<open>None\<close>, an exception \<open>Inl\<close>. Serialization is in theory
  \<^verbatim>\<open>St_Wire\<close>; text and JSON output is left out.
\<close>

section \<open>Templates\<close>

datatype soe_flags = soe_invalid | soe_required | soe_optional | soe_default

type_synonym soelement = "sfield \<times> soe_flags"
type_synonym sotemplate = "soelement list"

text \<open>The position of a field in a template or in the fields of an object; \<open>None\<close> is the \<open>-1\<close> of the code.\<close>

fun find_field :: "sfield \<Rightarrow> (sfield \<times> 'a) list \<Rightarrow> nat option" where
  "find_field f [] = None"
| "find_field f (x # xs) = (if field_eq (fst x) f then Some 0 else map_option Suc (find_field f xs))"

text \<open>
  The index table \<^verbatim>\<open>mIndex\<close> of a template is as long as there are fields when its first element is added,
  and the assertions test the number of a field against that length. The declared fields have the
  lowest numbers; a field that \<^verbatim>\<open>SField::getField\<close> makes up later has a number beyond the table. The model
  takes the templates as made before any such field.
\<close>

definition declared :: "sfield \<Rightarrow> bool" where
  "declared f \<longleftrightarrow> fieldcode f \<in> set (map fieldcode known_fields)"

definition template_getindex :: "sotemplate \<Rightarrow> sfield \<Rightarrow> nat option res" where
  "template_getindex t f = rassert (t \<noteq> [] \<and> declared f) (Inr (find_field f t))"

definition template_push_back :: "sotemplate \<Rightarrow> soelement \<Rightarrow> sotemplate res" where
  "template_push_back t r =
     rassert (declared (fst r)) (rassert (find_field (fst r) t = None) (Inr (t @ [r])))"

section \<open>Values and objects\<close>

datatype stvalue =
    ST_notpresent
  | ST_uint8 byte
  | ST_uint16 u16
  | ST_uint32 u32
  | ST_uint64 u64
  | ST_hash128 uint128
  | ST_hash160 uint160
  | ST_hash256 uint256
  | ST_amount stamount
  | ST_vl blob
  | ST_account blob
  | ST_pathset stpathset
  | ST_vector256 "uint256 list"
  | ST_array "(sfield \<times> stobject) list"
  | ST_object stobject
and stobject = ST_obj (otype: "sotemplate option") (odata: "(sfield \<times> stvalue) list")

type_synonym fields = "(sfield \<times> stvalue) list"

fun getstype :: "stvalue \<Rightarrow> int" where
  "getstype ST_notpresent = sti_notpresent"
| "getstype (ST_uint8 _) = sti_uint8"
| "getstype (ST_uint16 _) = sti_uint16"
| "getstype (ST_uint32 _) = sti_uint32"
| "getstype (ST_uint64 _) = sti_uint64"
| "getstype (ST_hash128 _) = sti_hash128"
| "getstype (ST_hash160 _) = sti_hash160"
| "getstype (ST_hash256 _) = sti_hash256"
| "getstype (ST_amount _) = sti_amount"
| "getstype (ST_vl _) = sti_vl"
| "getstype (ST_account _) = sti_account"
| "getstype (ST_pathset _) = sti_pathset"
| "getstype (ST_vector256 _) = sti_vector256"
| "getstype (ST_array _) = sti_array"
| "getstype (ST_object _) = sti_object"

fun value_isdefault :: "stvalue \<Rightarrow> bool" where
  "value_isdefault ST_notpresent = True"
| "value_isdefault (ST_uint8 v) = (v = 0)"
| "value_isdefault (ST_uint16 v) = (v = 0)"
| "value_isdefault (ST_uint32 v) = (v = 0)"
| "value_isdefault (ST_uint64 v) = (v = 0)"
| "value_isdefault (ST_hash128 v) = (v = 0)"
| "value_isdefault (ST_hash160 v) = (v = 0)"
| "value_isdefault (ST_hash256 v) = (v = 0)"
| "value_isdefault (ST_amount a) = isdefault a"
| "value_isdefault (ST_vl v) = (v = [])"
| "value_isdefault (ST_account v) = (v = [])"
| "value_isdefault (ST_pathset v) = (v = [])"
| "value_isdefault (ST_vector256 v) = (v = [])"
| "value_isdefault (ST_array v) = (v = [])"
| "value_isdefault (ST_object ob) = (odata ob = [])"

definition makedefaultobject :: "int \<Rightarrow> stvalue res" where
  "makedefaultobject i =
     (if i = sti_notpresent then Inr ST_notpresent
      else if i = sti_uint8 then Inr (ST_uint8 0)
      else if i = sti_uint16 then Inr (ST_uint16 0)
      else if i = sti_uint32 then Inr (ST_uint32 0)
      else if i = sti_uint64 then Inr (ST_uint64 0)
      else if i = sti_amount then Inr (ST_amount (mk_native_u64 False 0 False))
      else if i = sti_hash128 then Inr (ST_hash128 0)
      else if i = sti_hash160 then Inr (ST_hash160 0)
      else if i = sti_hash256 then Inr (ST_hash256 0)
      else if i = sti_vector256 then Inr (ST_vector256 [])
      else if i = sti_vl then Inr (ST_vl [])
      else if i = sti_account then Inr (ST_account [])
      else if i = sti_pathset then Inr (ST_pathset [])
      else if i = sti_object then Inr (ST_object (ST_obj None []))
      else if i = sti_array then Inr (ST_array [])
      else Inl Assertion_failed)"

section \<open>Templates applied to objects\<close>

definition isfree :: "stobject \<Rightarrow> bool" where
  "isfree ob \<longleftrightarrow> otype ob = None"

fun template_data :: "sotemplate \<Rightarrow> fields res" where
  "template_data [] = Inr []"
| "template_data ((f, flags) # t) =
     rbind (if flags \<noteq> soe_required then Inr ST_notpresent else makedefaultobject (fieldtype f)) (\<lambda>v.
     rbind (template_data t) (\<lambda>d. Inr ((f, v) # d)))"

definition obj_set :: "sotemplate \<Rightarrow> stobject res" where
  "obj_set t = rbind (template_data t) (\<lambda>d. Inr (ST_obj (Some t) d))"

text \<open>The first field of that name, and the fields without it\<close>

fun extract_field :: "sfield \<Rightarrow> fields \<Rightarrow> ((sfield \<times> stvalue) \<times> fields) option" where
  "extract_field f [] = None"
| "extract_field f (x # xs) =
     (if field_eq (fst x) f then Some (x, xs)
      else map_option (\<lambda>(y, ys). (y, x # ys)) (extract_field f xs))"

fun settype_loop :: "sotemplate \<Rightarrow> fields \<Rightarrow> bool \<times> fields \<times> fields" where
  "settype_loop [] d = (True, [], d)"
| "settype_loop ((f, flags) # t) d =
     (case extract_field f d of
        Some ((g, v), d1) \<Rightarrow>
          let (valid, newdata, left) = settype_loop t d1
          in (valid \<and> \<not> (flags = soe_default \<and> value_isdefault v), (g, v) # newdata, left)
      | None \<Rightarrow>
          let (valid, newdata, left) = settype_loop t d
          in (valid \<and> flags \<noteq> soe_required, (f, ST_notpresent) # newdata, left))"

definition settype :: "sotemplate \<Rightarrow> stobject \<Rightarrow> bool \<times> stobject" where
  "settype t ob =
     (let (valid, newdata, left) = settype_loop t (odata ob)
      in (valid \<and> list_all (\<lambda>x. isdiscardable (fst x)) left, ST_obj (Some t) newdata))"

fun isvalidfortype_loop :: "sotemplate \<Rightarrow> fields \<Rightarrow> bool" where
  "isvalidfortype_loop [] d = True"
| "isvalidfortype_loop (e # t) [] = False"
| "isvalidfortype_loop (e # t) (x # d) = (if \<not> field_eq (fst e) (fst x) then False else isvalidfortype_loop t d)"

definition isvalidfortype :: "stobject \<Rightarrow> bool" where
  "isvalidfortype ob = (case otype ob of Some t \<Rightarrow> isvalidfortype_loop t (odata ob) | None \<Rightarrow> False)"

definition isfieldallowed :: "stobject \<Rightarrow> sfield \<Rightarrow> bool res" where
  "isfieldallowed ob f =
     (case otype ob of None \<Rightarrow> Inr True | Some t \<Rightarrow> rbind (template_getindex t f) (\<lambda>i. Inr (i \<noteq> None)))"

section \<open>Access by name\<close>

definition getfieldindex :: "stobject \<Rightarrow> sfield \<Rightarrow> nat option res" where
  "getfieldindex ob f =
     (case otype ob of Some t \<Rightarrow> template_getindex t f | None \<Rightarrow> Inr (find_field f (odata ob)))"

definition peekatindex :: "stobject \<Rightarrow> nat \<Rightarrow> stvalue res" where
  "peekatindex ob i = (if i < length (odata ob) then Inr (snd (odata ob ! i)) else Inl Assertion_failed)"

definition put_index :: "stobject \<Rightarrow> nat \<Rightarrow> stvalue \<Rightarrow> stobject" where
  "put_index ob i v = ST_obj (otype ob) ((odata ob)[i := (fst (odata ob ! i), v)])"

text \<open>\<open>None\<close> is the null pointer.\<close>

definition peekatpfield :: "stobject \<Rightarrow> sfield \<Rightarrow> stvalue option res" where
  "peekatpfield ob f =
     rbind (getfieldindex ob f) (\<lambda>index.
       case index of None \<Rightarrow> Inr None | Some i \<Rightarrow> rbind (peekatindex ob i) (\<lambda>v. Inr (Some v)))"

definition isfieldpresent :: "stobject \<Rightarrow> sfield \<Rightarrow> bool res" where
  "isfieldpresent ob f =
     rbind (getfieldindex ob f) (\<lambda>index.
       case index of
         None \<Rightarrow> Inr False
       | Some i \<Rightarrow> rbind (peekatindex ob i) (\<lambda>v. Inr (getstype v \<noteq> sti_notpresent)))"

text \<open>\<^verbatim>\<open>getFieldByValue\<close> and \<^verbatim>\<open>getFieldByConstRef\<close>: \<open>cast\<close> is the dynamic cast, \<open>dflt\<close> the value of an absent field.\<close>

definition getfieldbyvalue :: "(stvalue \<Rightarrow> 'a option) \<Rightarrow> 'a \<Rightarrow> stobject \<Rightarrow> sfield \<Rightarrow> 'a res" where
  "getfieldbyvalue cast dflt ob f =
     rbind (peekatpfield ob f) (\<lambda>rf.
       case rf of
         None \<Rightarrow> Inl (Runtime_error ''field not found'')
       | Some v \<Rightarrow>
           if getstype v = sti_notpresent then Inr dflt
           else (case cast v of None \<Rightarrow> Inl (Runtime_error ''wrong field type'') | Some x \<Rightarrow> Inr x))"

text \<open>\<^verbatim>\<open>getPField (field, true)\<close>: the position of the field, appended to a free object that lacks it.\<close>

definition getpfield_create :: "stobject \<Rightarrow> sfield \<Rightarrow> (stobject \<times> nat) res" where
  "getpfield_create ob f =
     rbind (getfieldindex ob f) (\<lambda>index.
       case index of
         Some i \<Rightarrow> Inr (ob, i)
       | None \<Rightarrow>
           if isfree ob
           then rbind (makedefaultobject (fieldtype f)) (\<lambda>v. Inr (ST_obj (otype ob) (odata ob @ [(f, v)]), length (odata ob)))
           else Inl (Runtime_error ''field not found''))"

definition makefieldpresent :: "stobject \<Rightarrow> sfield \<Rightarrow> stobject res" where
  "makefieldpresent ob f =
     rbind (getfieldindex ob f) (\<lambda>index.
       case index of
         None \<Rightarrow>
           if \<not> isfree ob then Inl (Runtime_error ''field not found'')
           else Inr (ST_obj (otype ob) (odata ob @ [(f, ST_notpresent)]))
       | Some i \<Rightarrow>
           rbind (peekatindex ob i) (\<lambda>v.
             if getstype v \<noteq> sti_notpresent then Inr ob
             else rbind (makedefaultobject (fieldtype (fst (odata ob ! i)))) (\<lambda>d. Inr (put_index ob i d))))"

text \<open>
  \<^verbatim>\<open>setFieldUsingSetValue\<close> and \<^verbatim>\<open>setFieldUsingAssignment\<close>: \<open>cast\<close> tells whether the field, made present
  first, has the class of the new value; \<open>upd\<close> is the assignment.
\<close>

definition setfield :: "(stvalue \<Rightarrow> 'a option) \<Rightarrow> (stvalue \<Rightarrow> stvalue) \<Rightarrow> stobject \<Rightarrow> sfield \<Rightarrow> stobject res" where
  "setfield cast upd ob f =
     rbind (getpfield_create ob f) (\<lambda>(ob1, i).
     rbind (peekatindex ob1 i) (\<lambda>w.
     rbind (if getstype w = sti_notpresent then makefieldpresent ob1 f else Inr ob1) (\<lambda>ob2.
     rbind (peekatindex ob2 i) (\<lambda>u.
       case cast u of
         None \<Rightarrow> Inl (Runtime_error ''wrong field type'')
       | Some _ \<Rightarrow> Inr (put_index ob2 i (upd u))))))"

definition makefieldabsent :: "stobject \<Rightarrow> sfield \<Rightarrow> stobject res" where
  "makefieldabsent ob f =
     rbind (getfieldindex ob f) (\<lambda>index.
       case index of
         None \<Rightarrow> Inl (Runtime_error ''field not found'')
       | Some i \<Rightarrow>
           rbind (peekatindex ob i) (\<lambda>v.
             if getstype v = sti_notpresent then Inr ob else Inr (put_index ob i ST_notpresent)))"

definition delfield :: "stobject \<Rightarrow> sfield \<Rightarrow> (bool \<times> stobject) res" where
  "delfield ob f =
     rbind (getfieldindex ob f) (\<lambda>index.
       case index of
         None \<Rightarrow> Inr (False, ob)
       | Some i \<Rightarrow> Inr (True, ST_obj (otype ob) (take i (odata ob) @ drop (Suc i) (odata ob))))"

section \<open>Typed access\<close>

text \<open>
  The dynamic casts, one per class of values. An account is a byte string by inheritance, so the cast to a
  byte string accepts it.
\<close>

definition as_u8 :: "stvalue \<Rightarrow> byte option" where
  "as_u8 v = (case v of ST_uint8 x \<Rightarrow> Some x | _ \<Rightarrow> None)"

definition as_u16 :: "stvalue \<Rightarrow> u16 option" where
  "as_u16 v = (case v of ST_uint16 x \<Rightarrow> Some x | _ \<Rightarrow> None)"

definition as_u32 :: "stvalue \<Rightarrow> u32 option" where
  "as_u32 v = (case v of ST_uint32 x \<Rightarrow> Some x | _ \<Rightarrow> None)"

definition as_u64 :: "stvalue \<Rightarrow> u64 option" where
  "as_u64 v = (case v of ST_uint64 x \<Rightarrow> Some x | _ \<Rightarrow> None)"

definition as_h128 :: "stvalue \<Rightarrow> uint128 option" where
  "as_h128 v = (case v of ST_hash128 x \<Rightarrow> Some x | _ \<Rightarrow> None)"

definition as_h160 :: "stvalue \<Rightarrow> uint160 option" where
  "as_h160 v = (case v of ST_hash160 x \<Rightarrow> Some x | _ \<Rightarrow> None)"

definition as_h256 :: "stvalue \<Rightarrow> uint256 option" where
  "as_h256 v = (case v of ST_hash256 x \<Rightarrow> Some x | _ \<Rightarrow> None)"

definition as_amount :: "stvalue \<Rightarrow> stamount option" where
  "as_amount v = (case v of ST_amount x \<Rightarrow> Some x | _ \<Rightarrow> None)"

definition as_pathset :: "stvalue \<Rightarrow> stpathset option" where
  "as_pathset v = (case v of ST_pathset x \<Rightarrow> Some x | _ \<Rightarrow> None)"

definition as_v256 :: "stvalue \<Rightarrow> (uint256 list) option" where
  "as_v256 v = (case v of ST_vector256 x \<Rightarrow> Some x | _ \<Rightarrow> None)"

definition as_array :: "stvalue \<Rightarrow> ((sfield \<times> stobject) list) option" where
  "as_array v = (case v of ST_array x \<Rightarrow> Some x | _ \<Rightarrow> None)"

definition as_vl :: "stvalue \<Rightarrow> blob option" where
  "as_vl v = (case v of ST_vl x \<Rightarrow> Some x | ST_account x \<Rightarrow> Some x | _ \<Rightarrow> None)"

definition as_account :: "stvalue \<Rightarrow> blob option" where
  "as_account v = (case v of ST_account x \<Rightarrow> Some x | _ \<Rightarrow> None)"

definition getfieldu8 :: "stobject \<Rightarrow> sfield \<Rightarrow> byte res" where
  "getfieldu8 = getfieldbyvalue as_u8 0"

definition getfieldu16 :: "stobject \<Rightarrow> sfield \<Rightarrow> u16 res" where
  "getfieldu16 = getfieldbyvalue as_u16 0"

definition getfieldu32 :: "stobject \<Rightarrow> sfield \<Rightarrow> u32 res" where
  "getfieldu32 = getfieldbyvalue as_u32 0"

definition getfieldu64 :: "stobject \<Rightarrow> sfield \<Rightarrow> u64 res" where
  "getfieldu64 = getfieldbyvalue as_u64 0"

definition getfieldh128 :: "stobject \<Rightarrow> sfield \<Rightarrow> uint128 res" where
  "getfieldh128 = getfieldbyvalue as_h128 0"

definition getfieldh160 :: "stobject \<Rightarrow> sfield \<Rightarrow> uint160 res" where
  "getfieldh160 = getfieldbyvalue as_h160 0"

definition getfieldh256 :: "stobject \<Rightarrow> sfield \<Rightarrow> uint256 res" where
  "getfieldh256 = getfieldbyvalue as_h256 0"

definition getfieldamount :: "stobject \<Rightarrow> sfield \<Rightarrow> stamount res" where
  "getfieldamount = getfieldbyvalue as_amount (mk_plain 0 False)"

definition getfieldpathset :: "stobject \<Rightarrow> sfield \<Rightarrow> stpathset res" where
  "getfieldpathset = getfieldbyvalue as_pathset []"

definition getfieldv256 :: "stobject \<Rightarrow> sfield \<Rightarrow> (uint256 list) res" where
  "getfieldv256 = getfieldbyvalue as_v256 []"

definition getfieldarray :: "stobject \<Rightarrow> sfield \<Rightarrow> ((sfield \<times> stobject) list) res" where
  "getfieldarray = getfieldbyvalue as_array []"

definition getfieldvl :: "stobject \<Rightarrow> sfield \<Rightarrow> blob res" where
  "getfieldvl = getfieldbyvalue as_vl []"

definition isvalueh160 :: "blob \<Rightarrow> bool" where
  "isvalueh160 b \<longleftrightarrow> length b = 160 div 8"

definition getvalueh160 :: "blob \<Rightarrow> account option" where
  "getvalueh160 b = (if isvalueh160 b then Some (of_nat (be_val b)) else None)"

text \<open>\<open>None\<close> is the empty address.\<close>

definition getfieldaccount :: "stobject \<Rightarrow> sfield \<Rightarrow> account option res" where
  "getfieldaccount ob f = rbind (getfieldbyvalue as_account [] ob f) (\<lambda>b. Inr (getvalueh160 b))"

definition getfieldaccount160 :: "stobject \<Rightarrow> sfield \<Rightarrow> account res" where
  "getfieldaccount160 ob f =
     rbind (getfieldbyvalue as_account [] ob f) (\<lambda>b.
       Inr (case getvalueh160 b of Some a \<Rightarrow> a | None \<Rightarrow> 0))"

definition setfieldu8 :: "stobject \<Rightarrow> sfield \<Rightarrow> byte \<Rightarrow> stobject res" where
  "setfieldu8 ob f v = setfield as_u8 (\<lambda>_. ST_uint8 v) ob f"

definition setfieldu16 :: "stobject \<Rightarrow> sfield \<Rightarrow> u16 \<Rightarrow> stobject res" where
  "setfieldu16 ob f v = setfield as_u16 (\<lambda>_. ST_uint16 v) ob f"

definition setfieldu32 :: "stobject \<Rightarrow> sfield \<Rightarrow> u32 \<Rightarrow> stobject res" where
  "setfieldu32 ob f v = setfield as_u32 (\<lambda>_. ST_uint32 v) ob f"

definition setfieldu64 :: "stobject \<Rightarrow> sfield \<Rightarrow> u64 \<Rightarrow> stobject res" where
  "setfieldu64 ob f v = setfield as_u64 (\<lambda>_. ST_uint64 v) ob f"

definition setfieldh128 :: "stobject \<Rightarrow> sfield \<Rightarrow> uint128 \<Rightarrow> stobject res" where
  "setfieldh128 ob f v = setfield as_h128 (\<lambda>_. ST_hash128 v) ob f"

definition setfieldh160 :: "stobject \<Rightarrow> sfield \<Rightarrow> uint160 \<Rightarrow> stobject res" where
  "setfieldh160 ob f v = setfield as_h160 (\<lambda>_. ST_hash160 v) ob f"

definition setfieldh256 :: "stobject \<Rightarrow> sfield \<Rightarrow> uint256 \<Rightarrow> stobject res" where
  "setfieldh256 ob f v = setfield as_h256 (\<lambda>_. ST_hash256 v) ob f"

definition setfieldamount :: "stobject \<Rightarrow> sfield \<Rightarrow> stamount \<Rightarrow> stobject res" where
  "setfieldamount ob f v = setfield as_amount (\<lambda>_. ST_amount v) ob f"

definition setfieldpathset :: "stobject \<Rightarrow> sfield \<Rightarrow> stpathset \<Rightarrow> stobject res" where
  "setfieldpathset ob f v = setfield as_pathset (\<lambda>_. ST_pathset v) ob f"

definition setfieldv256 :: "stobject \<Rightarrow> sfield \<Rightarrow> (uint256 list) \<Rightarrow> stobject res" where
  "setfieldv256 ob f v = setfield as_v256 (\<lambda>_. ST_vector256 v) ob f"

definition setfieldarray :: "stobject \<Rightarrow> sfield \<Rightarrow> ((sfield \<times> stobject) list) \<Rightarrow> stobject res" where
  "setfieldarray ob f v = setfield as_array (\<lambda>_. ST_array v) ob f"

definition setfieldvl :: "stobject \<Rightarrow> sfield \<Rightarrow> blob \<Rightarrow> stobject res" where
  "setfieldvl ob f v =
     setfield as_vl (\<lambda>u. case u of ST_account _ \<Rightarrow> ST_account v | _ \<Rightarrow> ST_vl v) ob f"

definition setfieldaccount :: "stobject \<Rightarrow> sfield \<Rightarrow> account \<Rightarrow> stobject res" where
  "setfieldaccount ob f v = setfield as_account (\<lambda>_. ST_account (bits_enc v)) ob f"

definition getflags :: "stobject \<Rightarrow> u32 res" where
  "getflags ob =
     rbind (peekatpfield ob sfflags) (\<lambda>rf.
       Inr (case rf of None \<Rightarrow> 0 | Some v \<Rightarrow> (case as_u32 v of None \<Rightarrow> 0 | Some x \<Rightarrow> x)))"

definition isflag :: "stobject \<Rightarrow> u32 \<Rightarrow> bool res" where
  "isflag ob f = rbind (getflags ob) (\<lambda>x. Inr (x AND f = f))"

text \<open>\<^verbatim>\<open>setFlag\<close> may create the field of a free object, \<^verbatim>\<open>clearFlag\<close> does not.\<close>

definition setflag :: "stobject \<Rightarrow> u32 \<Rightarrow> (bool \<times> stobject) res" where
  "setflag ob f =
     rbind (getfieldindex ob sfflags) (\<lambda>index.
       if index = None \<and> \<not> isfree ob then Inr (False, ob)
       else rbind (getpfield_create ob sfflags) (\<lambda>(ob1, i).
         rbind (peekatindex ob1 i) (\<lambda>v.
           case as_u32 v of
             None \<Rightarrow> Inr (False, ob1)
           | Some x \<Rightarrow> Inr (True, put_index ob1 i (ST_uint32 (x OR f))))))"

definition clearflag :: "stobject \<Rightarrow> u32 \<Rightarrow> (bool \<times> stobject) res" where
  "clearflag ob f =
     rbind (getfieldindex ob sfflags) (\<lambda>index.
       case index of
         None \<Rightarrow> Inr (False, ob)
       | Some i \<Rightarrow>
           rbind (peekatindex ob i) (\<lambda>v.
             case as_u32 v of
               None \<Rightarrow> Inr (False, ob)
             | Some x \<Rightarrow> Inr (True, put_index ob i (ST_uint32 (x AND NOT f)))))"

section \<open>Well-formed objects\<close>

definition proper :: "sfield \<Rightarrow> bool" where
  "proper f \<longleftrightarrow> 0 < fieldcode f \<and> code_ok f"

definition typed_value :: "sfield \<times> stvalue \<Rightarrow> bool" where
  "typed_value x \<longleftrightarrow> snd x = ST_notpresent \<or> getstype (snd x) = fieldtype (fst x)"

definition field_codes :: "(sfield \<times> 'a) list \<Rightarrow> int list" where
  "field_codes xs = map (\<lambda>x. fieldcode (fst x)) xs"

text \<open>
  The fields have different names and values of the type of their name, and with a template they are the
  fields of the template in its order.
\<close>

definition obj_ok :: "stobject \<Rightarrow> bool" where
  "obj_ok ob \<longleftrightarrow> distinct (field_codes (odata ob)) \<and> list_all (\<lambda>x. proper (fst x) \<and> typed_value x) (odata ob) \<and>
     (case otype ob of None \<Rightarrow> True | Some t \<Rightarrow> field_codes t = field_codes (odata ob))"

text \<open>The value of a field: \<open>None\<close> when the object has no place for it\<close>

definition obj_get :: "stobject \<Rightarrow> sfield \<Rightarrow> stvalue option" where
  "obj_get ob f = (case find_field f (odata ob) of None \<Rightarrow> None | Some i \<Rightarrow> Some (snd (odata ob ! i)))"

lemma proper_same_type: "proper f \<Longrightarrow> proper g \<Longrightarrow> field_eq f g \<Longrightarrow> fieldtype f = fieldtype g"
  by (auto simp: proper_def code_ok_def field_eq_def field_code_inject)

lemma find_field_codes: "field_codes xs = field_codes ys \<Longrightarrow> find_field f xs = find_field f ys"
proof (induction xs arbitrary: ys)
  case (Cons x xs)
  then show ?case by (cases ys) (auto simp: field_codes_def field_eq_def)
qed (simp add: field_codes_def)

lemma find_field_eq: "field_eq f g \<Longrightarrow> find_field f xs = find_field g xs"
  by (induction xs) (auto simp: field_eq_def)

lemma find_field_Some: "find_field f xs = Some i \<Longrightarrow> i < length xs \<and> field_eq (fst (xs ! i)) f"
  by (induction xs arbitrary: i) (auto split: if_splits)

lemma find_field_None: "find_field f xs = None \<longleftrightarrow> fieldcode f \<notin> set (field_codes xs)"
  by (induction xs) (auto simp: field_codes_def field_eq_def)

lemma find_field_append: "find_field f (xs @ ys) =
   (case find_field f xs of Some i \<Rightarrow> Some i | None \<Rightarrow> map_option (\<lambda>i. length xs + i) (find_field f ys))"
  by (induction xs; cases "find_field f ys") (auto split: option.splits)

lemma find_field_same: "find_field f xs = Some i \<Longrightarrow> find_field g xs = Some i \<Longrightarrow> field_eq f g"
  using find_field_Some [of f xs i] find_field_Some [of g xs i] by (simp add: field_eq_def)

text \<open>The index table of the template, when there is one, has room for the field.\<close>

definition indexed :: "stobject \<Rightarrow> sfield \<Rightarrow> bool" where
  "indexed ob f \<longleftrightarrow> (case otype ob of None \<Rightarrow> True | Some t \<Rightarrow> t \<noteq> [] \<and> declared f)"

lemma indexed_otype: "otype ob' = otype ob \<Longrightarrow> indexed ob' f \<longleftrightarrow> indexed ob f"
  by (simp add: indexed_def)

lemma obj_index: "obj_ok ob \<Longrightarrow> indexed ob f \<Longrightarrow> getfieldindex ob f = Inr (find_field f (odata ob))"
  by (auto simp: obj_ok_def getfieldindex_def template_getindex_def indexed_def intro: find_field_codes split: option.splits)

lemma field_codes_update: "i < length d \<Longrightarrow> field_codes (d[i := (fst (d ! i), v)]) = field_codes d"
  by (simp add: field_codes_def map_update list_update_same_conv)

lemma put_index_ok:
  assumes "obj_ok ob" "i < length (odata ob)" "v = ST_notpresent \<or> getstype v = fieldtype (fst (odata ob ! i))"
  shows "obj_ok (put_index ob i v)"
proof -
  let ?d = "odata ob"
  have "list_all (\<lambda>x. proper (fst x) \<and> typed_value x) (?d[i := (fst (?d ! i), v)])"
    using assms by (auto simp: obj_ok_def list_all_length nth_list_update typed_value_def)
  then show ?thesis using assms by (auto simp: obj_ok_def put_index_def field_codes_update split: option.split)
qed

lemma put_index_get:
  assumes "find_field f (odata ob) = Some i"
  shows "obj_get (put_index ob i v) g = (if field_eq f g then Some v else obj_get ob g)"
proof -
  let ?d = "odata ob"
  have i: "i < length ?d" using find_field_Some [OF assms] by simp
  have ff: "find_field g (?d[i := (fst (?d ! i), v)]) = find_field g ?d"
    by (rule find_field_codes) (rule field_codes_update [OF i])
  have "field_eq f g \<Longrightarrow> find_field g ?d = Some i"
    using assms find_field_eq [of f g ?d] by simp
  then show ?thesis
    using find_field_same [OF assms, of g] i
    by (auto simp: obj_get_def put_index_def ff nth_list_update split: option.splits)
qed

lemma peekatpfield_obj: "obj_ok ob \<Longrightarrow> indexed ob f \<Longrightarrow> peekatpfield ob f = Inr (obj_get ob f)"
  by (auto simp: peekatpfield_def obj_index obj_get_def peekatindex_def dest: find_field_Some split: option.splits)

lemma obj_get_typed:
  assumes "obj_ok ob" "find_field f (odata ob) = Some i" "proper f"
  shows "fieldtype (fst (odata ob ! i)) = fieldtype f"
    "snd (odata ob ! i) = ST_notpresent \<or> getstype (snd (odata ob ! i)) = fieldtype f"
proof -
  have i: "i < length (odata ob)" "field_eq (fst (odata ob ! i)) f" using find_field_Some [OF assms(2)] by simp_all
  then have x: "proper (fst (odata ob ! i))" "typed_value (odata ob ! i)"
    using assms(1) by (simp_all add: obj_ok_def list_all_length)
  show "fieldtype (fst (odata ob ! i)) = fieldtype f" using x(1) assms(3) i(2) by (rule proper_same_type)
  then show "snd (odata ob ! i) = ST_notpresent \<or> getstype (snd (odata ob ! i)) = fieldtype f"
    using x(2) by (simp add: typed_value_def)
qed

text \<open>Appending a new field to a free object\<close>

lemma append_field:
  assumes "obj_ok ob" "isfree ob" "obj_get ob f = None" "proper f" "getstype v = fieldtype f"
  shows "obj_ok (ST_obj (otype ob) (odata ob @ [(f, v)]))"
    and "find_field f (odata ob @ [(f, v)]) = Some (length (odata ob))"
    and "\<not> field_eq f g \<Longrightarrow> obj_get (ST_obj (otype ob) (odata ob @ [(f, v)])) g = obj_get ob g"
proof -
  have n: "find_field f (odata ob) = None" using assms(3) by (simp add: obj_get_def split: option.splits)
  then have "fieldcode f \<notin> set (field_codes (odata ob))" by (simp add: find_field_None)
  then show "obj_ok (ST_obj (otype ob) (odata ob @ [(f, v)]))"
    using assms by (auto simp: obj_ok_def isfree_def field_codes_def typed_value_def)
  show "find_field f (odata ob @ [(f, v)]) = Some (length (odata ob))"
    using n by (simp add: find_field_append field_eq_def)
  show "\<not> field_eq f g \<Longrightarrow> obj_get (ST_obj (otype ob) (odata ob @ [(f, v)])) g = obj_get ob g"
    by (auto simp: obj_get_def find_field_append nth_append dest: find_field_Some split: option.splits)
qed

text \<open>
  The contract of a typed getter and setter: a class of values with its cast, its injection, the assignment
  to a value that is there, and its type code.
\<close>

definition field_law :: "stobject \<Rightarrow> sfield \<Rightarrow> stvalue \<Rightarrow> stobject res \<Rightarrow> bool" where
  "field_law ob f w r \<longleftrightarrow>
     (if obj_get ob f = None \<and> \<not> isfree ob then r = Inl (Runtime_error ''field not found'')
      else \<exists>ob'. r = Inr ob' \<and> obj_ok ob' \<and> otype ob' = otype ob \<and> obj_get ob' f = Some w \<and>
        (\<forall>g. \<not> field_eq f g \<longrightarrow> obj_get ob' g = obj_get ob g))"

definition reads_back :: "stobject res \<Rightarrow> (stobject \<Rightarrow> sfield \<Rightarrow> 'a res) \<Rightarrow> sfield \<Rightarrow> 'a \<Rightarrow> bool" where
  "reads_back r get f x \<longleftrightarrow> (\<forall>ob'. r = Inr ob' \<longrightarrow> get ob' f = Inr x)"

locale typed_field =
  fixes cast :: "stvalue \<Rightarrow> 'a option"
    and inj :: "'b \<Rightarrow> stvalue"
    and upd :: "'b \<Rightarrow> stvalue \<Rightarrow> stvalue"
    and tid :: int
  assumes upd_inj: "getstype u = tid \<Longrightarrow> upd v u = inj v"
    and type_inj: "getstype (inj v) = tid"
    and type_present: "tid \<noteq> sti_notpresent"
    and cast_typed: "getstype u = tid \<Longrightarrow> cast u \<noteq> None"
    and default_typed: "\<exists>u. makedefaultobject tid = Inr u \<and> getstype u = tid"
begin

lemma set_present:
  assumes "obj_ok ob" "proper f" "fieldtype f = tid" "find_field f (odata ob) = Some i" "indexed ob f"
  shows "field_law ob f (inj v) (rbind (Inr (ob, i)) (\<lambda>(ob1, i).
     rbind (peekatindex ob1 i) (\<lambda>w.
     rbind (if getstype w = sti_notpresent then makefieldpresent ob1 f else Inr ob1) (\<lambda>ob2.
     rbind (peekatindex ob2 i) (\<lambda>u.
       case cast u of
         None \<Rightarrow> Inl (Runtime_error ''wrong field type'')
       | Some _ \<Rightarrow> Inr (put_index ob2 i (upd v u)))))))"
proof -
  let ?w = "snd (odata ob ! i)"
  have i: "i < length (odata ob)" using find_field_Some [OF assms(4)] by simp
  have ty: "fieldtype (fst (odata ob ! i)) = tid" "?w = ST_notpresent \<or> getstype ?w = tid"
    using obj_get_typed [OF assms(1,4,2)] assms(3) by auto
  obtain d where d: "makedefaultobject tid = Inr d" "getstype d = tid" using default_typed by blast
  have np: "getstype u = sti_notpresent \<longleftrightarrow> u = ST_notpresent" for u by (cases u) auto
  define ob2 where "ob2 = (if ?w = ST_notpresent then put_index ob i d else ob)"
  have mk: "(if getstype ?w = sti_notpresent then makefieldpresent ob f else Inr ob) = Inr ob2"
    using i ty d by (auto simp: np makefieldpresent_def obj_index [OF assms(1,5)] assms(4) peekatindex_def ob2_def)
  have ok2: "obj_ok ob2" using put_index_ok [OF assms(1) i, of d] assms(1) d(2) ty(1) by (simp add: ob2_def)
  have len2: "length (odata ob2) = length (odata ob)" "otype ob2 = otype ob"
    "odata ob2 = (odata ob)[i := (fst (odata ob ! i), snd (odata ob2 ! i))]"
    using i by (auto simp: ob2_def put_index_def)
  have ff: "find_field f (odata ob2) = Some i" and fst2: "fst (odata ob2 ! i) = fst (odata ob ! i)"
    using assms(4) find_field_codes [OF field_codes_update [OF i], of f] i by (auto simp: ob2_def put_index_def)
  have ty2: "getstype (snd (odata ob2 ! i)) = tid" using ty d(2) i by (auto simp: ob2_def put_index_def)
  then obtain c where c: "cast (snd (odata ob2 ! i)) = Some c" using cast_typed by blast
  have ok3: "obj_ok (put_index ob2 i (inj v))"
    using put_index_ok [OF ok2, of i "inj v"] i len2(1) fst2 ty(1) by (simp add: type_inj)
  have get3: "obj_get (put_index ob2 i (inj v)) g = (if field_eq f g then Some (inj v) else obj_get ob g)" for g
    using put_index_get [OF ff, of "inj v" g] put_index_get [OF assms(4), of d g] by (auto simp: ob2_def)
  have "obj_get ob f \<noteq> None" using assms(4) by (simp add: obj_get_def)
  then show ?thesis
    using i mk c ok3 get3 len2(1,2) upd_inj [OF ty2] by (simp add: field_law_def peekatindex_def field_eq_def put_index_def)
qed

lemma set_law:
  assumes "obj_ok ob" "proper f" "fieldtype f = tid" "indexed ob f"
  shows "field_law ob f (inj v) (setfield cast (upd v) ob f)"
proof (cases "find_field f (odata ob)")
  case (Some i)
  then have "getpfield_create ob f = Inr (ob, i)" by (simp add: getpfield_create_def obj_index [OF assms(1,4)])
  then show ?thesis using set_present [OF assms(1-3) Some assms(4), of v] by (simp add: setfield_def)
next
  case None
  then have n: "obj_get ob f = None" by (simp add: obj_get_def)
  show ?thesis
  proof (cases "isfree ob")
    case False
    then show ?thesis using None n
      by (simp add: field_law_def setfield_def getpfield_create_def obj_index [OF assms(1,4)])
  next
    case True
    obtain d where d: "makedefaultobject tid = Inr d" "getstype d = tid" using default_typed by blast
    let ?ob = "ST_obj (otype ob) (odata ob @ [(f, d)])"
    have ty: "getstype d = fieldtype f" using d(2) assms(3) by simp
    note app = append_field [OF assms(1) True n assms(2) ty]
    have "getpfield_create ob f = Inr (?ob, length (odata ob))"
      using None True d(1) assms(3) by (simp add: getpfield_create_def obj_index [OF assms(1,4)])
    moreover have "find_field f (odata ?ob) = Some (length (odata ob))" "indexed ?ob f"
      using app(2) assms(4) by (simp_all add: indexed_def)
    ultimately have "field_law ?ob f (inj v) (setfield cast (upd v) ob f)"
      using set_present [OF app(1) assms(2,3), of "length (odata ob)" v] by (simp add: setfield_def)
    then show ?thesis using app(3) True app(2) by (auto simp: field_law_def isfree_def obj_get_def)
  qed
qed

lemma get_law:
  assumes "obj_ok ob" "proper f" "fieldtype f = tid" "indexed ob f"
  shows "getfieldbyvalue cast d ob f =
    (case obj_get ob f of
       None \<Rightarrow> Inl (Runtime_error ''field not found'')
     | Some w \<Rightarrow> Inr (if w = ST_notpresent then d else the (cast w)))"
proof (cases "obj_get ob f")
  case None
  then show ?thesis by (simp add: getfieldbyvalue_def peekatpfield_obj [OF assms(1,4)])
next
  case (Some w)
  then obtain i where "find_field f (odata ob) = Some i" "w = snd (odata ob ! i)"
    by (auto simp: obj_get_def split: option.splits)
  then have "w = ST_notpresent \<or> getstype w = tid" using obj_get_typed(2) [OF assms(1) _ assms(2)] assms(3) by simp
  then show ?thesis
    using Some cast_typed [of w] type_present
    by (auto simp: getfieldbyvalue_def peekatpfield_obj [OF assms(1,4)] split: option.splits)
qed

lemma set_get:
  assumes "obj_ok ob" "proper f" "fieldtype f = tid" "indexed ob f" "setfield cast (upd v) ob f = Inr ob'"
  shows "getfieldbyvalue cast d ob' f = Inr (the (cast (inj v)))"
proof -
  have "obj_ok ob'" "obj_get ob' f = Some (inj v)" "indexed ob' f"
    using set_law [OF assms(1-4), of v] assms(4,5) indexed_otype [of ob' ob f]
    by (auto simp: field_law_def split: if_splits)
  moreover have "inj v \<noteq> ST_notpresent" using type_inj [of v] type_present by auto
  ultimately show ?thesis using get_law [OF _ assms(2,3), of ob' d] by simp
qed

lemma law:
  assumes "fieldtype f = tid" "obj_ok ob" "proper f" "indexed ob f" "cast (inj v) = Some x"
  shows "field_law ob f (inj v) (setfield cast (upd v) ob f) \<and>
    reads_back (setfield cast (upd v) ob f) (getfieldbyvalue cast d) f x"
  using set_law [OF assms(2,3,1,4), of v] set_get [OF assms(2,3,1,4), of v _ d] assms(5)
  by (simp add: reads_back_def)

end

text \<open>Every pair of accessors of the code keeps the contract.\<close>

interpretation field_u8: typed_field as_u8 ST_uint8 "\<lambda>v _. ST_uint8 v" sti_uint8
  by unfold_locales (auto simp: as_u8_def makedefaultobject_def split: stvalue.splits)

interpretation field_u16: typed_field as_u16 ST_uint16 "\<lambda>v _. ST_uint16 v" sti_uint16
  by unfold_locales (auto simp: as_u16_def makedefaultobject_def split: stvalue.splits)

interpretation field_u32: typed_field as_u32 ST_uint32 "\<lambda>v _. ST_uint32 v" sti_uint32
  by unfold_locales (auto simp: as_u32_def makedefaultobject_def split: stvalue.splits)

interpretation field_u64: typed_field as_u64 ST_uint64 "\<lambda>v _. ST_uint64 v" sti_uint64
  by unfold_locales (auto simp: as_u64_def makedefaultobject_def split: stvalue.splits)

interpretation field_h128: typed_field as_h128 ST_hash128 "\<lambda>v _. ST_hash128 v" sti_hash128
  by unfold_locales (auto simp: as_h128_def makedefaultobject_def split: stvalue.splits)

interpretation field_h160: typed_field as_h160 ST_hash160 "\<lambda>v _. ST_hash160 v" sti_hash160
  by unfold_locales (auto simp: as_h160_def makedefaultobject_def split: stvalue.splits)

interpretation field_h256: typed_field as_h256 ST_hash256 "\<lambda>v _. ST_hash256 v" sti_hash256
  by unfold_locales (auto simp: as_h256_def makedefaultobject_def split: stvalue.splits)

interpretation field_amount: typed_field as_amount ST_amount "\<lambda>v _. ST_amount v" sti_amount
  by unfold_locales (auto simp: as_amount_def makedefaultobject_def split: stvalue.splits)

interpretation field_pathset: typed_field as_pathset ST_pathset "\<lambda>v _. ST_pathset v" sti_pathset
  by unfold_locales (auto simp: as_pathset_def makedefaultobject_def split: stvalue.splits)

interpretation field_v256: typed_field as_v256 ST_vector256 "\<lambda>v _. ST_vector256 v" sti_vector256
  by unfold_locales (auto simp: as_v256_def makedefaultobject_def split: stvalue.splits)

interpretation field_array: typed_field as_array ST_array "\<lambda>v _. ST_array v" sti_array
  by unfold_locales (auto simp: as_array_def makedefaultobject_def split: stvalue.splits)

interpretation field_vl: typed_field as_vl ST_vl "\<lambda>v u. case u of ST_account _ \<Rightarrow> ST_account v | _ \<Rightarrow> ST_vl v" sti_vl
  by unfold_locales (auto simp: as_vl_def makedefaultobject_def split: stvalue.splits)

interpretation field_account: typed_field as_account "\<lambda>a. ST_account (bits_enc (a :: account))"
  "\<lambda>a _. ST_account (bits_enc a)" sti_account
  by unfold_locales (auto simp: as_account_def makedefaultobject_def split: stvalue.splits)

section \<open>Property\<close>

lemma account_bytes: "getvalueh160 (bits_enc (a :: account)) = Some a"
proof -
  have "unat a < 2 ^ LENGTH(160)" by (rule unsigned_less)
  then show ?thesis by (simp add: getvalueh160_def isvalueh160_def bits_enc_bytes be_val_be_bytes)
qed

lemma cast_simps [simp]:
  "as_u8 (ST_uint8 x0) = Some x0"
  "as_u16 (ST_uint16 x1) = Some x1"
  "as_u32 (ST_uint32 x2) = Some x2"
  "as_u64 (ST_uint64 x3) = Some x3"
  "as_h128 (ST_hash128 x4) = Some x4"
  "as_h160 (ST_hash160 x5) = Some x5"
  "as_h256 (ST_hash256 x6) = Some x6"
  "as_amount (ST_amount x7) = Some x7"
  "as_pathset (ST_pathset x8) = Some x8"
  "as_v256 (ST_vector256 x9) = Some x9"
  "as_array (ST_array x10) = Some x10"
  "as_vl (ST_vl x11) = Some x11"
  "as_account (ST_account y) = Some y"
  by (simp_all add: as_u8_def as_u16_def as_u32_def as_u64_def as_h128_def as_h160_def as_h256_def as_amount_def as_pathset_def as_v256_def as_array_def as_vl_def as_account_def)

lemmas law_u8 = field_u8.law [where d = 0, OF _ _ _ _ cast_simps(1), folded getfieldu8_def setfieldu8_def]
lemmas law_u16 = field_u16.law [where d = 0, OF _ _ _ _ cast_simps(2), folded getfieldu16_def setfieldu16_def]
lemmas law_u32 = field_u32.law [where d = 0, OF _ _ _ _ cast_simps(3), folded getfieldu32_def setfieldu32_def]
lemmas law_u64 = field_u64.law [where d = 0, OF _ _ _ _ cast_simps(4), folded getfieldu64_def setfieldu64_def]
lemmas law_h128 = field_h128.law [where d = 0, OF _ _ _ _ cast_simps(5), folded getfieldh128_def setfieldh128_def]
lemmas law_h160 = field_h160.law [where d = 0, OF _ _ _ _ cast_simps(6), folded getfieldh160_def setfieldh160_def]
lemmas law_h256 = field_h256.law [where d = 0, OF _ _ _ _ cast_simps(7), folded getfieldh256_def setfieldh256_def]
lemmas law_amount = field_amount.law [where d = "mk_plain 0 False", OF _ _ _ _ cast_simps(8), folded getfieldamount_def setfieldamount_def]
lemmas law_pathset = field_pathset.law [where d = "[]", OF _ _ _ _ cast_simps(9), folded getfieldpathset_def setfieldpathset_def]
lemmas law_v256 = field_v256.law [where d = "[]", OF _ _ _ _ cast_simps(10), folded getfieldv256_def setfieldv256_def]
lemmas law_array = field_array.law [where d = "[]", OF _ _ _ _ cast_simps(11), folded getfieldarray_def setfieldarray_def]
lemmas law_vl = field_vl.law [where d = "[]", OF _ _ _ _ cast_simps(12), folded getfieldvl_def setfieldvl_def]

lemma law_account:
  assumes "fieldtype f = sti_account" "obj_ok ob" "proper f" "indexed ob f"
  shows "field_law ob f (ST_account (bits_enc a)) (setfieldaccount ob f a) \<and>
    reads_back (setfieldaccount ob f a) getfieldaccount160 f a"
  using field_account.law [OF assms cast_simps(13), of a "[]"]
  by (auto simp: setfieldaccount_def reads_back_def getfieldaccount160_def account_bytes)

lemmas field_laws = law_u8 law_u16 law_u32 law_u64 law_h128 law_h160 law_h256 law_amount law_pathset law_v256 law_array law_vl law_account

text \<open>
  C12. The typed setters of \<^verbatim>\<open>STObject\<close> on a well-formed object, for a field of their type that the index
  table of the object's template has room for (any field if the object is free, otherwise the declared
  ones): when the template has no place for the field, the exception \<^verbatim>\<open>field not found\<close>; otherwise an object
  that is well formed again, of the same template, in which the field has the new value, every other field
  the old one, and the getter of the type returns the value that was set.
\<close>

theorem object_field_laws:
  assumes "obj_ok ob" "proper f" "indexed ob f"
  shows "
     (fieldtype f = sti_uint8 \<longrightarrow> field_law ob f (ST_uint8 x8) (setfieldu8 ob f x8) \<and> reads_back (setfieldu8 ob f x8) getfieldu8 f x8) \<and>
     (fieldtype f = sti_uint16 \<longrightarrow> field_law ob f (ST_uint16 x16) (setfieldu16 ob f x16) \<and> reads_back (setfieldu16 ob f x16) getfieldu16 f x16) \<and>
     (fieldtype f = sti_uint32 \<longrightarrow> field_law ob f (ST_uint32 x32) (setfieldu32 ob f x32) \<and> reads_back (setfieldu32 ob f x32) getfieldu32 f x32) \<and>
     (fieldtype f = sti_uint64 \<longrightarrow> field_law ob f (ST_uint64 x64) (setfieldu64 ob f x64) \<and> reads_back (setfieldu64 ob f x64) getfieldu64 f x64) \<and>
     (fieldtype f = sti_hash128 \<longrightarrow> field_law ob f (ST_hash128 h1) (setfieldh128 ob f h1) \<and> reads_back (setfieldh128 ob f h1) getfieldh128 f h1) \<and>
     (fieldtype f = sti_hash160 \<longrightarrow> field_law ob f (ST_hash160 h2) (setfieldh160 ob f h2) \<and> reads_back (setfieldh160 ob f h2) getfieldh160 f h2) \<and>
     (fieldtype f = sti_hash256 \<longrightarrow> field_law ob f (ST_hash256 h3) (setfieldh256 ob f h3) \<and> reads_back (setfieldh256 ob f h3) getfieldh256 f h3) \<and>
     (fieldtype f = sti_amount \<longrightarrow> field_law ob f (ST_amount a) (setfieldamount ob f a) \<and> reads_back (setfieldamount ob f a) getfieldamount f a) \<and>
     (fieldtype f = sti_pathset \<longrightarrow> field_law ob f (ST_pathset ps) (setfieldpathset ob f ps) \<and> reads_back (setfieldpathset ob f ps) getfieldpathset f ps) \<and>
     (fieldtype f = sti_vector256 \<longrightarrow> field_law ob f (ST_vector256 vs) (setfieldv256 ob f vs) \<and> reads_back (setfieldv256 ob f vs) getfieldv256 f vs) \<and>
     (fieldtype f = sti_array \<longrightarrow> field_law ob f (ST_array ar) (setfieldarray ob f ar) \<and> reads_back (setfieldarray ob f ar) getfieldarray f ar) \<and>
     (fieldtype f = sti_vl \<longrightarrow> field_law ob f (ST_vl b) (setfieldvl ob f b) \<and> reads_back (setfieldvl ob f b) getfieldvl f b) \<and>
     (fieldtype f = sti_account \<longrightarrow> field_law ob f (ST_account (bits_enc acc)) (setfieldaccount ob f acc) \<and>
       reads_back (setfieldaccount ob f acc) getfieldaccount160 f acc)"
  by (intro conjI; rule impI; rule field_laws [OF _ assms])

theorem object_field_laws_witness:
  "obj_ok (ST_obj (Some [(sfflags, soe_required), (sfbalance, soe_optional)])
     [(sfflags, ST_uint32 0), (sfbalance, ST_notpresent)]) \<and> proper sfbalance \<and> fieldtype sfbalance = sti_amount \<and>
   field_law (ST_obj (Some [(sfflags, soe_required), (sfbalance, soe_optional)])
     [(sfflags, ST_uint32 0), (sfbalance, ST_notpresent)]) sfbalance (ST_amount (mk_native_u64 False 7 False))
     (setfieldamount (ST_obj (Some [(sfflags, soe_required), (sfbalance, soe_optional)])
     [(sfflags, ST_uint32 0), (sfbalance, ST_notpresent)]) sfbalance (mk_native_u64 False 7 False))"
proof -
  let ?ob = "ST_obj (Some [(sfflags, soe_required), (sfbalance, soe_optional)])
     [(sfflags, ST_uint32 0), (sfbalance, ST_notpresent)]"
  have ok: "obj_ok ?ob" "proper sfbalance" "indexed ?ob sfbalance" "fieldtype sfbalance = sti_amount" by code_simp+
  with object_field_laws [OF ok(1-3)] show ?thesis by blast
qed

end
