(* ===== verification/St_Wire.thy ===== *)
theory St_Wire
  imports St_Object
begin

text \<open>
  The binary format of objects: \<^verbatim>\<open>STObject::add\<close>, \<^verbatim>\<open>STObject::set\<close>, \<^verbatim>\<open>STArray::add\<close>,
  \<^verbatim>\<open>STArray::deserialize\<close>, \<^verbatim>\<open>STObject::makeDeserializedObject\<close> and the \<^verbatim>\<open>add\<close> and \<^verbatim>\<open>construct\<close> of the
  value classes (\<^verbatim>\<open>src/ripple/protocol/impl/STObject.cpp\<close>, \<^verbatim>\<open>STArray.cpp\<close>, \<^verbatim>\<open>STInteger\<close>,
  \<^verbatim>\<open>STBitString.h\<close>, \<^verbatim>\<open>STBlob\<close>, \<^verbatim>\<open>STAccount\<close>, \<^verbatim>\<open>STBase.cpp\<close>). The readers of objects and of
  arrays call each other; they take a number that bounds the fields still to be read, and \<open>Diverges\<close>
  stands for running out of it. The number of bytes left plus one is always enough (lemma
  \<open>parse_terminates\<close>), since each field takes a byte at least.
\<close>

section \<open>Writing\<close>

text \<open>\<^verbatim>\<open>std::map::insert\<close>: a field of a code that is there already is dropped.\<close>

fun insert_field :: "sfield \<times> stvalue \<Rightarrow> fields \<Rightarrow> fields" where
  "insert_field x [] = [x]"
| "insert_field x (y # ys) =
     (if fieldcode (fst x) < fieldcode (fst y) then x # y # ys
      else if fieldcode (fst x) = fieldcode (fst y) then y # ys
      else y # insert_field x ys)"

text \<open>The fields that are written, sorted by code\<close>

fun pick_fields :: "bool \<Rightarrow> fields \<Rightarrow> fields \<Rightarrow> fields" where
  "pick_fields w [] acc = acc"
| "pick_fields w ((f, v) # xs) acc =
     pick_fields w xs (if getstype v \<noteq> sti_notpresent \<and> shouldinclude f w then insert_field (f, v) acc else acc)"

definition sorted_fields :: "bool \<Rightarrow> fields \<Rightarrow> fields" where
  "sorted_fields w d = pick_fields w d []"

lemma size_insert_field:
  "size_list (size_prod (\<lambda>_. 0) size) (insert_field x ys) \<le> size_list (size_prod (\<lambda>_. 0) size) (x # ys)"
  by (induction x ys rule: insert_field.induct) auto

lemma size_pick_fields:
  "size_list (size_prod (\<lambda>_. 0) size) (pick_fields w xs acc) \<le>
   size_list (size_prod (\<lambda>_. 0) size) xs + size_list (size_prod (\<lambda>_. 0) size) acc"
proof (induction w xs acc rule: pick_fields.induct)
  case (2 w f v xs acc)
  then show ?case using size_insert_field [of "(f, v)" acc] by (auto split: if_splits)
qed simp

lemma size_sorted_fields:
  "size_list (size_prod (\<lambda>_. 0) size) (sorted_fields w d) \<le> size_list (size_prod (\<lambda>_. 0) size) d"
  using size_pick_fields [of w d "[]"] by (simp add: sorted_fields_def)

definition assert_that :: "bool \<Rightarrow> 'a res \<Rightarrow> 'a res" where
  "assert_that b k = (if b then k else Inl Assertion_failed)"

definition base_addfieldid :: "serializer \<Rightarrow> sfield \<Rightarrow> serializer res" where
  "base_addfieldid s f =
     assert_that (isbinary f) (rbind (addfieldid s (fieldtype f) (fieldvalue f)) (\<lambda>(_, s1). Inr s1))"

definition blob_add :: "serializer \<Rightarrow> sfield \<Rightarrow> blob \<Rightarrow> serializer res" where
  "blob_add s f b =
     assert_that (isbinary f \<and> (fieldtype f = sti_vl \<or> fieldtype f = sti_account))
       (rbind (addvl s b) (\<lambda>(_, s1). Inr s1))"

definition typed_add :: "sfield \<Rightarrow> int \<Rightarrow> serializer res \<Rightarrow> serializer res" where
  "typed_add f t r = assert_that (isbinary f \<and> fieldtype f = t) r"

definition end_marker :: "serializer \<Rightarrow> int \<Rightarrow> serializer res" where
  "end_marker s t = rbind (addfieldid s t 1) (\<lambda>(_, s1). Inr s1)"

function (sequential) value_add :: "serializer \<Rightarrow> sfield \<Rightarrow> stvalue \<Rightarrow> serializer res"
  and fields_add :: "serializer \<Rightarrow> fields \<Rightarrow> serializer res"
  and array_add :: "serializer \<Rightarrow> (sfield \<times> stobject) list \<Rightarrow> serializer res" where
  "value_add s f ST_notpresent = Inl Assertion_failed"
| "value_add s f (ST_uint8 v) = typed_add f sti_uint8 (Inr (snd (add8 s v)))"
| "value_add s f (ST_uint16 v) = typed_add f sti_uint16 (Inr (snd (add16 s v)))"
| "value_add s f (ST_uint32 v) = typed_add f sti_uint32 (Inr (snd (add32 s v)))"
| "value_add s f (ST_uint64 v) = typed_add f sti_uint64 (Inr (snd (add64 s v)))"
| "value_add s f (ST_hash128 v) = typed_add f sti_hash128 (Inr (snd (addbitstring s v)))"
| "value_add s f (ST_hash160 v) = typed_add f sti_hash160 (Inr (snd (addbitstring s v)))"
| "value_add s f (ST_hash256 v) = typed_add f sti_hash256 (Inr (snd (addbitstring s v)))"
| "value_add s f (ST_amount a) = amt_add a s"
| "value_add s f (ST_vl b) = blob_add s f b"
| "value_add s f (ST_account b) = blob_add s f b"
| "value_add s f (ST_pathset ps) = typed_add f sti_pathset (Inr (pathset_add s ps))"
| "value_add s f (ST_vector256 vs) = typed_add f sti_vector256 (vector256_add s vs)"
| "value_add s f (ST_array xs) = array_add s xs"
| "value_add s f (ST_object (ST_obj t d)) = fields_add s (sorted_fields True d)"
| "fields_add s [] = Inr s"
| "fields_add s ((f, v) # xs) =
     assert_that (getstype v \<noteq> sti_object \<or> fieldtype f = sti_object)
     (rbind (base_addfieldid s f) (\<lambda>s1.
      rbind (value_add s1 f v) (\<lambda>s2.
      rbind (case v of ST_array _ \<Rightarrow> end_marker s2 sti_array | ST_object _ \<Rightarrow> end_marker s2 sti_object | _ \<Rightarrow> Inr s2) (\<lambda>s3.
        fields_add s3 xs))))"
| "array_add s [] = Inr s"
| "array_add s ((f, ST_obj t d) # xs) =
     rbind (base_addfieldid s f) (\<lambda>s1.
     rbind (fields_add s1 (sorted_fields True d)) (\<lambda>s2.
     rbind (end_marker s2 sti_object) (\<lambda>s3.
       array_add s3 xs)))"
  by pat_completeness auto
termination
proof -
  have s: "size_list (size_prod (\<lambda>_. 0) size) (sorted_fields True d) \<le> n"
    if "size_list (size_prod (\<lambda>_. 0) size) d \<le> n" for d n
    using size_sorted_fields [of True d] that by linarith
  show ?thesis
    by (relation "measure (\<lambda>x. case x of
        Inl (s, f, v) \<Rightarrow> size v
      | Inr (Inl (s, d)) \<Rightarrow> size_list (size_prod (\<lambda>_. 0) size) d
      | Inr (Inr (s, xs)) \<Rightarrow> size_list (size_prod (\<lambda>_. 0) size) xs)") (auto intro!: s simp: less_Suc_eq_le)
qed

definition obj_add :: "serializer \<Rightarrow> bool \<Rightarrow> stobject \<Rightarrow> serializer res" where
  "obj_add s withsigningfields ob = fields_add s (sorted_fields withsigningfields (odata ob))"

section \<open>Reading\<close>

definition it_empty :: "seriter \<Rightarrow> bool" where
  "it_empty it \<longleftrightarrow> mpos it = length (mserializer it)"

text \<open>\<^verbatim>\<open>makeDeserializedObject\<close> but for objects and arrays\<close>

definition parse_leaf :: "int \<Rightarrow> seriter \<Rightarrow> (stvalue \<times> seriter) res" where
  "parse_leaf i it =
     (if i = sti_notpresent then Inr (ST_notpresent, it)
      else if i = sti_uint8 then rbind (it_get8 it) (\<lambda>(v, it1). Inr (ST_uint8 v, it1))
      else if i = sti_uint16 then rbind (it_get16 it) (\<lambda>(v, it1). Inr (ST_uint16 v, it1))
      else if i = sti_uint32 then rbind (it_get32 it) (\<lambda>(v, it1). Inr (ST_uint32 v, it1))
      else if i = sti_uint64 then rbind (it_get64 it) (\<lambda>(v, it1). Inr (ST_uint64 v, it1))
      else if i = sti_amount then rbind (construct it) (\<lambda>(v, it1). Inr (ST_amount v, it1))
      else if i = sti_hash128 then rbind (it_getbitstring it) (\<lambda>(v, it1). Inr (ST_hash128 v, it1))
      else if i = sti_hash160 then rbind (it_getbitstring it) (\<lambda>(v, it1). Inr (ST_hash160 v, it1))
      else if i = sti_hash256 then rbind (it_getbitstring it) (\<lambda>(v, it1). Inr (ST_hash256 v, it1))
      else if i = sti_vector256 then rbind (vector256_construct it) (\<lambda>(v, it1). Inr (ST_vector256 v, it1))
      else if i = sti_vl then rbind (it_getvl it) (\<lambda>(v, it1). Inr (ST_vl v, it1))
      else if i = sti_account then rbind (it_getvl it) (\<lambda>(v, it1). Inr (ST_account v, it1))
      else if i = sti_pathset then rbind (pathset_construct it) (\<lambda>(v, it1). Inr (ST_pathset v, it1))
      else Inl (Runtime_error ''unknown object type''))"

text \<open>
  The flag of the result of \<open>parse_obj\<close> says whether the object was ended by its marker rather than by the
  end of the data.
\<close>

fun parse_obj :: "nat \<Rightarrow> seriter \<Rightarrow> fields \<Rightarrow> ((bool \<times> fields) \<times> seriter) res"
  and parse_arr :: "nat \<Rightarrow> seriter \<Rightarrow> (sfield \<times> stobject) list \<Rightarrow> ((sfield \<times> stobject) list \<times> seriter) res" where
  "parse_obj 0 it acc = Inl Diverges"
| "parse_obj (Suc n) it acc =
     (if it_empty it then Inr ((False, acc), it)
      else rbind (it_getfieldid it) (\<lambda>((type, field), it1).
        if type = sti_array \<and> field = 1 then Inl (Runtime_error ''illegal terminator in object'')
        else if type = sti_object \<and> field = 1 then Inr ((True, acc), it1)
        else rbind (getfield type field) (\<lambda>fn.
          if isinvalid fn then Inl (Runtime_error ''unknown field'')
          else rbind
            (if fieldtype fn = sti_array then rbind (parse_arr n it1 []) (\<lambda>(xs, it2). Inr (ST_array xs, it2))
             else if fieldtype fn = sti_object
             then rbind (parse_obj n it1 []) (\<lambda>((_, d), it2). Inr (ST_object (ST_obj None d), it2))
             else parse_leaf (fieldtype fn) it1)
            (\<lambda>(v, it2). parse_obj n it2 (acc @ [(fn, v)])))))"
| "parse_arr 0 it acc = Inl Diverges"
| "parse_arr (Suc n) it acc =
     (if it_empty it then Inr (acc, it)
      else rbind (it_getfieldid it) (\<lambda>((type, field), it1).
        if type = sti_array \<and> field = 1 then Inr (acc, it1)
        else if type = sti_object \<and> field = 1 then Inl (Runtime_error ''illegal terminator in array'')
        else rbind (getfield type field) (\<lambda>fn.
          if isinvalid fn then Inl (Runtime_error ''unknown field'')
          else if fieldtype fn \<noteq> sti_object then Inl (Runtime_error ''non-object in array'')
          else rbind (parse_obj n it1 []) (\<lambda>((_, d), it2). parse_arr n it2 (acc @ [(fn, ST_obj None d)])))))"

text \<open>\<^verbatim>\<open>STObject::set (SerializerIterator&)\<close> on a free object\<close>

definition obj_parse :: "seriter \<Rightarrow> (stobject \<times> seriter) res" where
  "obj_parse it =
     rbind (parse_obj (Suc (nat (getbytesleft it))) it []) (\<lambda>((_, d), it1). Inr (ST_obj None d, it1))"

definition parse_value :: "nat \<Rightarrow> int \<Rightarrow> seriter \<Rightarrow> (stvalue \<times> seriter) res" where
  "parse_value n i it =
     (if i = sti_array then rbind (parse_arr n it []) (\<lambda>(xs, it2). Inr (ST_array xs, it2))
      else if i = sti_object
      then rbind (parse_obj n it []) (\<lambda>((_, d), it2). Inr (ST_object (ST_obj None d), it2))
      else parse_leaf i it)"

lemma parse_obj_Suc:
  "parse_obj (Suc n) it acc =
     (if it_empty it then Inr ((False, acc), it)
      else rbind (it_getfieldid it) (\<lambda>((type, field), it1).
        if type = sti_array \<and> field = 1 then Inl (Runtime_error ''illegal terminator in object'')
        else if type = sti_object \<and> field = 1 then Inr ((True, acc), it1)
        else rbind (getfield type field) (\<lambda>fn.
          if isinvalid fn then Inl (Runtime_error ''unknown field'')
          else rbind (parse_value n (fieldtype fn) it1) (\<lambda>(v, it2). parse_obj n it2 (acc @ [(fn, v)])))))"
  by (simp only: parse_obj.simps parse_value_def)

declare parse_obj.simps(2) [simp del]

section \<open>Reading ends\<close>

definition safe :: "('a \<times> seriter) res \<Rightarrow> seriter \<Rightarrow> bool" where
  "safe r it \<longleftrightarrow> r \<noteq> Inl Diverges \<and> (\<forall>v it1. r = Inr (v, it1) \<longrightarrow> consumes 0 it it1)"

lemma safe_Inr [simp]: "safe (Inr (v, it1)) it \<longleftrightarrow> consumes 0 it it1"
  by (simp add: safe_def)

lemma safe_Inl [simp]: "safe (Inl e) it \<longleftrightarrow> e \<noteq> Diverges"
  by (simp add: safe_def)

lemma consumes_0_trans: "consumes 0 it it1 \<Longrightarrow> consumes 0 it1 it2 \<Longrightarrow> consumes 0 it it2"
  using consumes_trans [of 0 it it1 0 it2] by simp

lemma safe_bind: "safe m it \<Longrightarrow> (\<And>v it1. m = Inr (v, it1) \<Longrightarrow> safe (f (v, it1)) it1) \<Longrightarrow> safe (rbind m f) it"
  by (cases m) (auto simp: safe_def intro: consumes_0_trans)

lemma safe_cont: "safe m it \<Longrightarrow> safe (rbind m (\<lambda>(v, it1). Inr (c v, it1))) it"
  by (auto intro!: safe_bind)

lemma safe_read: "(\<And>v. x = Some v \<Longrightarrow> mpos it + n \<le> length (mserializer it)) \<Longrightarrow> safe (it_read msg x n it) it"
  by (cases x) (auto simp: it_read_def consumes_def advance_def)

lemma safe_bits: "safe (it_getbitstring it :: ('a::len word \<times> seriter) res) it"
  by (simp add: it_getbitstring_def) (rule safe_read, simp add: getbitstring_def split: if_splits)

lemma safe_get8: "safe (it_get8 it) it"
  unfolding it_get8_def by (rule safe_read) (auto simp: get8_eq_Some)

lemma safe_ints: "safe (it_get16 it) it" "safe (it_get32 it) it" "safe (it_get64 it) it"
  unfolding it_get16_def it_get32_def it_get64_def get16_bits get32_bits get64_bits
  by (rule safe_read; simp add: getbitstring_def split: if_splits)+

lemma vl_datlen_off: "vl_datlen s off b lenlen = Some (d, off') \<Longrightarrow> int off' = int off + lenlen - 1 \<and> 0 < lenlen"
  by (auto simp: vl_datlen_def Let_def split: if_splits option.splits sum.splits)

lemma decodelengthlength_safe: "decodelengthlength b \<noteq> Inl Diverges"
  by (simp add: decodelengthlength_def)

lemma safe_vl: "safe (it_getvl it) it"
proof (cases "getvl (mserializer it) (mpos it)")
  case (Inl e)
  then have "e \<noteq> Diverges"
    using decodelengthlength_safe
    by (auto simp: getvl_def rbind_def split: option.splits sum.splits prod.splits)
  then show ?thesis by (simp add: it_getvl_def Inl)
next
  case (Inr r)
  show ?thesis
  proof (cases r)
    case (Some x)
    obtain vl len where x: "x = (vl, len)" by (cases x)
    obtain lenlen datlen off' b1 where "vl_datlen (mserializer it) (Suc (mpos it)) b1 lenlen = Some (datlen, off')"
      "getraw (mserializer it) off' (nat datlen) = Some vl" "len = lenlen + datlen"
      using Inr by (auto simp: Some x getvl_def rbind_def split: option.splits sum.splits prod.splits)
    moreover from this have "mpos it + nat len \<le> length (mserializer it)"
      using vl_datlen_off [of "mserializer it" "Suc (mpos it)" b1 lenlen datlen off']
      by (simp add: getraw_def split: if_splits)
    ultimately show ?thesis by (simp add: it_getvl_def Inr Some x consumes_def advance_def)
  qed (simp add: it_getvl_def Inr)
qed

lemma byte_high: "uint (b :: byte) div 16 < 16"
  using uint_lt2p [of b] by simp

lemma safe_fieldid: "it_getfieldid it = Inr (tf, it1) \<Longrightarrow> consumes 1 it it1"
  using byte_high [of "mserializer it ! mpos it"]
  by (auto simp: it_getfieldid_def getfieldid_def Let_def get8_eq_Some consumes_def advance_def split: option.splits if_splits)

lemma fieldid_not_diverges: "it_getfieldid it \<noteq> Inl Diverges"
  by (simp add: it_getfieldid_def split: option.splits prod.splits)

lemma getfield_not_diverges: "getfield t v \<noteq> Inl Diverges"
  by (simp add: getfield_def getfield_code_def mk_sfield_dynamic_def Let_def split: option.splits)

lemma safe_read_160: "safe (read_160_if c it) it"
  by (simp add: read_160_if_def safe_bits)

lemma safe_element: "safe (read_element t it) it"
  unfolding read_element_def
  by (intro safe_bind safe_read_160) (auto intro!: safe_bind safe_read_160)

lemma safe_paths: "safe (construct_paths it path paths) it"
proof (induction it path paths rule: construct_paths.induct)
  case (1 it path paths)
  show ?case
  proof (subst construct_paths.simps, rule safe_bind [OF safe_get8])
    fix b it1
    assume g: "it_get8 it = Inr (b, it1)"
    have ih1: "safe (construct_paths it1 [] (paths @ [path])) it1"
      if "ucast b = typeboundary" "ucast b \<noteq> typenone" "path \<noteq> []" using 1(1) [OF g refl refl] that by simp
    have ih2: "safe (construct_paths it2 (path @ [e]) paths) it2"
      if "ucast b \<noteq> typeboundary" "ucast b \<noteq> typenone" "ucast b AND NOT typeall = 0"
        "read_element (ucast b) it1 = Inr (e, it2)" for e it2
      using 1(2) [OF g refl refl] that by simp
    show "safe ((\<lambda>(b, it1). let itype = ucast b
       in if itype = typenone \<or> itype = typeboundary then
            if path = [] then Inl (Runtime_error ''empty path'')
            else if itype = typenone then Inr (paths @ [path], it1)
            else construct_paths it1 [] (paths @ [path])
          else if itype AND NOT typeall \<noteq> 0 then Inl (Runtime_error ''bad path element'')
          else rbind (read_element itype it1) (\<lambda>(e, it2). construct_paths it2 (path @ [e]) paths)) (b, it1)) it1"
      by (cases "path = []") (use ih1 ih2 in \<open>auto simp: Let_def intro!: safe_bind [OF safe_element]\<close>)
  qed
qed

lemma scale_down_not_diverges: "scale_down v off \<noteq> Inl Diverges"
  by (induction v off rule: scale_down.induct) (subst scale_down.simps, auto simp: Let_def)

lemma canonicalize_not_diverges: "canonicalize a \<noteq> Inl Diverges"
  using scale_down_not_diverges
  by (auto simp: canonicalize_def canonicalize_native_def canonicalize_iou_def Let_def rbind_def split: prod.splits sum.splits)

lemma safe_amount: "safe (construct it) it"
proof -
  have n: "construct_native v \<noteq> Inl Diverges" for v by (simp add: construct_native_def Let_def)
  have i: "construct_iou v iss \<noteq> Inl Diverges" for v iss
    using canonicalize_not_diverges by (simp add: construct_iou_def Let_def mk_amount_def mk_zero_def)
  have k: "safe (rbind r (\<lambda>a. Inr (a, it))) it" if "r \<noteq> Inl Diverges" for r :: "stamount res" and it
    using that by (cases r) auto
  show ?thesis unfolding construct_def
    by (rule safe_bind [OF safe_ints(3)]) (auto intro!: k n i safe_bind [OF safe_bits])
qed

lemma safe_leaf: "safe (parse_leaf i it) it"
  unfolding parse_leaf_def vector256_construct_def pathset_construct_def
  by (auto intro!: safe_cont safe_get8 safe_ints safe_bits safe_vl safe_amount safe_paths)

abbreviation left :: "seriter \<Rightarrow> nat" where
  "left it \<equiv> length (mserializer it) - mpos it"

lemma consumes_left: "consumes k it it1 \<Longrightarrow> mpos it \<le> length (mserializer it) \<Longrightarrow> left it1 + k \<le> left it"
  by (auto simp: consumes_def)

text \<open>One step of the loop of either reader: what follows the field identifier\<close>

lemma safe_step:
  assumes "mpos it \<le> length (mserializer it)" "left it < Suc n"
    and "\<And>t f it1. consumes 1 it it1 \<Longrightarrow> mpos it1 \<le> length (mserializer it1) \<Longrightarrow> left it1 < n \<Longrightarrow>
      safe (k ((t, f), it1)) it1"
  shows "safe (rbind (it_getfieldid it) k) it"
proof (cases "it_getfieldid it")
  case (Inl e)
  then show ?thesis using fieldid_not_diverges [of it] by simp
next
  case (Inr x)
  obtain t f it1 where x: "x = ((t, f), it1)" by (metis surj_pair)
  have c: "consumes 1 it it1" using safe_fieldid Inr x by blast
  then have "safe (k x) it1" using assms consumes_left [OF c] by (auto simp: x consumes_def)
  then show ?thesis
    using consumes_mono [OF c, of 0] by (simp add: Inr) (auto simp: safe_def intro: consumes_0_trans)
qed

lemma safe_getfield:
  "(\<And>fn. getfield t v = Inr fn \<Longrightarrow> safe (k fn) it) \<Longrightarrow> safe (rbind (getfield t v) k) it"
  using getfield_not_diverges [of t v] by (cases "getfield t v") auto

lemma safe_then:
  assumes "safe m it" "mpos it \<le> length (mserializer it)" "left it < n"
    and "\<And>v it1. m = Inr (v, it1) \<Longrightarrow> mpos it1 \<le> length (mserializer it1) \<Longrightarrow> left it1 < n \<Longrightarrow> safe (k (v, it1)) it1"
  shows "safe (rbind m k) it"
proof (rule safe_bind [OF assms(1)])
  fix v it1
  assume m: "m = Inr (v, it1)"
  then have "consumes 0 it it1" using assms(1) by (simp add: safe_def)
  then show "safe (k (v, it1)) it1"
    using assms(2-4) m consumes_left [of 0 it it1] by (auto simp: consumes_def)
qed

lemma parse_safe:
  "mpos it \<le> length (mserializer it) \<Longrightarrow> left it < n \<Longrightarrow> safe (parse_obj n it acc) it \<and> safe (parse_arr n it arr) it"
proof (induction n arbitrary: it acc arr)
  case (Suc n)
  have obj: "safe (parse_obj n it acc) it" and arr: "safe (parse_arr n it arr) it"
    if "mpos it \<le> length (mserializer it)" "left it < n" for it acc arr
    using Suc.IH that by blast+
  have inner: "safe (parse_value n i it) it" if "mpos it \<le> length (mserializer it)" "left it < n" for i it
    using that by (auto simp: parse_value_def intro!: safe_cont safe_leaf arr safe_bind [OF obj])
  have "safe (parse_obj (Suc n) it acc) it"
    unfolding parse_obj_Suc by (auto intro!: safe_step [OF Suc.prems] safe_getfield safe_then [OF inner] obj)
  moreover have "safe (parse_arr (Suc n) it arr) it"
    by (auto intro!: safe_step [OF Suc.prems] safe_getfield safe_then [OF obj] arr)
  ultimately show ?case by blast
qed simp

section \<open>Round trip\<close>

text \<open>The bytes that are written, and the object that is read from them: only the written fields, in order\<close>

definition field_id :: "sfield \<Rightarrow> int \<times> int" where
  "field_id f = (fieldtype f, fieldvalue f)"

definition marker :: "stvalue \<Rightarrow> blob" where
  "marker v = (case v of ST_array _ \<Rightarrow> fieldid_enc (sti_array, 1) | ST_object _ \<Rightarrow> fieldid_enc (sti_object, 1) | _ \<Rightarrow> [])"

function enc_val :: "stvalue \<Rightarrow> blob" and enc_fields :: "fields \<Rightarrow> blob"
  and enc_arr :: "(sfield \<times> stobject) list \<Rightarrow> blob" where
  "enc_val ST_notpresent = []"
| "enc_val (ST_uint8 v) = bits_enc v"
| "enc_val (ST_uint16 v) = bits_enc v"
| "enc_val (ST_uint32 v) = bits_enc v"
| "enc_val (ST_uint64 v) = bits_enc v"
| "enc_val (ST_hash128 v) = bits_enc v"
| "enc_val (ST_hash160 v) = bits_enc v"
| "enc_val (ST_hash256 v) = bits_enc v"
| "enc_val (ST_amount a) = amt_enc a"
| "enc_val (ST_vl b) = vl_enc b"
| "enc_val (ST_account b) = vl_enc b"
| "enc_val (ST_pathset ps) = pathset_enc ps"
| "enc_val (ST_vector256 vs) = vector256_enc vs"
| "enc_val (ST_array xs) = enc_arr xs"
| "enc_val (ST_object (ST_obj t d)) = enc_fields (sorted_fields True d)"
| "enc_fields [] = []"
| "enc_fields ((f, v) # xs) = fieldid_enc (field_id f) @ enc_val v @ marker v @ enc_fields xs"
| "enc_arr [] = []"
| "enc_arr ((f, ST_obj t d) # xs) =
     fieldid_enc (field_id f) @ enc_fields (sorted_fields True d) @ fieldid_enc (sti_object, 1) @ enc_arr xs"
  by pat_completeness auto
termination
proof -
  have s: "size_list (size_prod (\<lambda>_. 0) size) (sorted_fields True d) \<le> n"
    if "size_list (size_prod (\<lambda>_. 0) size) d \<le> n" for d n
    using size_sorted_fields [of True d] that by linarith
  show ?thesis
    by (relation "measure (\<lambda>x. case x of
        Inl v \<Rightarrow> size v
      | Inr (Inl d) \<Rightarrow> size_list (size_prod (\<lambda>_. 0) size) d
      | Inr (Inr xs) \<Rightarrow> size_list (size_prod (\<lambda>_. 0) size) xs)") (auto intro!: s simp: less_Suc_eq_le)
qed

function (sequential) norm_val :: "stvalue \<Rightarrow> stvalue" and norm_fields :: "fields \<Rightarrow> fields"
  and norm_arr :: "(sfield \<times> stobject) list \<Rightarrow> (sfield \<times> stobject) list" where
  "norm_val (ST_array xs) = ST_array (norm_arr xs)"
| "norm_val (ST_object (ST_obj t d)) = ST_object (ST_obj None (norm_fields (sorted_fields True d)))"
| "norm_val v = v"
| "norm_fields [] = []"
| "norm_fields ((f, v) # xs) = (f, norm_val v) # norm_fields xs"
| "norm_arr [] = []"
| "norm_arr ((f, ST_obj t d) # xs) = (f, ST_obj None (norm_fields (sorted_fields True d))) # norm_arr xs"
  by pat_completeness auto
termination
proof -
  have s: "size_list (size_prod (\<lambda>_. 0) size) (sorted_fields True d) \<le> n"
    if "size_list (size_prod (\<lambda>_. 0) size) d \<le> n" for d n
    using size_sorted_fields [of True d] that by linarith
  show ?thesis
    by (relation "measure (\<lambda>x. case x of
        Inl v \<Rightarrow> size v
      | Inr (Inl d) \<Rightarrow> size_list (size_prod (\<lambda>_. 0) size) d
      | Inr (Inr xs) \<Rightarrow> size_list (size_prod (\<lambda>_. 0) size) xs)") (auto intro!: s simp: less_Suc_eq_le)
qed

definition field_ok :: "sfield \<Rightarrow> bool" where
  "field_ok f \<longleftrightarrow> wire_code (fieldtype f) (fieldvalue f) \<and> getfield (fieldtype f) (fieldvalue f) = Inr f"

text \<open>What can be written: every field that is written is known, has a value of its type, and the value fits its format\<close>

function (sequential) val_ok :: "stvalue \<Rightarrow> bool" and fields_ok :: "fields \<Rightarrow> bool"
  and arr_ok :: "(sfield \<times> stobject) list \<Rightarrow> bool" where
  "val_ok ST_notpresent = False"
| "val_ok (ST_amount a) = wire_ok a"
| "val_ok (ST_vl b) = (length b \<le> 918744)"
| "val_ok (ST_account b) = (length b \<le> 918744)"
| "val_ok (ST_pathset ps) = pathset_ok ps"
| "val_ok (ST_vector256 vs) = vector256_ok vs"
| "val_ok (ST_array xs) = arr_ok xs"
| "val_ok (ST_object (ST_obj t d)) = fields_ok (sorted_fields True d)"
| "val_ok v = True"
| "fields_ok [] = True"
| "fields_ok ((f, v) # xs) = (field_ok f \<and> fieldtype f = getstype v \<and> val_ok v \<and> fields_ok xs)"
| "arr_ok [] = True"
| "arr_ok ((f, ST_obj t d) # xs) =
     (field_ok f \<and> fieldtype f = sti_object \<and> fields_ok (sorted_fields True d) \<and> arr_ok xs)"
  by pat_completeness auto
termination
proof -
  have s: "size_list (size_prod (\<lambda>_. 0) size) (sorted_fields True d) \<le> n"
    if "size_list (size_prod (\<lambda>_. 0) size) d \<le> n" for d n
    using size_sorted_fields [of True d] that by linarith
  show ?thesis
    by (relation "measure (\<lambda>x. case x of
        Inl v \<Rightarrow> size v
      | Inr (Inl d) \<Rightarrow> size_list (size_prod (\<lambda>_. 0) size) d
      | Inr (Inr xs) \<Rightarrow> size_list (size_prod (\<lambda>_. 0) size) xs)") (auto intro!: s simp: less_Suc_eq_le)
qed

lemma known_field_ok:
  "f \<in> set known_fields \<Longrightarrow> 0 < fieldcode f \<Longrightarrow> wire_code (fieldtype f) (fieldvalue f) \<Longrightarrow> field_ok f"
  by (simp add: field_ok_def getfield_known)

lemma field_ok_id: "field_ok f \<Longrightarrow> fieldid_ok (field_id f) \<and> isbinary f"
  using extendable_pos by (auto simp: field_ok_def wire_code_def fieldid_ok_def field_id_def isbinary_def)

lemma base_addfieldid_enc: "field_ok f \<Longrightarrow> base_addfieldid s f = Inr (s @ fieldid_enc (field_id f))"
  using field_ok_id [of f] addfieldid_append [of "field_id f" s]
  by (simp add: base_addfieldid_def assert_that_def field_id_def)

lemma end_marker_enc: "t = sti_array \<or> t = sti_object \<Longrightarrow> end_marker s t = Inr (s @ fieldid_enc (t, 1))"
  using addfieldid_append [of "(t, 1)" s] by (auto simp: end_marker_def fieldid_ok_def)

lemma amt_add_wire: "wire_ok a \<Longrightarrow> amt_add a s = Inr (s @ amt_enc a)"
  by (rule amt_add_enc) (simp add: wire_ok_def split: if_splits)

lemma blob_add_enc:
  "isbinary f \<Longrightarrow> fieldtype f = sti_vl \<or> fieldtype f = sti_account \<Longrightarrow> length b \<le> 918744 \<Longrightarrow>
   blob_add s f b = Inr (s @ vl_enc b)"
  using addvl_enc [of b s] by (auto simp: blob_add_def assert_that_def)

lemma typed_add_enc: "isbinary f \<Longrightarrow> fieldtype f = t \<Longrightarrow> typed_add f t r = r"
  by (simp add: typed_add_def assert_that_def)

lemmas int_add_enc =
  addbitstring_append add8_bits add16_bits add32_bits add64_bits

text \<open>Writing never fails on what can be written, and appends the bytes above.\<close>

lemma add_enc:
  "field_ok f \<Longrightarrow> fieldtype f = getstype v \<Longrightarrow> val_ok v \<Longrightarrow> value_add s f v = Inr (s @ enc_val v)"
  "fields_ok d \<Longrightarrow> fields_add s d = Inr (s @ enc_fields d)"
  "arr_ok xs \<Longrightarrow> array_add s xs = Inr (s @ enc_arr xs)"
proof (induction s f v and s d and s xs rule: value_add_fields_add_array_add.induct)
  case (17 s f v xs)
  have m: "(case v of ST_array _ \<Rightarrow> end_marker s2 sti_array | ST_object _ \<Rightarrow> end_marker s2 sti_object | _ \<Rightarrow> Inr s2) =
      Inr (s2 @ marker v)" for s2
    by (cases v) (simp_all add: marker_def end_marker_enc)
  show ?case using 17 by (simp add: base_addfieldid_enc assert_that_def m)
next
  case (19 s f t d xs)
  then show ?case by (simp add: base_addfieldid_enc end_marker_enc)
qed (simp_all add: typed_add_enc blob_add_enc amt_add_wire vector256_add_enc pathset_add_enc int_add_enc field_ok_id)

interpretation codec128: codec "\<lambda>_. True" bits_enc "it_getbitstring :: seriter \<Rightarrow> (128 word \<times> seriter) res"
  by unfold_locales (rule it_getbitstring_at, simp)

lemmas leaf_codecs =
  codec8.dec_enc codec16.dec_enc codec32.dec_enc codec64.dec_enc codec128.dec_enc codec160.dec_enc codec256.dec_enc
  codec_amount.dec_enc codec_vl.dec_enc codec_pathset.dec_enc codec_vector256.dec_enc

definition is_container :: "stvalue \<Rightarrow> bool" where
  "is_container v \<longleftrightarrow> (case v of ST_array _ \<Rightarrow> True | ST_object _ \<Rightarrow> True | _ \<Rightarrow> False)"

lemma leaf_roundtrip:
  "val_ok v \<Longrightarrow> \<not> is_container v \<Longrightarrow>
   parse_value n (getstype v) (iter_at before (enc_val v @ rest)) = Inr (v, iter_at (before @ enc_val v) rest) \<and>
   norm_val v = v \<and> marker v = []"
  by (cases v) (simp_all add: parse_value_def parse_leaf_def is_container_def marker_def leaf_codecs)

lemma leaf_parse:
  "val_ok v \<Longrightarrow> \<not> is_container v \<Longrightarrow>
   parse_value n (getstype v) (iter_at before (enc_val v @ marker v @ rest)) =
     Inr (norm_val v, iter_at (before @ enc_val v @ marker v) rest)"
  using leaf_roundtrip by simp

lemma fieldid_enc_nonempty: "fieldid_ok f \<Longrightarrow> 0 < length (fieldid_enc f)"
  by (simp add: length_fieldid_enc)

lemma it_empty_at [simp]: "it_empty (iter_at before rest) \<longleftrightarrow> rest = []"
  by (auto simp: it_empty_def)

lemma field_ok_read:
  assumes "field_ok f"
  shows "it_getfieldid (iter_at before (fieldid_enc (field_id f) @ rest)) =
      Inr ((fieldtype f, fieldvalue f), iter_at (before @ fieldid_enc (field_id f)) rest)"
    "getfield (fieldtype f) (fieldvalue f) = Inr f" "\<not> isinvalid f"
    "\<not> (fieldtype f = sti_array \<and> fieldvalue f = 1)" "\<not> (fieldtype f = sti_object \<and> fieldvalue f = 1)"
    "fieldid_enc (field_id f) \<noteq> []"
proof -
  have ok: "fieldid_ok (field_id f)" and w: "wire_code (fieldtype f) (fieldvalue f)"
    using field_ok_id [OF assms] assms by (simp_all add: field_ok_def)
  show "it_getfieldid (iter_at before (fieldid_enc (field_id f) @ rest)) =
      Inr ((fieldtype f, fieldvalue f), iter_at (before @ fieldid_enc (field_id f)) rest)"
    using codec_fieldid.dec_enc [OF ok] by (simp add: field_id_def)
  show g: "getfield (fieldtype f) (fieldvalue f) = Inr f" using assms by (simp add: field_ok_def)
  have "fieldcode f = field_code (fieldtype f) (fieldvalue f)" using getfield_wire [OF w] g by (metis sum.inject(2))
  moreover have "0 < fieldtype f" "0 < fieldvalue f" "fieldvalue f < 256"
    using w extendable_pos [of "fieldtype f"] by (auto simp: wire_code_def)
  ultimately show "\<not> isinvalid f" by (simp add: isinvalid_def field_code_arith)
  show "fieldid_enc (field_id f) \<noteq> []" using fieldid_enc_nonempty [OF ok] by auto
qed (use assms in \<open>auto simp: field_ok_def wire_code_def\<close>)

lemma marker_read:
  "it_getfieldid (iter_at before (fieldid_enc (t, 1) @ rest)) = Inr ((t, 1), iter_at (before @ fieldid_enc (t, 1)) rest)"
  "fieldid_enc (t, 1) \<noteq> []" if "t = sti_array \<or> t = sti_object"
proof -
  have ok: "fieldid_ok (t, 1)" using that by (auto simp: fieldid_ok_def)
  show "it_getfieldid (iter_at before (fieldid_enc (t, 1) @ rest)) = Inr ((t, 1), iter_at (before @ fieldid_enc (t, 1)) rest)"
    using codec_fieldid.dec_enc [OF ok] by simp
  show "fieldid_enc (t, 1) \<noteq> []" using fieldid_enc_nonempty [OF ok] by auto
qed

lemma length_field_id: "field_ok f \<Longrightarrow> 1 \<le> length (fieldid_enc (field_id f))"
  using field_ok_id [of f] fieldid_enc_nonempty [of "field_id f"] by linarith

lemma length_enc_fields: "fields_ok d \<Longrightarrow> length d \<le> length (enc_fields d)"
proof (induction d)
  case (Cons x d)
  obtain f v where x: "x = (f, v)" by (cases x)
  then have "field_ok f" "length d \<le> length (enc_fields d)" using Cons by simp_all
  then show ?case using length_field_id [of f] by (simp add: x)
qed simp

lemma length_enc_arr: "arr_ok xs \<Longrightarrow> length xs \<le> length (enc_arr xs)"
proof (induction xs)
  case (Cons x xs)
  obtain f t d where x: "x = (f, ST_obj t d)" by (metis stobject.exhaust surj_pair)
  then have "field_ok f" "length xs \<le> length (enc_arr xs)" using Cons by simp_all
  then show ?case using length_field_id [of f] by (simp add: x)
qed simp

lemma parse_enc:
  "val_ok v \<Longrightarrow> length (enc_val v @ marker v) < n \<Longrightarrow>
     parse_value n (getstype v) (iter_at before (enc_val v @ marker v @ rest)) =
       Inr (norm_val v, iter_at (before @ enc_val v @ marker v) rest)"
  "fields_ok d \<Longrightarrow> length (enc_fields d) < n \<Longrightarrow>
     parse_obj n (iter_at before (enc_fields d @ rest)) acc =
       parse_obj (n - length d) (iter_at (before @ enc_fields d) rest) (acc @ norm_fields d)"
  "arr_ok xs \<Longrightarrow> length (enc_arr xs) < n \<Longrightarrow>
     parse_arr n (iter_at before (enc_arr xs @ rest)) arr =
       parse_arr (n - length xs) (iter_at (before @ enc_arr xs) rest) (arr @ norm_arr xs)"
proof (induction v and d and xs arbitrary: n before rest and n before rest acc and n before rest arr
    rule: enc_val_enc_fields_enc_arr.induct)
  case (14 xs)
  let ?m = "fieldid_enc (sti_array, 1)"
  have ok: "arr_ok xs" and len: "length (enc_arr xs) < n" using 14 by simp_all
  have "0 < n - length xs" using length_enc_arr [OF ok] len by simp
  then obtain k where k: "n - length xs = Suc k" by (metis gr0_implies_Suc)
  have "parse_arr n (iter_at before (enc_arr xs @ ?m @ rest)) [] =
      Inr (norm_arr xs, iter_at (before @ enc_arr xs @ ?m) rest)"
    using 14(1) [OF ok len, of before "?m @ rest" "[]"] marker_read(1) [of sti_array "before @ enc_arr xs" rest] marker_read(2) [of sti_array] by (simp add: k)
  then show ?case by (simp add: parse_value_def marker_def)
next
  case (15 t d)
  let ?d = "sorted_fields True d" and ?m = "fieldid_enc (sti_object, 1)"
  have ok: "fields_ok ?d" and len: "length (enc_fields ?d) < n" using 15 by simp_all
  have "0 < n - length ?d" using length_enc_fields [OF ok] len by simp
  then obtain k where k: "n - length ?d = Suc k" by (metis gr0_implies_Suc)
  have "parse_obj n (iter_at before (enc_fields ?d @ ?m @ rest)) [] =
      Inr ((True, norm_fields ?d), iter_at (before @ enc_fields ?d @ ?m) rest)"
    using 15(1) [OF ok len, of before "?m @ rest" "[]"] marker_read(1) [of sti_object "before @ enc_fields ?d" rest] marker_read(2) [of sti_object]
    by (simp add: k parse_obj_Suc)
  then show ?case by (simp add: parse_value_def marker_def)
next
  case (17 f v xs)
  let ?i = "fieldid_enc (field_id f)"
  have ok: "field_ok f" "fieldtype f = getstype v" "val_ok v" "fields_ok xs" using 17(3) by simp_all
  obtain m where n: "n = Suc m" using 17(4) by (cases n) simp_all
  have len: "length (enc_val v @ marker v) < m" "length (enc_fields xs) < m"
    using 17(4) length_field_id [OF ok(1)] by (simp_all add: n)
  show ?case
    using 17(1) [OF ok(3) len(1), of "before @ ?i" "enc_fields xs @ rest"]
      17(2) [OF ok(4) len(2), of "before @ ?i @ enc_val v @ marker v" rest "acc @ [(f, norm_val v)]"]
      field_ok_read [OF ok(1)]
    by (auto simp: n parse_obj_Suc ok(2) [symmetric])
next
  case (19 f t d xs)
  let ?i = "fieldid_enc (field_id f)" and ?d = "sorted_fields True d" and ?m = "fieldid_enc (sti_object, 1)"
  have ok: "field_ok f" "fieldtype f = sti_object" "fields_ok ?d" "arr_ok xs" using 19(3) by simp_all
  obtain m where n: "n = Suc m" using 19(4) by (cases n) simp_all
  have len: "length (enc_fields ?d) < m" "length (enc_arr xs) < m"
    using 19(4) length_field_id [OF ok(1)] by (simp_all add: n)
  have "0 < m - length ?d" using length_enc_fields [OF ok(3)] len by simp
  then obtain k where k: "m - length ?d = Suc k" by (metis gr0_implies_Suc)
  have "parse_obj m (iter_at (before @ ?i) (enc_fields ?d @ ?m @ enc_arr xs @ rest)) [] =
      Inr ((True, norm_fields ?d), iter_at (before @ ?i @ enc_fields ?d @ ?m) (enc_arr xs @ rest))"
    using 19(1) [OF ok(3) len(1), of "before @ ?i" "?m @ enc_arr xs @ rest" "[]"]
      marker_read(1) [of sti_object "before @ ?i @ enc_fields ?d" "enc_arr xs @ rest"] marker_read(2) [of sti_object]
    by (simp add: k parse_obj_Suc)
  then show ?case
    using 19(2) [OF ok(4) len(2), of "before @ ?i @ enc_fields ?d @ ?m" rest "arr @ [(f, ST_obj None (norm_fields ?d))]"]
      field_ok_read [OF ok(1)] ok(2)
    by (simp add: n)
qed ((rule leaf_parse; simp add: is_container_def) | simp)+

text \<open>An object on its own: what is written, and that it is read up to the end of the bytes\<close>

lemma obj_enc:
  assumes "fields_ok (sorted_fields w (odata ob))"
  shows "obj_add s w ob = Inr (s @ enc_fields (sorted_fields w (odata ob)))"
    and "obj_parse (iter_at before (enc_fields (sorted_fields w (odata ob)))) =
      Inr (ST_obj None (norm_fields (sorted_fields w (odata ob))), iter_at (before @ enc_fields (sorted_fields w (odata ob))) [])"
proof -
  let ?d = "sorted_fields w (odata ob)"
  let ?n = "Suc (length (enc_fields ?d))"
  have left: "nat (getbytesleft (iter_at before (enc_fields ?d))) = length (enc_fields ?d)"
    by (simp add: getbytesleft_def)
  obtain k where k: "?n - length ?d = Suc k" using length_enc_fields [OF assms] by (metis Suc_diff_le)
  have "parse_obj ?n (iter_at before (enc_fields ?d)) [] =
      Inr ((False, norm_fields ?d), iter_at (before @ enc_fields ?d) [])"
    using parse_enc(2) [OF assms, of ?n before "[]" "[]"] by (simp add: k parse_obj_Suc del: diff_Suc_Suc)
  then show "obj_parse (iter_at before (enc_fields ?d)) = Inr (ST_obj None (norm_fields ?d), iter_at (before @ enc_fields ?d) [])"
    by (simp add: obj_parse_def left)
  show "obj_add s w ob = Inr (s @ enc_fields ?d)" using add_enc(2) [OF assms, of s] by (simp add: obj_add_def)
qed

section \<open>Properties\<close>

text \<open>
  C4. What \<^verbatim>\<open>STObject::add\<close> writes, \<^verbatim>\<open>STObject::set\<close> reads back: for any object whose written fields are
  known fields with values of their type that can be sent, nested objects and arrays included. That excludes
  a native amount that is a negative zero or reaches \<open>2^61\<close> drops, an amount that is not canonical or whose
  issuer is the number of a native currency, blobs above 918744 bytes, vectors too long for such a blob,
  path sets that are empty or have an empty path, and path elements that lose an address on the wire, as
  those naming the VBC account do. Then \<^verbatim>\<open>add\<close> succeeds, and reading its output gives the object without its absent and unsigned parts and with
  the fields of every object in the order of their codes. The bytes are appended to what the serializer
  held, and the reader, started where they begin, stops exactly at their end.
\<close>

theorem object_wire_roundtrip:
  assumes "fields_ok (sorted_fields w (odata ob))"
  shows "\<exists>bytes. obj_add s w ob = Inr (s @ bytes) \<and>
    obj_parse (iter_at before bytes) =
      Inr (ST_obj None (norm_fields (sorted_fields w (odata ob))), iter_at (before @ bytes) [])"
  using obj_enc [OF assms] by auto

definition sample_object :: stobject where
  "sample_object = ST_obj None
     [(sfbalance, ST_amount (mk_native_u64 True 5 False)),
      (sfflags, ST_uint32 3),
      (sftransferrate, ST_notpresent),
      (sfmemos, ST_array [(sfmemo, ST_obj None [(sfmemodata, ST_vl [1, 2]), (sfmemotype, ST_vl [7])])])]"

theorem object_wire_roundtrip_witness:
  "fields_ok (sorted_fields True (odata sample_object)) \<and>
   (\<exists>bytes. obj_add [] True sample_object = Inr bytes \<and>
      obj_parse (iter_at [] bytes) = Inr (ST_obj None
        [(sfflags, ST_uint32 3),
         (sfbalance, ST_amount (mk_native_u64 True 5 False)),
         (sfmemos, ST_array [(sfmemo, ST_obj None [(sfmemotype, ST_vl [7]), (sfmemodata, ST_vl [1, 2])])])],
        iter_at bytes []))"
proof -
  have known: "field_ok sfbalance" "field_ok sfflags" "field_ok sfmemos" "field_ok sfmemo" "field_ok sfmemodata"
    "field_ok sfmemotype"
    by (rule known_field_ok; (simp add: known_fields_def; fail)?; code_simp)+
  have sorted: "sorted_fields True (odata sample_object) =
      [(sfflags, ST_uint32 3), (sfbalance, ST_amount (mk_native_u64 True 5 False)),
       (sfmemos, ST_array [(sfmemo, ST_obj None [(sfmemodata, ST_vl [1, 2]), (sfmemotype, ST_vl [7])])])]"
    "sorted_fields True [(sfmemodata, ST_vl [1, 2]), (sfmemotype, ST_vl [7])] =
      [(sfmemotype, ST_vl [7]), (sfmemodata, ST_vl [1, 2])]" by code_simp+
  have types: "fieldtype sfflags = 2" "fieldtype sfbalance = 6" "fieldtype sfmemos = 15" "fieldtype sfmemo = 14"
    "fieldtype sfmemodata = 7" "fieldtype sfmemotype = 7" by code_simp+
  have "wire_ok (mk_native_u64 True 5 False)"
    by (simp add: wire_ok_def mk_native_u64_def mk_unchecked_def amt_isvbc_def)
  then have ok: "fields_ok (sorted_fields True (odata sample_object))" by (simp add: sorted known types)
  have "norm_fields (sorted_fields True (odata sample_object)) =
      [(sfflags, ST_uint32 3),
       (sfbalance, ST_amount (mk_native_u64 True 5 False)),
       (sfmemos, ST_array [(sfmemo, ST_obj None [(sfmemotype, ST_vl [7]), (sfmemodata, ST_vl [1, 2])])])]"
    by (simp add: sorted)
  then show ?thesis using ok object_wire_roundtrip [OF ok, of "[]" "[]"] by simp
qed

text \<open>
  C19. Reading an object from any bytes whatsoever ends: the bound on the number of fields the reader starts
  with, one more than the bytes left, is never exhausted, however objects and arrays are nested; and
  when an object is returned, the iterator has moved on within its buffer.
\<close>

theorem parse_terminates:
  assumes "mpos it \<le> length (mserializer it)"
  shows "obj_parse it \<noteq> Inl Diverges \<and>
    (\<forall>ob it1. obj_parse it = Inr (ob, it1) \<longrightarrow> mserializer it1 = mserializer it \<and> mpos it \<le> mpos it1 \<and>
       mpos it1 \<le> length (mserializer it1))"
proof -
  have n: "length (mserializer it) - mpos it < Suc (nat (getbytesleft it))"
    using assms by (simp add: getbytesleft_def)
  have "safe (obj_parse it) it"
    unfolding obj_parse_def
    by (rule safe_bind [OF conjunct1 [OF parse_safe [OF assms n]]]) (simp split: prod.split)
  then have nd: "obj_parse it \<noteq> Inl Diverges" and c: "obj_parse it = Inr (ob, it1) \<Longrightarrow> consumes 0 it it1" for ob it1
    unfolding safe_def by blast+
  have "mserializer it1 = mserializer it \<and> mpos it \<le> mpos it1 \<and> mpos it1 \<le> length (mserializer it1)"
    if "obj_parse it = Inr (ob, it1)" for ob it1
    using c [OF that] assms unfolding consumes_def by auto
  then show ?thesis using nd by blast
qed

theorem parse_terminates_witness:
  "mpos (iter_at [] [0xe1, 7]) \<le> length (mserializer (iter_at [] [0xe1, 7])) \<and>
   obj_parse (iter_at [] [0xe1, 7]) \<noteq> Inl Diverges \<and>
   obj_parse (iter_at [] [0xe1, 7]) = Inr (ST_obj None [], iter_at [0xe1] [7])"
proof -
  have "mpos (iter_at [] [0xe1, 7]) \<le> length (mserializer (iter_at [] [0xe1, 7]))" by simp
  moreover have "it_getfieldid (iter_at [] [0xe1, 7]) = Inr ((sti_object, 1), iter_at [0xe1] [7])" by code_simp
  then have "obj_parse (iter_at [] [0xe1, 7]) = Inr (ST_obj None [], iter_at [0xe1] [7])"
    by (simp add: obj_parse_def getbytesleft_def numeral_3_eq_3 parse_obj_Suc)
  ultimately show ?thesis using parse_terminates by blast
qed

end
