(* ===== verification/Formats.thy ===== *)
theory Formats
  imports St_Object
begin

text \<open>
  The formats of ledger entries and of transactions: \<^verbatim>\<open>src/ripple/protocol/KnownFormats.h\<close>,
  \<^verbatim>\<open>src/ripple/protocol/LedgerFormats.h\<close>, \<^verbatim>\<open>src/ripple/protocol/impl/LedgerFormats.cpp\<close>,
  \<^verbatim>\<open>src/ripple/protocol/TxFormats.h\<close>, \<^verbatim>\<open>src/ripple/protocol/impl/TxFormats.cpp\<close>, and the construction
  and threading of ledger entries of \<^verbatim>\<open>src/ripple/protocol/impl/STLedgerEntry.cpp\<close>. The tables are
  translated element by element; the maps from names and types to formats are the last registration of a
  name or a type.
\<close>

section \<open>Tables of formats\<close>

record format =
  format_name :: string
  format_type :: int
  format_elements :: sotemplate

fun push_elements :: "sotemplate \<Rightarrow> soelement list \<Rightarrow> sotemplate res" where
  "push_elements t [] = Inr t"
| "push_elements t (e # es) = rbind (template_push_back t e) (\<lambda>t1. push_elements t1 es)"

text \<open>\<^verbatim>\<open>add\<close> registers a format with the common fields, to which its own fields are appended.\<close>

fun add_formats :: "soelement list \<Rightarrow> (string \<times> int \<times> soelement list) list \<Rightarrow> format list res" where
  "add_formats common [] = Inr []"
| "add_formats common ((name, type, els) # xs) =
     rbind (push_elements [] common) (\<lambda>t0.
     rbind (push_elements t0 els) (\<lambda>t.
     rbind (add_formats common xs) (\<lambda>fs.
       Inr (\<lparr>format_name = name, format_type = type, format_elements = t\<rparr> # fs))))"

definition findbytype :: "format list \<Rightarrow> int \<Rightarrow> format option" where
  "findbytype fs type = map_of (rev (map (\<lambda>f. (format_type f, f)) fs)) type"

definition findbyname :: "format list \<Rightarrow> string \<Rightarrow> format option" where
  "findbyname fs name = map_of (rev (map (\<lambda>f. (format_name f, f)) fs)) name"

definition findtypebyname :: "format list \<Rightarrow> string \<Rightarrow> int res" where
  "findtypebyname fs name =
     (case findbyname fs name of
        Some f \<Rightarrow> Inr (format_type f)
      | None \<Rightarrow> Inl (Runtime_error ''unknown format name''))"

section \<open>Ledger entries\<close>

text \<open>The values of the enumeration are characters in the source.\<close>

definition ltinvalid :: int where "ltinvalid = - 1"
definition ltaccount_root :: int where "ltaccount_root = 97"
definition ltasset :: int where "ltasset = 116"
definition ltasset_state :: int where "ltasset_state = 115"
definition ltdir_node :: int where "ltdir_node = 100"
definition ltdividend :: int where "ltdividend = 100"
definition ltgenerator_map :: int where "ltgenerator_map = 103"
definition ltrefer :: int where "ltrefer = 114"
definition ltripple_state :: int where "ltripple_state = 114"
definition ltticket :: int where "ltticket = 116"
definition ltoffer :: int where "ltoffer = 111"
definition ltledger_hashes :: int where "ltledger_hashes = 104"
definition ltamendments :: int where "ltamendments = 102"
definition ltfee_settings :: int where "ltfee_settings = 115"
definition ltnickname :: int where "ltnickname = 110"
definition ltnotused01 :: int where "ltnotused01 = 99"

definition ledger_accountroot :: sotemplate where
  "ledger_accountroot = [
      (sfaccount, soe_required), (sfsequence, soe_required), (sfbalance, soe_required),
      (sfbalancevbc, soe_required), (sfownercount, soe_required), (sfprevioustxnid, soe_required),
      (sfprevioustxnlgrseq, soe_required), (sfaccounttxnid, soe_optional), (sfregularkey, soe_optional),
      (sfemailhash, soe_optional), (sfwalletlocator, soe_optional), (sfwalletsize, soe_optional),
      (sfmessagekey, soe_optional), (sftransferrate, soe_optional), (sfdomain, soe_optional),
      (sfreferee, soe_optional), (sfreferences, soe_optional), (sfreferenceheight, soe_optional),
      (sfdividendledger, soe_optional), (sfdividendvrank, soe_optional), (sfdividendvsprd, soe_optional),
      (sfdividendtsprd, soe_optional)]"

definition ledger_asset :: sotemplate where
  "ledger_asset = [
      (sfamount, soe_required), (sfregularkey, soe_required), (sfreleaseschedule, soe_optional),
      (sfprevioustxnid, soe_required), (sfprevioustxnlgrseq, soe_required)]"

definition ledger_assetstate :: sotemplate where
  "ledger_assetstate = [
      (sfaccount, soe_required), (sfamount, soe_required), (sfdeliveredamount, soe_optional),
      (sfprevioustxnid, soe_required), (sfprevioustxnlgrseq, soe_required), (sflownode, soe_optional),
      (sfhighnode, soe_optional), (sfnextreleasetime, soe_optional)]"

definition ledger_directorynode :: sotemplate where
  "ledger_directorynode = [
      (sfowner, soe_optional), (sftakerpayscurrency, soe_optional), (sftakerpaysissuer, soe_optional),
      (sftakergetscurrency, soe_optional), (sftakergetsissuer, soe_optional), (sfexchangerate, soe_optional),
      (sfindexes, soe_required), (sfrootindex, soe_required), (sfindexnext, soe_optional),
      (sfindexprevious, soe_optional)]"

definition ledger_generatormap :: sotemplate where
  "ledger_generatormap = [
      (sfgenerator, soe_required)]"

definition ledger_offer :: sotemplate where
  "ledger_offer = [
      (sfaccount, soe_required), (sfsequence, soe_required), (sftakerpays, soe_required),
      (sftakergets, soe_required), (sfbookdirectory, soe_required), (sfbooknode, soe_required),
      (sfownernode, soe_required), (sfprevioustxnid, soe_required), (sfprevioustxnlgrseq, soe_required),
      (sfexpiration, soe_optional)]"

definition ledger_ripplestate :: sotemplate where
  "ledger_ripplestate = [
      (sfbalance, soe_required), (sfreserve, soe_optional), (sflowlimit, soe_required),
      (sfhighlimit, soe_required), (sfprevioustxnid, soe_required), (sfprevioustxnlgrseq, soe_required),
      (sflownode, soe_optional), (sflowqualityin, soe_optional), (sflowqualityout, soe_optional),
      (sfhighnode, soe_optional), (sfhighqualityin, soe_optional), (sfhighqualityout, soe_optional)]"

definition ledger_ledgerhashes :: sotemplate where
  "ledger_ledgerhashes = [
      (sffirstledgersequence, soe_optional), (sflastledgersequence, soe_optional), (sfhashes, soe_required)]"

definition ledger_enabledamendments :: sotemplate where
  "ledger_enabledamendments = [
      (sfamendments, soe_required)]"

definition ledger_feesettings :: sotemplate where
  "ledger_feesettings = [
      (sfbasefee, soe_required), (sfreferencefeeunits, soe_required), (sfreservebase, soe_required),
      (sfreserveincrement, soe_required)]"

definition ledger_ticket :: sotemplate where
  "ledger_ticket = [
      (sfaccount, soe_required), (sfsequence, soe_required), (sfownernode, soe_required),
      (sftarget, soe_optional), (sfexpiration, soe_optional)]"

definition ledger_dividend :: sotemplate where
  "ledger_dividend = [
      (sfdividendstate, soe_required), (sfdividendledger, soe_required), (sfdividendcoins, soe_required),
      (sfdividendcoinsvbc, soe_required), (sfdividendvrank, soe_optional), (sfdividendvsprd, soe_optional),
      (sfdividendresulthash, soe_optional)]"

definition ledger_refer :: sotemplate where
  "ledger_refer = [
      (sfaccount, soe_optional), (sfreferences, soe_optional)]"

definition ledger_common :: sotemplate where
  "ledger_common = [
      (sfledgerindex, soe_optional), (sfledgerentrytype, soe_required), (sfflags, soe_required)]"

definition ledgerformats :: "format list res" where
  "ledgerformats = add_formats ledger_common
    [(''accountroot'', ltaccount_root, ledger_accountroot),
     (''asset'', ltasset, ledger_asset),
     (''assetstate'', ltasset_state, ledger_assetstate),
     (''directorynode'', ltdir_node, ledger_directorynode),
     (''generatormap'', ltgenerator_map, ledger_generatormap),
     (''offer'', ltoffer, ledger_offer),
     (''ripplestate'', ltripple_state, ledger_ripplestate),
     (''ledgerhashes'', ltledger_hashes, ledger_ledgerhashes),
     (''enabledamendments'', ltamendments, ledger_enabledamendments),
     (''feesettings'', ltfee_settings, ledger_feesettings),
     (''ticket'', ltticket, ledger_ticket),
     (''dividend'', ltdividend, ledger_dividend),
     (''refer'', ltrefer, ledger_refer)]"

section \<open>Transactions\<close>

definition ttinvalid :: int where "ttinvalid = - 1"
definition ttpayment :: int where "ttpayment = 0"
definition ttclaim :: int where "ttclaim = 1"
definition ttwallet_add :: int where "ttwallet_add = 2"
definition ttaccount_set :: int where "ttaccount_set = 3"
definition ttpassword_fund :: int where "ttpassword_fund = 4"
definition ttregular_key_set :: int where "ttregular_key_set = 5"
definition ttnickname_set :: int where "ttnickname_set = 6"
definition ttoffer_create :: int where "ttoffer_create = 7"
definition ttoffer_cancel :: int where "ttoffer_cancel = 8"
definition no_longer_used :: int where "no_longer_used = 9"
definition ttticket_create :: int where "ttticket_create = 10"
definition ttticket_cancel :: int where "ttticket_cancel = 11"
definition tttrust_set :: int where "tttrust_set = 20"
definition ttamendment :: int where "ttamendment = 100"
definition ttfee :: int where "ttfee = 101"
definition ttdividend :: int where "ttdividend = 181"
definition ttaddreferee :: int where "ttaddreferee = 182"
definition ttactiveaccount :: int where "ttactiveaccount = 183"
definition ttissue :: int where "ttissue = 184"

definition tx_accountset :: sotemplate where
  "tx_accountset = [
      (sfemailhash, soe_optional), (sfwalletlocator, soe_optional), (sfwalletsize, soe_optional),
      (sfmessagekey, soe_optional), (sfdomain, soe_optional), (sftransferrate, soe_optional),
      (sfsetflag, soe_optional), (sfclearflag, soe_optional)]"

definition tx_trustset :: sotemplate where
  "tx_trustset = [
      (sflimitamount, soe_optional), (sfqualityin, soe_optional), (sfqualityout, soe_optional)]"

definition tx_offercreate :: sotemplate where
  "tx_offercreate = [
      (sftakerpays, soe_required), (sftakergets, soe_required), (sfexpiration, soe_optional),
      (sfoffersequence, soe_optional)]"

definition tx_offercancel :: sotemplate where
  "tx_offercancel = [
      (sfoffersequence, soe_required)]"

definition tx_setregularkey :: sotemplate where
  "tx_setregularkey = [
      (sfregularkey, soe_optional)]"

definition tx_payment :: sotemplate where
  "tx_payment = [
      (sfdestination, soe_required), (sfamount, soe_required), (sfsendmax, soe_optional),
      (sfpaths, soe_default), (sfinvoiceid, soe_optional), (sfdestinationtag, soe_optional)]"

definition tx_enableamendment :: sotemplate where
  "tx_enableamendment = [
      (sfamendment, soe_required)]"

definition tx_setfee :: sotemplate where
  "tx_setfee = [
      (sfbasefee, soe_required), (sfreferencefeeunits, soe_required), (sfreservebase, soe_required),
      (sfreserveincrement, soe_required)]"

definition tx_ticketcreate :: sotemplate where
  "tx_ticketcreate = [
      (sftarget, soe_optional), (sfexpiration, soe_optional)]"

definition tx_ticketcancel :: sotemplate where
  "tx_ticketcancel = [
      (sfticketid, soe_required)]"

definition tx_dividend :: sotemplate where
  "tx_dividend = [
      (sfdividendtype, soe_required), (sfdividendledger, soe_required), (sfdestination, soe_optional),
      (sfdividendcoins, soe_required), (sfdividendcoinsvbc, soe_required), (sfdividendcoinsvbcrank, soe_optional),
      (sfdividendcoinsvbcsprd, soe_optional), (sfdividendvrank, soe_optional), (sfdividendvsprd, soe_optional),
      (sfdividendtsprd, soe_optional), (sfdividendresulthash, soe_optional)]"

definition tx_addreferee :: sotemplate where
  "tx_addreferee = [
      (sfdestination, soe_required), (sfamount, soe_optional)]"

definition tx_activeaccount :: sotemplate where
  "tx_activeaccount = [
      (sfreferee, soe_required), (sfreference, soe_required), (sfamount, soe_optional)]"

definition tx_issue :: sotemplate where
  "tx_issue = [
      (sfdestination, soe_required), (sfamount, soe_required), (sfreleaseschedule, soe_required)]"

definition tx_common :: sotemplate where
  "tx_common = [
      (sftransactiontype, soe_required), (sfflags, soe_optional), (sfsourcetag, soe_optional),
      (sfaccount, soe_required), (sfsequence, soe_required), (sfprevioustxnid, soe_optional),
      (sflastledgersequence, soe_optional), (sfaccounttxnid, soe_optional), (sffee, soe_required),
      (sfoperationlimit, soe_optional), (sfmemos, soe_optional), (sfsigningpubkey, soe_required),
      (sftxnsignature, soe_optional)]"

definition txformats :: "format list res" where
  "txformats = add_formats tx_common
    [(''accountset'', ttaccount_set, tx_accountset),
     (''trustset'', tttrust_set, tx_trustset),
     (''offercreate'', ttoffer_create, tx_offercreate),
     (''offercancel'', ttoffer_cancel, tx_offercancel),
     (''setregularkey'', ttregular_key_set, tx_setregularkey),
     (''payment'', ttpayment, tx_payment),
     (''enableamendment'', ttamendment, tx_enableamendment),
     (''setfee'', ttfee, tx_setfee),
     (''ticketcreate'', ttticket_create, tx_ticketcreate),
     (''ticketcancel'', ttticket_cancel, tx_ticketcancel),
     (''dividend'', ttdividend, tx_dividend),
     (''addreferee'', ttaddreferee, tx_addreferee),
     (''activeaccount'', ttactiveaccount, tx_activeaccount),
     (''issue'', ttissue, tx_issue)]"

section \<open>Entries made from a format\<close>

record stledgerentry =
  sle_object :: stobject
  mindex :: uint256
  mtype_sle :: int
  mformat :: format
  mmutable :: bool

definition sle_new :: "int \<Rightarrow> uint256 \<Rightarrow> stledgerentry res" where
  "sle_new type index =
     rbind ledgerformats (\<lambda>fs.
       case findbytype fs type of
         None \<Rightarrow> Inl (Runtime_error ''invalid ledger entry type'')
       | Some fmt \<Rightarrow>
           rbind (obj_set (format_elements fmt)) (\<lambda>ob.
           rbind (setfieldu16 ob sfledgerentrytype (word_of_int (format_type fmt))) (\<lambda>ob1.
             Inr \<lparr>sle_object = ob1, mindex = index, mtype_sle = type, mformat = fmt, mmutable = True\<rparr>)))"

text \<open>From an object that was read: \<^verbatim>\<open>setSLEType\<close>\<close>

definition sle_of_object :: "stobject \<Rightarrow> uint256 \<Rightarrow> stledgerentry res" where
  "sle_of_object ob index =
     rbind ledgerformats (\<lambda>fs.
     rbind (getfieldu16 ob sfledgerentrytype) (\<lambda>t.
       case findbytype fs (uint t) of
         None \<Rightarrow> Inl (Runtime_error ''invalid ledger entry type'')
       | Some fmt \<Rightarrow>
           let (valid, ob1) = settype (format_elements fmt) ob
           in if \<not> valid then Inl (Runtime_error ''ledger entry not valid for type'')
              else Inr \<lparr>sle_object = ob1, mindex = index, mtype_sle = format_type fmt, mformat = fmt, mmutable = True\<rparr>))"

definition isthreadedtype :: "stledgerentry \<Rightarrow> bool res" where
  "isthreadedtype e = rbind (getfieldindex (sle_object e) sfprevioustxnid) (\<lambda>i. Inr (i \<noteq> None))"

definition isthreaded :: "stledgerentry \<Rightarrow> bool res" where
  "isthreaded e = isfieldpresent (sle_object e) sfprevioustxnid"

definition getthreadedtransaction :: "stledgerentry \<Rightarrow> uint256 res" where
  "getthreadedtransaction e = getfieldh256 (sle_object e) sfprevioustxnid"

definition getthreadedledger :: "stledgerentry \<Rightarrow> u32 res" where
  "getthreadedledger e = getfieldu32 (sle_object e) sfprevioustxnlgrseq"

text \<open>The previous transaction and ledger are returned when the entry was not threaded to this transaction yet.\<close>

definition thread :: "stledgerentry \<Rightarrow> uint256 \<Rightarrow> u32 \<Rightarrow> ((uint256 \<times> u32) option \<times> stledgerentry) res" where
  "thread e txid ledgerseq =
     rbind (getfieldh256 (sle_object e) sfprevioustxnid) (\<lambda>oldprevtxid.
       if oldprevtxid = txid
       then rbind (getfieldu32 (sle_object e) sfprevioustxnlgrseq) (\<lambda>seq.
              if seq = ledgerseq then Inr (None, e) else Inl Assertion_failed)
       else rbind (getfieldu32 (sle_object e) sfprevioustxnlgrseq) (\<lambda>prevledgerid.
            rbind (setfieldh256 (sle_object e) sfprevioustxnid txid) (\<lambda>ob1.
            rbind (setfieldu32 ob1 sfprevioustxnlgrseq ledgerseq) (\<lambda>ob2.
              Inr (Some (oldprevtxid, prevledgerid), e\<lparr>sle_object := ob2\<rparr>)))))"

definition hasoneowner :: "stledgerentry \<Rightarrow> bool res" where
  "hasoneowner e =
     (if mtype_sle e \<noteq> ltaccount_root
      then rbind (getfieldindex (sle_object e) sfaccount) (\<lambda>i. Inr (i \<noteq> None)) else Inr False)"

definition hastwoowners :: "stledgerentry \<Rightarrow> bool" where
  "hastwoowners e \<longleftrightarrow> mtype_sle e = ltripple_state"

definition getowner :: "stledgerentry \<Rightarrow> account option res" where
  "getowner e = getfieldaccount (sle_object e) sfaccount"

definition getfirstowner :: "stledgerentry \<Rightarrow> account res" where
  "getfirstowner e = rbind (getfieldamount (sle_object e) sflowlimit) (\<lambda>a. Inr (account (missue a)))"

definition getsecondowner :: "stledgerentry \<Rightarrow> account res" where
  "getsecondowner e = rbind (getfieldamount (sle_object e) sfhighlimit) (\<lambda>a. Inr (account (missue a)))"

section \<open>Templates give well-formed objects\<close>

definition template_ok :: "sotemplate \<Rightarrow> bool" where
  "template_ok t \<longleftrightarrow> distinct (field_codes t) \<and>
     list_all (\<lambda>e. proper (fst e) \<and> fieldtype (fst e) \<in> set extendable_types) t"

definition required_present :: "sotemplate \<Rightarrow> stobject \<Rightarrow> bool" where
  "required_present t ob \<longleftrightarrow> list_all (\<lambda>(f, flags). flags = soe_required \<longrightarrow>
     (case obj_get ob f of None \<Rightarrow> False | Some v \<Rightarrow> v \<noteq> ST_notpresent)) t"

lemma default_of_type:
  assumes "i \<in> set extendable_types"
  obtains v where "makedefaultobject i = Inr v" "getstype v = i" "v \<noteq> ST_notpresent"
  using assms by (auto simp: extendable_types_def makedefaultobject_def)

lemma template_data_ok:
  "list_all (\<lambda>e. proper (fst e) \<and> fieldtype (fst e) \<in> set extendable_types) t \<Longrightarrow>
   \<exists>d. template_data t = Inr d \<and> field_codes d = field_codes t \<and> list_all (\<lambda>x. proper (fst x) \<and> typed_value x) d \<and>
     list_all2 (\<lambda>e x. fst x = fst e \<and> (snd e = soe_required \<longrightarrow> snd x \<noteq> ST_notpresent)) t d"
proof (induction t)
  case (Cons e t)
  obtain f fl where e: "e = (f, fl)" by (cases e)
  obtain d where d: "template_data t = Inr d" "field_codes d = field_codes t"
    "list_all (\<lambda>x. proper (fst x) \<and> typed_value x) d"
    "list_all2 (\<lambda>e x. fst x = fst e \<and> (snd e = soe_required \<longrightarrow> snd x \<noteq> ST_notpresent)) t d"
    using Cons by auto
  obtain v where v: "makedefaultobject (fieldtype f) = Inr v" "getstype v = fieldtype f" "v \<noteq> ST_notpresent"
    using default_of_type [of "fieldtype f"] Cons.prems by (auto simp: e)
  define w where "w = (if fl \<noteq> soe_required then ST_notpresent else v)"
  have "template_data (e # t) = Inr ((f, w) # d)" using d(1) v(1) by (simp add: e w_def)
  then show ?case using d v Cons.prems by (auto simp: e w_def field_codes_def typed_value_def)
qed (simp add: field_codes_def)

lemma isvalid_codes: "field_codes t = field_codes d \<Longrightarrow> isvalidfortype_loop t d"
  by (induction t d rule: isvalidfortype_loop.induct) (auto simp: field_codes_def field_eq_def)

lemma obj_get_nth:
  assumes "distinct (field_codes (odata ob))" "i < length (odata ob)"
  shows "obj_get ob (fst (odata ob ! i)) = Some (snd (odata ob ! i))"
proof -
  let ?f = "fst (odata ob ! i)"
  have "fieldcode ?f \<in> set (field_codes (odata ob))" using assms(2) by (auto simp: field_codes_def)
  then obtain j where j: "find_field ?f (odata ob) = Some j" using find_field_None [of ?f "odata ob"] by auto
  then have "j < length (odata ob)" "field_codes (odata ob) ! j = field_codes (odata ob) ! i"
    using find_field_Some [OF j] assms(2) by (simp_all add: field_codes_def field_eq_def)
  then have "j = i" using assms nth_eq_iff_index_eq [OF assms(1)] by (simp add: field_codes_def)
  then show ?thesis using j by (simp add: obj_get_def)
qed

lemma obj_set_ok:
  assumes "template_ok t"
  obtains ob where "obj_set t = Inr ob" "otype ob = Some t" "obj_ok ob" "required_present t ob" "isvalidfortype ob"
proof -
  obtain d where d: "template_data t = Inr d" "field_codes d = field_codes t"
    "list_all (\<lambda>x. proper (fst x) \<and> typed_value x) d"
    "list_all2 (\<lambda>e x. fst x = fst e \<and> (snd e = soe_required \<longrightarrow> snd x \<noteq> ST_notpresent)) t d"
    using template_data_ok [of t] assms by (auto simp: template_ok_def)
  let ?ob = "ST_obj (Some t) d"
  have dist: "distinct (field_codes (odata ?ob))" using assms d(2) by (simp add: template_ok_def)
  have "required_present t ?ob" unfolding required_present_def list_all_length
  proof (intro allI impI, clarsimp split: prod.split)
    fix i f
    assume i: "i < length t" "t ! i = (f, soe_required)"
    then have "fst (d ! i) = f" "snd (d ! i) \<noteq> ST_notpresent" "i < length d"
      using d(4) by (auto simp: list_all2_conv_all_nth)
    then show "case obj_get ?ob f of None \<Rightarrow> False | Some v \<Rightarrow> v \<noteq> ST_notpresent"
      using obj_get_nth [OF dist, of i] by simp
  qed
  moreover have "obj_ok ?ob" using dist d by (simp add: obj_ok_def)
  moreover have "isvalidfortype ?ob" using d(2) by (simp add: isvalidfortype_def isvalid_codes)
  ultimately show thesis using d(1) that [of ?ob] by (simp add: obj_set_def)
qed

lemma isvalid_of_ok: "obj_ok ob \<Longrightarrow> otype ob = Some t \<Longrightarrow> isvalidfortype ob"
  by (simp add: obj_ok_def isvalidfortype_def isvalid_codes)

definition formats_ok :: "sfield \<Rightarrow> format list res \<Rightarrow> bool" where
  "formats_ok f r \<longleftrightarrow>
     (case r of
        Inl _ \<Rightarrow> False
      | Inr fs \<Rightarrow> list_all (\<lambda>fmt. template_ok (format_elements fmt) \<and> find_field f (format_elements fmt) \<noteq> None) fs)"

lemma ledgerformats_ok: "formats_ok sfledgerentrytype ledgerformats"
  by code_simp

lemma txformats_ok: "formats_ok sftransactiontype txformats"
  by code_simp

lemma required_present_update:
  assumes "required_present t ob" "obj_get ob' f = Some w" "w \<noteq> ST_notpresent"
    "\<And>g. \<not> field_eq f g \<Longrightarrow> obj_get ob' g = obj_get ob g"
  shows "required_present t ob'"
proof -
  have "obj_get ob' g = Some w" if "field_eq f g" for g
    using assms(2) find_field_eq [OF that, of "odata ob'"] by (simp add: obj_get_def)
  then have "(case obj_get ob' g of None \<Rightarrow> False | Some v \<Rightarrow> v \<noteq> ST_notpresent)"
    if "case obj_get ob g of None \<Rightarrow> False | Some v \<Rightarrow> v \<noteq> ST_notpresent" for g
    using that assms(3,4) by (cases "field_eq f g") simp_all
  then show ?thesis using assms(1) by (auto simp: required_present_def list_all_iff)
qed

lemma entry_of_format:
  assumes "template_ok t" "find_field sfledgerentrytype t \<noteq> None"
  shows "\<exists>ob ob1. obj_set t = Inr ob \<and> setfieldu16 ob sfledgerentrytype x = Inr ob1 \<and> obj_ok ob1 \<and>
    otype ob1 = Some t \<and> isvalidfortype ob1 \<and> required_present t ob1 \<and> getfieldu16 ob1 sfledgerentrytype = Inr x"
proof -
  obtain ob where ob: "obj_set t = Inr ob" "otype ob = Some t" "obj_ok ob" "required_present t ob" "isvalidfortype ob"
    using obj_set_ok [OF assms(1)] by blast
  have f: "fieldtype sfledgerentrytype = sti_uint16" "proper sfledgerentrytype" "declared sfledgerentrytype"
    by code_simp+
  have ix: "indexed ob sfledgerentrytype" using ob(2) f(3) assms(2) by (auto simp: indexed_def)
  have "field_codes t = field_codes (odata ob)" using ob(2,3) by (simp add: obj_ok_def)
  then have here: "obj_get ob sfledgerentrytype \<noteq> None"
    using assms(2) find_field_codes [of t "odata ob"] by (auto simp: obj_get_def split: option.splits)
  have law: "field_law ob sfledgerentrytype (ST_uint16 x) (setfieldu16 ob sfledgerentrytype x)"
    "reads_back (setfieldu16 ob sfledgerentrytype x) getfieldu16 sfledgerentrytype x"
    using law_u16 [OF f(1) ob(3) f(2) ix, of x] by blast+
  obtain ob1 where ob1: "setfieldu16 ob sfledgerentrytype x = Inr ob1" "obj_ok ob1" "otype ob1 = otype ob"
    "obj_get ob1 sfledgerentrytype = Some (ST_uint16 x)"
    "\<And>g. \<not> field_eq sfledgerentrytype g \<Longrightarrow> obj_get ob1 g = obj_get ob g"
    using law(1) here unfolding field_law_def by auto
  have "required_present t ob1" using ob(4) ob1(4) _ ob1(5) by (rule required_present_update) simp
  moreover have "isvalidfortype ob1" using ob1(2,3) ob(2) by (simp add: isvalid_of_ok)
  ultimately show ?thesis using ob(1,2) ob1 law(2) by (auto simp: reads_back_def)
qed

text \<open>The formats a look-up by their type returns; the others are hidden behind a later one of the same type.\<close>

definition reachable_format :: "format list \<Rightarrow> format \<Rightarrow> bool" where
  "reachable_format fs f \<longleftrightarrow> findbytype fs (format_type f) = Some f"

definition hidden_names :: "format list res \<Rightarrow> string list" where
  "hidden_names r =
     (case r of Inl _ \<Rightarrow> [] | Inr fs \<Rightarrow> map format_name (filter (\<lambda>f. \<not> reachable_format fs f) fs))"

section \<open>Properties\<close>

text \<open>
  C31. The tables of ledger entry and transaction formats are built without tripping an assertion, and no
  format has a field twice. Every ledger entry format that a look-up by its type returns can be made: the
  new entry has the template of that format, exactly its fields in their order, with values of their types,
  its required fields are present, and its type field holds the type that was asked for. The
  formats that no look-up returns, because a later one has the same type, are those named below.
\<close>

theorem new_entry_well_formed:
  "\<exists>lf tf. ledgerformats = Inr lf \<and> txformats = Inr tf \<and>
    list_all (\<lambda>fmt. template_ok (format_elements fmt)) (lf @ tf) \<and>
    map format_name (filter (\<lambda>fmt. \<not> reachable_format lf fmt) lf) = [''asset'', ''assetstate'', ''directorynode'', ''ripplestate''] \<and>
    list_all (\<lambda>fmt. \<exists>e. sle_new (format_type fmt) index = Inr e \<and> mformat e = fmt \<and>
      otype (sle_object e) = Some (format_elements fmt) \<and> obj_ok (sle_object e) \<and>
      isvalidfortype (sle_object e) \<and> required_present (format_elements fmt) (sle_object e) \<and>
      mindex e = index \<and> mtype_sle e = format_type fmt \<and>
      getfieldu16 (sle_object e) sfledgerentrytype = Inr (word_of_int (format_type fmt)))
      (filter (reachable_format lf) lf)"
proof -
  obtain lf where lf: "ledgerformats = Inr lf"
    "list_all (\<lambda>fmt. template_ok (format_elements fmt) \<and> find_field sfledgerentrytype (format_elements fmt) \<noteq> None) lf"
    using ledgerformats_ok by (auto simp: formats_ok_def split: sum.splits)
  obtain tf where tf: "txformats = Inr tf" "list_all (\<lambda>fmt. template_ok (format_elements fmt)) tf"
    using txformats_ok by (auto simp: formats_ok_def list_all_iff split: sum.splits)
  have "hidden_names ledgerformats = [''asset'', ''assetstate'', ''directorynode'', ''ripplestate'']" by code_simp
  then have hid: "map format_name (filter (\<lambda>fmt. \<not> reachable_format lf fmt) lf) = [''asset'', ''assetstate'', ''directorynode'', ''ripplestate'']"
    by (simp add: lf(1) hidden_names_def)
  have "\<exists>e. sle_new (format_type fmt) index = Inr e \<and> mformat e = fmt \<and>
      otype (sle_object e) = Some (format_elements fmt) \<and> obj_ok (sle_object e) \<and>
      isvalidfortype (sle_object e) \<and> required_present (format_elements fmt) (sle_object e) \<and>
      mindex e = index \<and> mtype_sle e = format_type fmt \<and>
      getfieldu16 (sle_object e) sfledgerentrytype = Inr (word_of_int (format_type fmt))"
    if fmt: "fmt \<in> set lf" "findbytype lf (format_type fmt) = Some fmt" for fmt
  proof -
    have "template_ok (format_elements fmt)" "find_field sfledgerentrytype (format_elements fmt) \<noteq> None"
      using lf(2) fmt(1) by (auto simp: list_all_iff)
    from entry_of_format [OF this, of "word_of_int (format_type fmt)"] show ?thesis
      by (auto simp: sle_new_def lf(1) fmt(2))
  qed
  then show ?thesis
    using lf tf hid by - (rule exI [of _ lf], rule exI [of _ tf], auto simp: list_all_iff reachable_format_def)
qed

text \<open>
  The types of two kinds of entries coincide in four cases, and the format registered last takes the
  place of the other: a trust line is made with the format of a reference list, which has no balance.
\<close>

lemma ledger_types_collide:
  "ltdir_node = ltdividend" "ltripple_state = ltrefer" "ltasset = ltticket" "ltasset_state = ltfee_settings"
  by (simp_all add: ltdir_node_def ltdividend_def ltripple_state_def ltrefer_def ltasset_def ltticket_def
      ltasset_state_def ltfee_settings_def)

lemma trust_line_has_no_balance:
  "case ledgerformats of
     Inl _ \<Rightarrow> False
   | Inr lf \<Rightarrow>
       (case findbytype lf ltripple_state of
          None \<Rightarrow> False
        | Some fmt \<Rightarrow> format_name fmt = ''refer'' \<and> find_field sfbalance (format_elements fmt) = None)"
  by code_simp

section \<open>Matching an object against a template\<close>

abbreviation named :: "sfield \<Rightarrow> fields \<Rightarrow> (sfield \<times> stvalue) option" where
  "named f d \<equiv> find (\<lambda>x. field_eq (fst x) f) d"

lemma extract_field_find:
  "distinct (field_codes d) \<Longrightarrow>
   extract_field f d = map_option (\<lambda>x. (x, filter (\<lambda>y. \<not> field_eq (fst y) f) d)) (named f d)"
proof (induction d)
  case (Cons x d)
  have "filter (\<lambda>y. \<not> field_eq (fst y) f) d = d" if "field_eq (fst x) f"
    using Cons.prems that by (auto simp: filter_id_conv field_codes_def field_eq_def image_iff)
  then show ?case using Cons by (auto simp: field_codes_def option.map_comp o_def)
qed simp

lemma named_filter: "\<not> field_eq f g \<Longrightarrow> named g (filter (\<lambda>y. \<not> field_eq (fst y) f) d) = named g d"
  by (induction d) (auto simp: field_eq_def)

lemma distinct_codes_filter: "distinct (field_codes d) \<Longrightarrow> distinct (field_codes (filter P d))"
  by (simp add: field_codes_def distinct_map_filter)

definition elem_ok :: "fields \<Rightarrow> soelement \<Rightarrow> bool" where
  "elem_ok d e \<longleftrightarrow>
     (case named (fst e) d of
        None \<Rightarrow> snd e \<noteq> soe_required
      | Some x \<Rightarrow> \<not> (snd e = soe_default \<and> value_isdefault (snd x)))"

definition elem_value :: "fields \<Rightarrow> soelement \<Rightarrow> sfield \<times> stvalue" where
  "elem_value d e = (case named (fst e) d of None \<Rightarrow> (fst e, ST_notpresent) | Some x \<Rightarrow> x)"

lemma settype_loop_char:
  "distinct (field_codes d) \<Longrightarrow> distinct (field_codes t) \<Longrightarrow>
   settype_loop t d =
     (list_all (elem_ok d) t, map (elem_value d) t, filter (\<lambda>x. fieldcode (fst x) \<notin> set (field_codes t)) d)"
proof (induction t arbitrary: d)
  case (Cons e t)
  obtain f fl where e: "e = (f, fl)" by (cases e)
  have other: "\<not> field_eq f (fst e')" if "e' \<in> set t" for e'
    using Cons.prems(2) that by (auto simp: e field_codes_def field_eq_def image_iff)
  show ?case
  proof (cases "named f d")
    case None
    then have "\<not> field_eq (fst x) f" if "x \<in> set d" for x
      using that unfolding find_None_iff by blast
    then have "filter (\<lambda>x. fieldcode (fst x) \<notin> set (field_codes (e # t))) d =
        filter (\<lambda>x. fieldcode (fst x) \<notin> set (field_codes t)) d"
      by (intro filter_cong) (auto simp: e field_codes_def field_eq_def)
    then show ?thesis
      using Cons None extract_field_find [OF Cons.prems(1), of f]
      by (auto simp: e elem_ok_def elem_value_def field_codes_def)
  next
    case (Some x)
    let ?d = "filter (\<lambda>y. \<not> field_eq (fst y) f) d"
    have "map (elem_value ?d) t = map (elem_value d) t" "list_all (elem_ok ?d) t = list_all (elem_ok d) t"
      using other named_filter [of f] by (auto simp: elem_value_def elem_ok_def list_all_iff)
    moreover have "filter (\<lambda>x. fieldcode (fst x) \<notin> set (field_codes t)) ?d =
        filter (\<lambda>x. fieldcode (fst x) \<notin> set (field_codes (e # t))) d"
      by (simp add: e field_codes_def field_eq_def conj_commute)
    moreover have "settype_loop t ?d = (list_all (elem_ok ?d) t, map (elem_value ?d) t,
        filter (\<lambda>x. fieldcode (fst x) \<notin> set (field_codes t)) ?d)"
      using Cons.IH [OF distinct_codes_filter [OF Cons.prems(1)]] Cons.prems(2) by (simp add: field_codes_def)
    ultimately have "settype_loop t ?d = (list_all (elem_ok d) t, map (elem_value d) t,
        filter (\<lambda>x. fieldcode (fst x) \<notin> set (field_codes (e # t))) d)" by simp
    moreover have "elem_ok d e \<longleftrightarrow> \<not> (fl = soe_default \<and> value_isdefault (snd x))" "elem_value d e = x"
      by (simp_all add: e elem_ok_def elem_value_def Some)
    moreover have "extract_field f d = Some (x, ?d)" using extract_field_find [OF Cons.prems(1), of f] Some by simp
    ultimately show ?thesis by (cases x) (auto simp: e)
  qed
qed (simp add: field_codes_def)

lemma obj_get_named: "obj_get ob f = map_option snd (named f (odata ob))"
proof -
  have "(case find_field f d of None \<Rightarrow> None | Some i \<Rightarrow> Some (snd (d ! i))) = map_option snd (named f d)" for d :: fields
    by (induction d) (auto split: option.splits)
  then show ?thesis by (simp add: obj_get_def)
qed

lemma named_Some: "named f d = Some x \<Longrightarrow> x \<in> set d \<and> field_eq (fst x) f"
  by (auto simp: find_Some_iff)

lemma elem_value_code: "fieldcode (fst (elem_value d e)) = fieldcode (fst e)"
proof (cases "named (fst e) d")
  case (Some x)
  then show ?thesis using named_Some [OF Some] by (simp add: elem_value_def field_eq_def)
qed (simp add: elem_value_def)

lemma named_map_elem_value:
  "distinct (field_codes t) \<Longrightarrow> e \<in> set t \<Longrightarrow> field_eq (fst e) f \<Longrightarrow> named f (map (elem_value d) t) = Some (elem_value d e)"
proof (induction t)
  case (Cons a t)
  show ?case
  proof (cases "e = a")
    case False
    then have "\<not> field_eq (fst a) f" using Cons.prems by (auto simp: field_codes_def field_eq_def image_iff)
    then show ?thesis using Cons False by (simp add: field_eq_def elem_value_code field_codes_def)
  qed (use Cons.prems in \<open>simp add: field_eq_def elem_value_code\<close>)
qed simp

lemma named_map_None:
  "fieldcode f \<notin> set (field_codes t) \<Longrightarrow> named f (map (elem_value d) t) = None"
  by (induction t) (auto simp: field_codes_def field_eq_def elem_value_code)

text \<open>
  C7. \<^verbatim>\<open>STObject::setType\<close> on a well-formed object accepts exactly the objects that have every required
  field of the template, no field whose value the template wants left out, and no further field that
  cannot be dropped. It loses and changes nothing: the result is well formed for the template, and each of
  its fields has the value it had in the object, or is absent where the object had no such field.
\<close>

theorem settype_exact:
  assumes "obj_ok ob" "template_ok t"
  shows "(fst (settype t ob) \<longleftrightarrow>
      list_all (\<lambda>(f, flags).
        case obj_get ob f of
          None \<Rightarrow> flags \<noteq> soe_required
        | Some v \<Rightarrow> \<not> (flags = soe_default \<and> value_isdefault v)) t \<and>
      list_all (\<lambda>(g, v). fieldcode g \<in> set (field_codes t) \<or> isdiscardable g) (odata ob)) \<and>
    obj_ok (snd (settype t ob)) \<and> isvalidfortype (snd (settype t ob)) \<and>
    obj_get (snd (settype t ob)) f =
      (if fieldcode f \<in> set (field_codes t)
       then Some (case obj_get ob f of None \<Rightarrow> ST_notpresent | Some v \<Rightarrow> v) else None)"
proof -
  let ?d = "odata ob"
  let ?new = "map (elem_value ?d) t"
  have dist: "distinct (field_codes ?d)" "distinct (field_codes t)"
    using assms by (simp_all add: obj_ok_def template_ok_def)
  have st: "settype t ob = (list_all (elem_ok ?d) t \<and>
      list_all (\<lambda>x. isdiscardable (fst x)) (filter (\<lambda>x. fieldcode (fst x) \<notin> set (field_codes t)) ?d), ST_obj (Some t) ?new)"
    by (simp add: settype_def settype_loop_char [OF dist])
  have codes: "field_codes ?new = field_codes t" by (simp add: field_codes_def elem_value_code)
  have "elem_ok ?d = (\<lambda>(g, fl). case obj_get ob g of
      None \<Rightarrow> fl \<noteq> soe_required | Some v \<Rightarrow> \<not> (fl = soe_default \<and> value_isdefault v))"
    by (rule ext) (simp add: elem_ok_def obj_get_named case_prod_beta split: option.split)
  then have valid: "list_all (elem_ok ?d) t = list_all (\<lambda>(f, flags).
        case obj_get ob f of
          None \<Rightarrow> flags \<noteq> soe_required
        | Some v \<Rightarrow> \<not> (flags = soe_default \<and> value_isdefault v)) t"
    by simp
  have left: "list_all (\<lambda>x. isdiscardable (fst x)) (filter (\<lambda>x. fieldcode (fst x) \<notin> set (field_codes t)) ?d) =
      list_all (\<lambda>(g, v). fieldcode g \<in> set (field_codes t) \<or> isdiscardable g) ?d"
    by (auto simp: list_all_iff case_prod_beta)
  have "proper (fst (elem_value ?d e)) \<and> typed_value (elem_value ?d e)" if "e \<in> set t" for e
  proof (cases "named (fst e) ?d")
    case None
    then show ?thesis using assms(2) that by (auto simp: elem_value_def typed_value_def template_ok_def list_all_iff)
  next
    case (Some x)
    then show ?thesis using assms(1) named_Some [OF Some] by (simp add: elem_value_def obj_ok_def list_all_iff)
  qed
  then have ok: "obj_ok (ST_obj (Some t) ?new)" using codes dist by (simp add: obj_ok_def list_all_iff)
  have get: "obj_get (ST_obj (Some t) ?new) f = (if fieldcode f \<in> set (field_codes t)
       then Some (case obj_get ob f of None \<Rightarrow> ST_notpresent | Some v \<Rightarrow> v) else None)"
  proof (cases "fieldcode f \<in> set (field_codes t)")
    case True
    then obtain e where e: "e \<in> set t" "field_eq (fst e) f" by (auto simp: field_codes_def field_eq_def)
    then have "named (fst e) ?d = named f ?d" by (simp add: field_eq_def)
    then show ?thesis
      using True named_map_elem_value [OF dist(2) e, of ?d]
      by (simp add: obj_get_named elem_value_def split: option.split)
  next
    case False
    then show ?thesis using named_map_None [OF False, of ?d] by (simp add: obj_get_named)
  qed
  show ?thesis unfolding st using valid left ok get isvalid_of_ok [OF ok] by simp
qed

theorem settype_exact_witness:
  "obj_ok (ST_obj None [(sfbalance, ST_amount (mk_native_u64 False 7 False)), (sfflags, ST_uint32 1)]) \<and>
   template_ok [(sfflags, soe_required), (sfbalance, soe_optional), (sfdomain, soe_optional)] \<and>
   fst (settype [(sfflags, soe_required), (sfbalance, soe_optional), (sfdomain, soe_optional)]
     (ST_obj None [(sfbalance, ST_amount (mk_native_u64 False 7 False)), (sfflags, ST_uint32 1)]))"
proof -
  let ?ob = "ST_obj None [(sfbalance, ST_amount (mk_native_u64 False 7 False)), (sfflags, ST_uint32 1)]"
  let ?t = "[(sfflags, soe_required), (sfbalance, soe_optional), (sfdomain, soe_optional)]"
  have ok: "obj_ok ?ob" "template_ok ?t" by code_simp+
  have "list_all (\<lambda>(f, flags).
        case obj_get ?ob f of
          None \<Rightarrow> flags \<noteq> soe_required
        | Some v \<Rightarrow> \<not> (flags = soe_default \<and> value_isdefault v)) ?t"
    "list_all (\<lambda>(g, v). fieldcode g \<in> set (field_codes ?t) \<or> isdiscardable g) (odata ?ob)" by code_simp+
  then show ?thesis using settype_exact [OF ok] ok by blast
qed

end
