(* ===== verification/Ter.thy ===== *)
theory Ter
  imports Prelude
begin

text \<open>
  Results of transactions: \<^verbatim>\<open>src/ripple/protocol/TER.h\<close> and \<^verbatim>\<open>src/ripple/protocol/impl/TER.cpp\<close>. A result
  is the integer of the enumeration; its class is decided by ranges.
\<close>

section \<open>Codes\<close>

type_synonym ter = int

definition tellocal_error :: ter where "tellocal_error = - 399"
definition telbad_domain :: ter where "telbad_domain = - 398"
definition telbad_path_count :: ter where "telbad_path_count = - 397"
definition telbad_public_key :: ter where "telbad_public_key = - 396"
definition telfailed_processing :: ter where "telfailed_processing = - 395"
definition telinsuf_fee_p :: ter where "telinsuf_fee_p = - 394"
definition telno_dst_partial :: ter where "telno_dst_partial = - 393"
definition temmalformed :: ter where "temmalformed = - 299"
definition tembad_amount :: ter where "tembad_amount = - 298"
definition tembad_auth_master :: ter where "tembad_auth_master = - 297"
definition tembad_currency :: ter where "tembad_currency = - 296"
definition tembad_expiration :: ter where "tembad_expiration = - 295"
definition tembad_fee :: ter where "tembad_fee = - 294"
definition tembad_issuer :: ter where "tembad_issuer = - 293"
definition tembad_limit :: ter where "tembad_limit = - 292"
definition tembad_offer :: ter where "tembad_offer = - 291"
definition tembad_path :: ter where "tembad_path = - 290"
definition tembad_path_loop :: ter where "tembad_path_loop = - 289"
definition tembad_send_xrp_limit :: ter where "tembad_send_xrp_limit = - 288"
definition tembad_send_xrp_max :: ter where "tembad_send_xrp_max = - 287"
definition tembad_send_xrp_no_direct :: ter where "tembad_send_xrp_no_direct = - 286"
definition tembad_send_xrp_partial :: ter where "tembad_send_xrp_partial = - 285"
definition tembad_send_xrp_paths :: ter where "tembad_send_xrp_paths = - 284"
definition tembad_sequence :: ter where "tembad_sequence = - 283"
definition tembad_signature :: ter where "tembad_signature = - 282"
definition tembad_src_account :: ter where "tembad_src_account = - 281"
definition tembad_transfer_rate :: ter where "tembad_transfer_rate = - 280"
definition temdst_is_src :: ter where "temdst_is_src = - 279"
definition temdst_needed :: ter where "temdst_needed = - 278"
definition teminvalid :: ter where "teminvalid = - 277"
definition teminvalid_flag :: ter where "teminvalid_flag = - 276"
definition temredundant :: ter where "temredundant = - 275"
definition temredundant_send_max :: ter where "temredundant_send_max = - 274"
definition temripple_empty :: ter where "temripple_empty = - 273"
definition temdisabled :: ter where "temdisabled = - 272"
definition tembad_div_type :: ter where "tembad_div_type = - 271"
definition tembad_release_schedule :: ter where "tembad_release_schedule = - 270"
definition temuncertain :: ter where "temuncertain = - 269"
definition temunknown :: ter where "temunknown = - 268"
definition teffailure :: ter where "teffailure = - 199"
definition tefalready :: ter where "tefalready = - 198"
definition tefbad_add_auth :: ter where "tefbad_add_auth = - 197"
definition tefbad_auth :: ter where "tefbad_auth = - 196"
definition tefbad_ledger :: ter where "tefbad_ledger = - 195"
definition tefcreated :: ter where "tefcreated = - 194"
definition tefdst_tag_needed :: ter where "tefdst_tag_needed = - 193"
definition tefexception :: ter where "tefexception = - 192"
definition tefinternal :: ter where "tefinternal = - 191"
definition tefno_auth_required :: ter where "tefno_auth_required = - 190"
definition tefpast_seq :: ter where "tefpast_seq = - 189"
definition tefwrong_prior :: ter where "tefwrong_prior = - 188"
definition tefmaster_disabled :: ter where "tefmaster_disabled = - 187"
definition tefmax_ledger :: ter where "tefmax_ledger = - 186"
definition tefreferee_exist :: ter where "tefreferee_exist = - 185"
definition tefreference_exist :: ter where "tefreference_exist = - 184"
definition terretry :: ter where "terretry = - 99"
definition terfunds_spent :: ter where "terfunds_spent = - 98"
definition terinsuf_fee_b :: ter where "terinsuf_fee_b = - 97"
definition terno_account :: ter where "terno_account = - 96"
definition terno_auth :: ter where "terno_auth = - 95"
definition terno_line :: ter where "terno_line = - 94"
definition terowners :: ter where "terowners = - 93"
definition terpre_seq :: ter where "terpre_seq = - 92"
definition terlast :: ter where "terlast = - 91"
definition terno_ripple :: ter where "terno_ripple = - 90"
definition tessuccess :: ter where "tessuccess = 0"
definition tecclaim :: ter where "tecclaim = 100"
definition tecpath_partial :: ter where "tecpath_partial = 101"
definition tecunfunded_add :: ter where "tecunfunded_add = 102"
definition tecunfunded_offer :: ter where "tecunfunded_offer = 103"
definition tecunfunded_payment :: ter where "tecunfunded_payment = 104"
definition tecfailed_processing :: ter where "tecfailed_processing = 105"
definition tecdir_full :: ter where "tecdir_full = 121"
definition tecinsuf_reserve_line :: ter where "tecinsuf_reserve_line = 122"
definition tecinsuf_reserve_offer :: ter where "tecinsuf_reserve_offer = 123"
definition tecno_dst :: ter where "tecno_dst = 124"
definition tecno_dst_insuf_xrp :: ter where "tecno_dst_insuf_xrp = 125"
definition tecno_line_insuf_reserve :: ter where "tecno_line_insuf_reserve = 126"
definition tecno_line_redundant :: ter where "tecno_line_redundant = 127"
definition tecpath_dry :: ter where "tecpath_dry = 128"
definition tecunfunded :: ter where "tecunfunded = 129"
definition tecmaster_disabled :: ter where "tecmaster_disabled = 130"
definition tecno_regular_key :: ter where "tecno_regular_key = 131"
definition tecowners :: ter where "tecowners = 132"
definition tecno_issuer :: ter where "tecno_issuer = 133"
definition tecno_auth :: ter where "tecno_auth = 134"
definition tecno_line :: ter where "tecno_line = 135"
definition tecinsuff_fee :: ter where "tecinsuff_fee = 136"
definition tecfrozen :: ter where "tecfrozen = 137"
definition tecno_target :: ter where "tecno_target = 138"
definition tecno_permission :: ter where "tecno_permission = 139"
definition tecno_entry :: ter where "tecno_entry = 140"
definition tecinsufficient_reserve :: ter where "tecinsufficient_reserve = 141"

text \<open>The enumerators in the order of the declaration\<close>

definition all_ters :: "ter list" where
  "all_ters = [
    tellocal_error, telbad_domain, telbad_path_count, telbad_public_key, telfailed_processing,
    telinsuf_fee_p, telno_dst_partial, temmalformed, tembad_amount, tembad_auth_master,
    tembad_currency, tembad_expiration, tembad_fee, tembad_issuer, tembad_limit,
    tembad_offer, tembad_path, tembad_path_loop, tembad_send_xrp_limit, tembad_send_xrp_max,
    tembad_send_xrp_no_direct, tembad_send_xrp_partial, tembad_send_xrp_paths, tembad_sequence, tembad_signature,
    tembad_src_account, tembad_transfer_rate, temdst_is_src, temdst_needed, teminvalid,
    teminvalid_flag, temredundant, temredundant_send_max, temripple_empty, temdisabled,
    tembad_div_type, tembad_release_schedule, temuncertain, temunknown, teffailure,
    tefalready, tefbad_add_auth, tefbad_auth, tefbad_ledger, tefcreated,
    tefdst_tag_needed, tefexception, tefinternal, tefno_auth_required, tefpast_seq,
    tefwrong_prior, tefmaster_disabled, tefmax_ledger, tefreferee_exist, tefreference_exist,
    terretry, terfunds_spent, terinsuf_fee_b, terno_account, terno_auth,
    terno_line, terowners, terpre_seq, terlast, terno_ripple,
    tessuccess, tecclaim, tecpath_partial, tecunfunded_add, tecunfunded_offer,
    tecunfunded_payment, tecfailed_processing, tecdir_full, tecinsuf_reserve_line, tecinsuf_reserve_offer,
    tecno_dst, tecno_dst_insuf_xrp, tecno_line_insuf_reserve, tecno_line_redundant, tecpath_dry,
    tecunfunded, tecmaster_disabled, tecno_regular_key, tecowners, tecno_issuer,
    tecno_auth, tecno_line, tecinsuff_fee, tecfrozen, tecno_target,
    tecno_permission, tecno_entry, tecinsufficient_reserve]"

section \<open>Classes\<close>

definition istellocal :: "ter \<Rightarrow> bool" where
  "istellocal x \<longleftrightarrow> x \<ge> tellocal_error \<and> x < temmalformed"

definition istemmalformed :: "ter \<Rightarrow> bool" where
  "istemmalformed x \<longleftrightarrow> x \<ge> temmalformed \<and> x < teffailure"

definition isteffailure :: "ter \<Rightarrow> bool" where
  "isteffailure x \<longleftrightarrow> x \<ge> teffailure \<and> x < terretry"

definition isterretry :: "ter \<Rightarrow> bool" where
  "isterretry x \<longleftrightarrow> x \<ge> terretry \<and> x < tessuccess"

definition istessuccess :: "ter \<Rightarrow> bool" where
  "istessuccess x \<longleftrightarrow> x = tessuccess"

definition istecclaim :: "ter \<Rightarrow> bool" where
  "istecclaim x \<longleftrightarrow> x \<ge> tecclaim"

lemmas ter_class_defs =
  istellocal_def istemmalformed_def isteffailure_def isterretry_def istessuccess_def istecclaim_def
  tellocal_error_def temmalformed_def teffailure_def terretry_def tessuccess_def tecclaim_def

section \<open>Names\<close>

definition results :: "(ter \<times> string \<times> string) list" where
  "results = [
    (tecclaim, ''tecclaim'',
      ''fee claimed. sequence used. no action.''),
    (tecdir_full, ''tecdir_full'',
      ''can not add entry to full directory.''),
    (tecfailed_processing, ''tecfailed_processing'',
      ''failed to correctly process transaction.''),
    (tecinsuf_reserve_line, ''tecinsuf_reserve_line'',
      ''insufficient reserve to add trust line.''),
    (tecinsuf_reserve_offer, ''tecinsuf_reserve_offer'',
      ''insufficient reserve to create offer.''),
    (tecno_dst, ''tecno_dst'',
      ''destination does not exist. send xrp to create it.''),
    (tecno_dst_insuf_xrp, ''tecno_dst_insuf_xrp'',
      ''destination does not exist. too little xrp sent to create it.''),
    (tecno_line_insuf_reserve, ''tecno_line_insuf_reserve'',
      ''no such line. too little reserve to create it.''),
    (tecno_line_redundant, ''tecno_line_redundant'',
      ''can't set non-existent line to default.''),
    (tecpath_dry, ''tecpath_dry'',
      ''path could not send partial amount.''),
    (tecpath_partial, ''tecpath_partial'',
      ''path could not send full amount.''),
    (tecmaster_disabled, ''tecmaster_disabled'',
      ''master key is disabled.''),
    (tecno_regular_key, ''tecno_regular_key'',
      ''regular key is not set.''),
    (tecunfunded, ''tecunfunded'',
      ''one of _add, _offer, or _send. deprecated.''),
    (tecunfunded_add, ''tecunfunded_add'',
      ''insufficient vrp balance for walletadd.''),
    (tecunfunded_offer, ''tecunfunded_offer'',
      ''insufficient balance to fund created offer.''),
    (tecunfunded_payment, ''tecunfunded_payment'',
      ''insufficient vrp balance to send.''),
    (tecowners, ''tecowners'',
      ''non-zero owner count.''),
    (tecno_issuer, ''tecno_issuer'',
      ''issuer account does not exist.''),
    (tecno_auth, ''tecno_auth'',
      ''not authorized to hold asset.''),
    (tecno_line, ''tecno_line'',
      ''no such line.''),
    (tecinsuff_fee, ''tecinsuff_fee'',
      ''insufficient balance to pay fee.''),
    (tecfrozen, ''tecfrozen'',
      ''asset is frozen.''),
    (tecno_target, ''tecno_target'',
      ''target account does not exist.''),
    (tecno_permission, ''tecno_permission'',
      ''no permission to perform requested operation.''),
    (tecno_entry, ''tecno_entry'',
      ''no matching entry found.''),
    (tecinsufficient_reserve, ''tecinsufficient_reserve'',
      ''insufficient reserve to complete requested operation.''),
    (tefalready, ''tefalready'',
      ''the exact transaction was already in this ledger.''),
    (tefbad_add_auth, ''tefbad_add_auth'',
      ''not authorized to add account.''),
    (tefbad_auth, ''tefbad_auth'',
      ''transaction's public key is not authorized.''),
    (tefbad_ledger, ''tefbad_ledger'',
      ''ledger in unexpected state.''),
    (tefcreated, ''tefcreated'',
      ''can't add an already created account or asset.''),
    (tefdst_tag_needed, ''tefdst_tag_needed'',
      ''destination tag required.''),
    (tefexception, ''tefexception'',
      ''unexpected program state.''),
    (teffailure, ''teffailure'',
      ''failed to apply.''),
    (tefinternal, ''tefinternal'',
      ''internal error.''),
    (tefmaster_disabled, ''tefmaster_disabled'',
      ''master key is disabled.''),
    (tefmax_ledger, ''tefmax_ledger'',
      ''ledger sequence too high.''),
    (tefno_auth_required, ''tefno_auth_required'',
      ''auth is not required.''),
    (tefpast_seq, ''tefpast_seq'',
      ''this sequence number has already past.''),
    (tefreferee_exist, ''tefreferee_exist'',
      ''this account has already had a referee.''),
    (tefreference_exist, ''tefreference_exist'',
      ''this account has already had a reference.''),
    (tefwrong_prior, ''tefwrong_prior'',
      ''this previous transaction does not match.''),
    (tellocal_error, ''tellocal_error'',
      ''local failure.''),
    (telbad_domain, ''telbad_domain'',
      ''domain too long.''),
    (telbad_path_count, ''telbad_path_count'',
      ''malformed: too many paths.''),
    (telbad_public_key, ''telbad_public_key'',
      ''public key too long.''),
    (telfailed_processing, ''telfailed_processing'',
      ''failed to correctly process transaction.''),
    (telinsuf_fee_p, ''telinsuf_fee_p'',
      ''fee insufficient.''),
    (telno_dst_partial, ''telno_dst_partial'',
      ''partial payment to create account not allowed.''),
    (temmalformed, ''temmalformed'',
      ''malformed transaction.''),
    (tembad_amount, ''tembad_amount'',
      ''can only send positive amounts.''),
    (tembad_auth_master, ''tembad_auth_master'',
      ''auth for unclaimed account needs correct master key.''),
    (tembad_currency, ''tembad_currency'',
      ''malformed: bad currency.''),
    (tembad_expiration, ''tembad_expiration'',
      ''malformed: bad expiration.''),
    (tembad_fee, ''tembad_fee'',
      ''invalid fee, negative or not vrp.''),
    (tembad_issuer, ''tembad_issuer'',
      ''malformed: bad issuer.''),
    (tembad_limit, ''tembad_limit'',
      ''limits must be non-negative.''),
    (tembad_offer, ''tembad_offer'',
      ''malformed: bad offer.''),
    (tembad_path, ''tembad_path'',
      ''malformed: bad path.''),
    (tembad_path_loop, ''tembad_path_loop'',
      ''malformed: loop in path.''),
    (tembad_send_xrp_limit, ''tembad_send_vrp_limit'',
      ''malformed: limit quality is not allowed for vrp to vrp.''),
    (tembad_send_xrp_max, ''tembad_send_vrp_max'',
      ''malformed: send max is not allowed for vrp to vrp or asset.''),
    (tembad_send_xrp_no_direct, ''tembad_send_vrp_no_direct'',
      ''malformed: no moorecoin direct is not allowed for vrp to vrp.''),
    (tembad_send_xrp_partial, ''tembad_send_vrp_partial'',
      ''malformed: partial payment is not allowed for vrp to vrp or asset.''),
    (tembad_send_xrp_paths, ''tembad_send_vrp_paths'',
      ''malformed: paths are not allowed for vrp to vrp.''),
    (tembad_sequence, ''tembad_sequence'',
      ''malformed: sequence is not in the past.''),
    (tembad_signature, ''tembad_signature'',
      ''malformed: bad signature.''),
    (tembad_src_account, ''tembad_src_account'',
      ''malformed: bad source account.''),
    (tembad_transfer_rate, ''tembad_transfer_rate'',
      ''malformed: transfer rate must be >= 1.0''),
    (temdst_is_src, ''temdst_is_src'',
      ''destination may not be source.''),
    (temdst_needed, ''temdst_needed'',
      ''destination not specified.''),
    (teminvalid, ''teminvalid'',
      ''the transaction is ill-formed.''),
    (teminvalid_flag, ''teminvalid_flag'',
      ''the transaction has an invalid flag.''),
    (temredundant, ''temredundant'',
      ''sends same currency to self.''),
    (temredundant_send_max, ''temredundant_send_max'',
      ''send max is redundant.''),
    (temripple_empty, ''temripple_empty'',
      ''pathset with no paths.''),
    (temuncertain, ''temuncertain'',
      ''in process of determining result. never returned.''),
    (temunknown, ''temunknown'',
      ''the transaction requires logic that is not implemented yet.''),
    (temdisabled, ''temdisabled'',
      ''the transaction requires logic that is currently disabled.''),
    (tembad_div_type, ''tembad_div_type'',
      ''bad dividend type''),
    (tembad_release_schedule, ''tembad_release_schedule'',
      ''malformed: bad releaseschedule''),
    (terretry, ''terretry'',
      ''retry transaction.''),
    (terfunds_spent, ''terfunds_spent'',
      ''can't set password, password set funds already spent.''),
    (terinsuf_fee_b, ''terinsuf_fee_b'',
      ''account balance can't pay fee.''),
    (terlast, ''terlast'',
      ''process last.''),
    (terno_ripple, ''terno_ripple'',
      ''path does not permit rippling.''),
    (terno_account, ''terno_account'',
      ''the source account does not exist.''),
    (terno_auth, ''terno_auth'',
      ''not authorized to hold ious.''),
    (terno_line, ''terno_line'',
      ''no such line.''),
    (terpre_seq, ''terpre_seq'',
      ''missing/inapplicable prior transaction.''),
    (terowners, ''terowners'',
      ''non-zero owner count.''),
    (tessuccess, ''tessuccess'',
      ''the transaction was applied. only final in a validated ledger.'')]"

definition transresultinfo :: "ter \<Rightarrow> (string \<times> string) option" where
  "transresultinfo code = map_option snd (find (\<lambda>r. fst r = code) results)"

definition transtoken :: "ter \<Rightarrow> string" where
  "transtoken code = (case transresultinfo code of Some (token, text) \<Rightarrow> token | None \<Rightarrow> ''-'')"

definition transhuman :: "ter \<Rightarrow> string" where
  "transhuman code = (case transresultinfo code of Some (token, text) \<Rightarrow> text | None \<Rightarrow> ''-'')"

section \<open>Property\<close>

text \<open>The class of a result, as the three letters its token begins with\<close>

definition class_prefix :: "ter \<Rightarrow> string list" where
  "class_prefix x =
     (if istellocal x then [''tel''] else []) @ (if istemmalformed x then [''tem''] else []) @
     (if isteffailure x then [''tef''] else []) @ (if isterretry x then [''ter''] else []) @
     (if istessuccess x then [''tes''] else []) @ (if istecclaim x then [''tec''] else [])"

lemma results_facts:
  "distinct (map fst results)"
  "distinct (map (\<lambda>r. fst (snd r)) results)"
  "list_all (\<lambda>r. class_prefix (fst r) = [take 3 (fst (snd r))]) results"
  "list_all (\<lambda>x. x \<in> set (map fst results)) all_ters"
  "distinct all_ters"
  by (code_simp, simp add: results_def, code_simp, code_simp, code_simp)

lemma transtoken_result:
  assumes "r \<in> set results"
  shows "transresultinfo (fst r) = Some (snd r) \<and> transtoken (fst r) = fst (snd r)"
proof -
  obtain q where q: "find (\<lambda>q. fst q = fst r) results = Some q"
    using assms find_None_iff [of "\<lambda>q. fst q = fst r" results] by fastforce
  then have "q \<in> set results" "fst q = fst r" by (auto simp: find_Some_iff)
  then have "q = r" using results_facts(1) assms by (metis distinct_map inj_onD)
  then show ?thesis using q by (simp add: transresultinfo_def transtoken_def case_prod_beta)
qed

text \<open>
  C35. Every result of the enumeration has its own code, belongs to exactly one of the six classes, and is in
  the table of names under a token of its own that begins with the three letters of its class: a token
  identifies the result.
\<close>

theorem ter_classes_exact:
  "distinct all_ters \<and>
   list_all (\<lambda>x. class_prefix x = [take 3 (transtoken x)] \<and> transresultinfo x \<noteq> None) all_ters \<and>
   distinct (map transtoken all_ters)"
proof -
  have row: "\<exists>r\<in>set results. fst r = x" if "x \<in> set all_ters" for x
    using results_facts(4) that by (force simp: list_all_iff)
  have "inj_on transtoken (set all_ters)"
  proof (rule inj_onI)
    fix x y
    assume "x \<in> set all_ters" "y \<in> set all_ters" "transtoken x = transtoken y"
    moreover from this obtain r q where "r \<in> set results" "fst r = x" "q \<in> set results" "fst q = y" using row by metis
    ultimately have "r = q" using transtoken_result results_facts(2) by (metis (mono_tags) distinct_map inj_onD)
    then show "x = y" using \<open>fst r = x\<close> \<open>fst q = y\<close> by simp
  qed
  moreover have "class_prefix x = [take 3 (transtoken x)] \<and> transresultinfo x \<noteq> None" if "x \<in> set all_ters" for x
    using row [OF that] transtoken_result results_facts(3) by (force simp: list_all_iff)
  ultimately show ?thesis using results_facts(5) by (auto simp: list_all_iff distinct_map)
qed

end
