(* ===== verification/Indexes.thy ===== *)
theory Indexes
  imports Uint_Types Serializer
begin

text \<open>
  The keys of ledger entries: \<^verbatim>\<open>ripple/protocol/impl/Indexes.cpp\<close> and the name spaces of
  \<^verbatim>\<open>ripple/protocol/LedgerFormats.h\<close>. A key is the first half of a SHA-512 hash of a short byte string;
  the hash is OpenSSL code, the parameter \<open>sha\<close> of every definition. What the code controls is the byte
  string, and the theorems show that different entries get different byte strings although five pairs of
  name spaces share a character, and that the pages of an order book fill exactly one window of keys.

  \<^verbatim>\<open>getqualityindex\<close> overwrites the last eight of the 32 big-endian bytes of a key: on the number the bytes
  stand for, the low 64 bits.
\<close>

section \<open>Name spaces\<close>

definition spaceaccount :: u16 where "spaceaccount = 0x61"
definition spacedirnode :: u16 where "spacedirnode = 0x64"
definition spacegenerator :: u16 where "spacegenerator = 0x67"
definition spaceripple :: u16 where "spaceripple = 0x72"
definition spaceoffer :: u16 where "spaceoffer = 0x6f"
definition spaceownerdir :: u16 where "spaceownerdir = 0x6f"
definition spacebookdir :: u16 where "spacebookdir = 0x62"
definition spaceskiplist :: u16 where "spaceskiplist = 0x73"
definition spaceamendment :: u16 where "spaceamendment = 0x66"
definition spacefee :: u16 where "spacefee = 0x65"
definition spaceticket :: u16 where "spaceticket = 0x74"
definition spacedividend :: u16 where "spacedividend = 0x64"
definition spacerefer :: u16 where "spacerefer = 0x72"
definition spaceasset :: u16 where "spaceasset = 0x74"
definition spaceassetstate :: u16 where "spaceassetstate = 0x73"

lemmas space_defs = spaceaccount_def spacedirnode_def spacegenerator_def spaceripple_def spaceoffer_def
  spaceownerdir_def spacebookdir_def spaceskiplist_def spaceamendment_def spacefee_def spaceticket_def
  spacedividend_def spacerefer_def spaceasset_def spaceassetstate_def

section \<open>The keys\<close>

definition getledgerhashindex :: "hash \<Rightarrow> uint256" where
  "getledgerhashindex sha = (let s = snd (add16 [] spaceskiplist) in sha s)"

definition getledgerhashindex_of :: "hash \<Rightarrow> u32 \<Rightarrow> uint256" where
  "getledgerhashindex_of sha desiredledgerindex =
     (let s = snd (add16 [] spaceskiplist);
          s = snd (add32 s (drop_bit 16 desiredledgerindex)) in sha s)"

definition getledgeramendmentindex :: "hash \<Rightarrow> uint256" where
  "getledgeramendmentindex sha = (let s = snd (add16 [] spaceamendment) in sha s)"

definition getledgerfeeindex :: "hash \<Rightarrow> uint256" where
  "getledgerfeeindex sha = (let s = snd (add16 [] spacefee) in sha s)"

definition getaccountrootindex :: "hash \<Rightarrow> account \<Rightarrow> uint256" where
  "getaccountrootindex sha a =
     (let s = snd (add16 [] spaceaccount);
          s = snd (add160 s a) in sha s)"

definition getaccountreferindex :: "hash \<Rightarrow> account \<Rightarrow> uint256" where
  "getaccountreferindex sha a =
     (let s = snd (add16 [] spacerefer);
          s = snd (add160 s a) in sha s)"

definition getledgerdividendindex :: "hash \<Rightarrow> uint256" where
  "getledgerdividendindex sha = (let s = snd (add16 [] spacedividend) in sha s)"

definition getgeneratorindex :: "hash \<Rightarrow> account \<Rightarrow> uint256" where
  "getgeneratorindex sha ugeneratorid =
     (let s = snd (add16 [] spacegenerator);
          s = snd (add160 s ugeneratorid) in sha s)"

definition getqualityindex :: "uint256 \<Rightarrow> u64 \<Rightarrow> uint256" where
  "getqualityindex ubase unodedir = (ubase AND NOT (mask 64)) OR ucast unodedir"

definition getqualitynext :: "uint256 \<Rightarrow> uint256" where
  "getqualitynext ubase = ubase + 0x10000000000000000"

definition getquality :: "uint256 \<Rightarrow> u64" where
  "getquality ubase = ucast ubase"

definition getbookbase :: "hash \<Rightarrow> book \<Rightarrow> uint256 res" where
  "getbookbase sha b =
     (if \<not> book_isconsistent b then Inl Assertion_failed
      else let s = snd (add16 [] spacebookdir);
               s = snd (add160 s (currency (book_in b)));
               s = snd (add160 s (currency (book_out b)));
               s = snd (add160 s (account (book_in b)));
               s = snd (add160 s (account (book_out b)))
           in Inr (getqualityindex (sha s) 0))"

definition getofferindex :: "hash \<Rightarrow> account \<Rightarrow> u32 \<Rightarrow> uint256" where
  "getofferindex sha a usequence =
     (let s = snd (add16 [] spaceoffer);
          s = snd (add160 s a);
          s = snd (add32 s usequence) in sha s)"

definition getownerdirindex :: "hash \<Rightarrow> account \<Rightarrow> uint256" where
  "getownerdirindex sha a =
     (let s = snd (add16 [] spaceownerdir);
          s = snd (add160 s a) in sha s)"

definition getdirnodeindex :: "hash \<Rightarrow> uint256 \<Rightarrow> u64 \<Rightarrow> uint256" where
  "getdirnodeindex sha udirroot unodeindex =
     (if unodeindex \<noteq> 0
      then let s = snd (add16 [] spacedirnode);
               s = snd (add256 s udirroot);
               s = snd (add64 s unodeindex) in sha s
      else udirroot)"

definition getticketindex :: "hash \<Rightarrow> account \<Rightarrow> u32 \<Rightarrow> uint256" where
  "getticketindex sha a usequence =
     (let s = snd (add16 [] spaceticket);
          s = snd (add160 s a);
          s = snd (add32 s usequence) in sha s)"

definition getripplestateindex :: "hash \<Rightarrow> account \<Rightarrow> account \<Rightarrow> currency \<Rightarrow> uint256" where
  "getripplestateindex sha a b c =
     (let s = snd (add16 [] spaceripple);
          s = (if a < b then snd (add160 (snd (add160 s a)) b)
               else snd (add160 (snd (add160 s b)) a));
          s = snd (add160 s c) in sha s)"

definition getripplestateindex_issue :: "hash \<Rightarrow> account \<Rightarrow> issue \<Rightarrow> uint256" where
  "getripplestateindex_issue sha a i = getripplestateindex sha a (account i) (currency i)"

definition getassetindex :: "hash \<Rightarrow> account \<Rightarrow> currency \<Rightarrow> uint256" where
  "getassetindex sha a c =
     (let s = snd (add16 [] spaceasset);
          s = snd (add160 s a);
          s = snd (add160 s c) in sha s)"

definition getassetindex_issue :: "hash \<Rightarrow> issue \<Rightarrow> uint256" where
  "getassetindex_issue sha i = getassetindex sha (account i) (currency i)"

definition getassetstateindex :: "hash \<Rightarrow> account \<Rightarrow> account \<Rightarrow> currency \<Rightarrow> uint256" where
  "getassetstateindex sha a b c =
     (let s = snd (add16 [] spaceassetstate);
          s = (if a < b then snd (add160 (snd (add160 s a)) b)
               else snd (add160 (snd (add160 s b)) a));
          s = snd (add160 s c) in sha s)"

definition getassetstateindex_issue :: "hash \<Rightarrow> account \<Rightarrow> issue \<Rightarrow> uint256" where
  "getassetstateindex_issue sha a i = getassetstateindex sha a (account i) (currency i)"

section \<open>What a key identifies\<close>

text \<open>The entries the key functions tell apart, and the key each of them is stored under.\<close>

datatype entry_id =
    Skip_list
  | Skip_list_of u32
  | Amendments
  | Fees
  | Account_root account
  | Refer account
  | Dividend
  | Generator account
  | Book_dir book
  | Offer account u32
  | Owner_dir account
  | Dir_node uint256 u64
  | Ticket account u32
  | Ripple_state account account currency
  | Asset account currency
  | Asset_state account account currency

fun entry_key :: "hash \<Rightarrow> entry_id \<Rightarrow> uint256 res" where
  "entry_key sha Skip_list = Inr (getledgerhashindex sha)"
| "entry_key sha (Skip_list_of n) = Inr (getledgerhashindex_of sha n)"
| "entry_key sha Amendments = Inr (getledgeramendmentindex sha)"
| "entry_key sha Fees = Inr (getledgerfeeindex sha)"
| "entry_key sha (Account_root a) = Inr (getaccountrootindex sha a)"
| "entry_key sha (Refer a) = Inr (getaccountreferindex sha a)"
| "entry_key sha Dividend = Inr (getledgerdividendindex sha)"
| "entry_key sha (Generator a) = Inr (getgeneratorindex sha a)"
| "entry_key sha (Book_dir b) = getbookbase sha b"
| "entry_key sha (Offer a n) = Inr (getofferindex sha a n)"
| "entry_key sha (Owner_dir a) = Inr (getownerdirindex sha a)"
| "entry_key sha (Dir_node r n) = Inr (getdirnodeindex sha r n)"
| "entry_key sha (Ticket a n) = Inr (getticketindex sha a n)"
| "entry_key sha (Ripple_state a b c) = Inr (getripplestateindex sha a b c)"
| "entry_key sha (Asset a c) = Inr (getassetindex sha a c)"
| "entry_key sha (Asset_state a b c) = Inr (getassetstateindex sha a b c)"

text \<open>
  The identifiers that have a hashed key: a consistent book, and a directory page after the root (page 0 is
  the root itself).
\<close>

fun hashed_id :: "entry_id \<Rightarrow> bool" where
  "hashed_id (Book_dir b) = book_isconsistent b"
| "hashed_id (Dir_node r n) = (n \<noteq> 0)"
| "hashed_id _ = True"

text \<open>
  Two identifiers of one entry: the two accounts of a trust line or an asset state stand in either order, and
  a skip list page serves the 65536 ledgers that agree on the upper half of their number.
\<close>

fun id_norm :: "entry_id \<Rightarrow> entry_id" where
  "id_norm (Ripple_state a b c) = Ripple_state (min a b) (max a b) c"
| "id_norm (Asset_state a b c) = Asset_state (min a b) (max a b) c"
| "id_norm (Skip_list_of n) = Skip_list_of (drop_bit 16 n)"
| "id_norm i = i"

text \<open>The byte string that is hashed\<close>

fun id_bytes :: "entry_id \<Rightarrow> blob" where
  "id_bytes Skip_list = bits_enc spaceskiplist"
| "id_bytes (Skip_list_of n) = bits_enc spaceskiplist @ bits_enc (drop_bit 16 n)"
| "id_bytes Amendments = bits_enc spaceamendment"
| "id_bytes Fees = bits_enc spacefee"
| "id_bytes (Account_root a) = bits_enc spaceaccount @ bits_enc a"
| "id_bytes (Refer a) = bits_enc spacerefer @ bits_enc a"
| "id_bytes Dividend = bits_enc spacedividend"
| "id_bytes (Generator a) = bits_enc spacegenerator @ bits_enc a"
| "id_bytes (Book_dir b) = bits_enc spacebookdir @ bits_enc (currency (book_in b)) @
     bits_enc (currency (book_out b)) @ bits_enc (account (book_in b)) @ bits_enc (account (book_out b))"
| "id_bytes (Offer a n) = bits_enc spaceoffer @ bits_enc a @ bits_enc n"
| "id_bytes (Owner_dir a) = bits_enc spaceownerdir @ bits_enc a"
| "id_bytes (Dir_node r n) = bits_enc spacedirnode @ bits_enc r @ bits_enc n"
| "id_bytes (Ticket a n) = bits_enc spaceticket @ bits_enc a @ bits_enc n"
| "id_bytes (Ripple_state a b c) = bits_enc spaceripple @ bits_enc (min a b) @ bits_enc (max a b) @ bits_enc c"
| "id_bytes (Asset a c) = bits_enc spaceasset @ bits_enc a @ bits_enc c"
| "id_bytes (Asset_state a b c) =
     bits_enc spaceassetstate @ bits_enc (min a b) @ bits_enc (max a b) @ bits_enc c"

lemmas key_defs = getledgerhashindex_def getledgerhashindex_of_def getledgeramendmentindex_def
  getledgerfeeindex_def getaccountrootindex_def getaccountreferindex_def getledgerdividendindex_def
  getgeneratorindex_def getbookbase_def getofferindex_def getownerdirindex_def getdirnodeindex_def
  getticketindex_def getripplestateindex_def getassetindex_def getassetstateindex_def

fun book_id :: "entry_id \<Rightarrow> bool" where
  "book_id (Book_dir b) = True"
| "book_id _ = False"

lemma entry_key_bytes:
  "hashed_id i \<Longrightarrow> entry_key sha i =
     Inr (if book_id i then getqualityindex (sha (id_bytes i)) 0 else sha (id_bytes i))"
  by (cases i) (auto simp: key_defs add_append Let_def min_def max_def)

text \<open>The name space character and the length of the string tell the kinds of entries apart.\<close>

text \<open>The number of the kind of an entry, and the name space and length of each kind\<close>

fun id_kind :: "entry_id \<Rightarrow> nat" where
  "id_kind Skip_list = 0"
| "id_kind (Skip_list_of _) = 1"
| "id_kind Amendments = 2"
| "id_kind Fees = 3"
| "id_kind (Account_root _) = 4"
| "id_kind (Refer _) = 5"
| "id_kind Dividend = 6"
| "id_kind (Generator _) = 7"
| "id_kind (Book_dir _) = 8"
| "id_kind (Offer _ _) = 9"
| "id_kind (Owner_dir _) = 10"
| "id_kind (Dir_node _ _) = 11"
| "id_kind (Ticket _ _) = 12"
| "id_kind (Ripple_state _ _ _) = 13"
| "id_kind (Asset _ _) = 14"
| "id_kind (Asset_state _ _ _) = 15"

definition kind_shapes :: "(u16 \<times> nat) list" where
  "kind_shapes = [(spaceskiplist, 2), (spaceskiplist, 6), (spaceamendment, 2), (spacefee, 2), (spaceaccount, 22),
     (spacerefer, 22), (spacedividend, 2), (spacegenerator, 22), (spacebookdir, 82), (spaceoffer, 26),
     (spaceownerdir, 22), (spacedirnode, 42), (spaceticket, 26), (spaceripple, 62), (spaceasset, 42),
     (spaceassetstate, 62)]"

lemma kind_shapes_distinct: "distinct kind_shapes"
  by (simp add: kind_shapes_def space_defs)

lemma id_kind_bound: "id_kind i < length kind_shapes"
  by (cases i) (simp_all add: kind_shapes_def)

lemma id_bytes_shape:
  "take 2 (id_bytes i) = bits_enc (fst (kind_shapes ! id_kind i)) \<and> length (id_bytes i) = snd (kind_shapes ! id_kind i)"
  by (cases i) (simp_all add: kind_shapes_def)

lemma id_bytes_kind:
  assumes "id_bytes i = id_bytes j"
  shows "id_kind i = id_kind j"
proof -
  have "kind_shapes ! id_kind i = kind_shapes ! id_kind j"
    using id_bytes_shape [of i] id_bytes_shape [of j] assms
    by (simp add: bits_enc_inject prod_eq_iff)
  then show ?thesis
    using nth_eq_iff_index_eq [OF kind_shapes_distinct id_kind_bound id_kind_bound] by blast
qed

lemma id_bytes_same:
  assumes "id_bytes i = id_bytes j"
  shows "id_norm i = id_norm j"
  using id_bytes_kind [OF assms] assms
  by (cases i; cases j) (simp_all add: bits_enc_inject bits_enc_append_inject)

lemma id_kind_norm: "id_kind (id_norm i) = id_kind i"
  by (cases i) simp_all

lemma id_bytes_norm:
  assumes "id_norm i = id_norm j"
  shows "id_bytes i = id_bytes j"
proof -
  have "id_kind i = id_kind j" using id_kind_norm assms by metis
  then show ?thesis using assms by (cases i; cases j) simp_all
qed

lemma book_id_norm: "book_id (id_norm i) = book_id i"
  by (cases i) simp_all

section \<open>The window of an order book\<close>

lemma drop_getqualityindex: "drop_bit 64 (getqualityindex b q) = drop_bit 64 b"
  by (rule bit_eqI) (auto simp: getqualityindex_def bit_simps dest: bit_imp_le_length)

lemma entry_key_high:
  assumes "hashed_id i"
  shows "\<exists>k. entry_key sha i = Inr k \<and> drop_bit 64 k = drop_bit 64 (sha (id_bytes i))"
  unfolding entry_key_bytes [OF assms] using drop_getqualityindex [of "sha (id_bytes i)" 0] by simp

lemma take_getqualityindex: "getquality (getqualityindex b q) = q"
  by (rule bit_eqI) (auto simp: getqualityindex_def getquality_def bit_simps)

lemma getqualityindex_unique:
  assumes "drop_bit 64 i = drop_bit 64 b"
  shows "getqualityindex b (getquality i) = i"
proof (rule bit_word_eqI)
  fix n
  assume "n < LENGTH(256)"
  have "bit i n = bit b n" if "64 \<le> n"
  proof -
    have "bit (drop_bit 64 i) (n - 64) = bit (drop_bit 64 b) (n - 64)" using assms by simp
    then show ?thesis using that by (simp add: bit_simps)
  qed
  then show "bit (getqualityindex b (getquality i)) n = bit i n"
    using \<open>n < LENGTH(256)\<close> by (auto simp: getqualityindex_def getquality_def bit_simps)
qed

lemma unat_exp64: "unat (2 ^ 64 :: uint256) = 2 ^ 64"
  by simp

lemma unat_drop64: "unat (drop_bit 64 i) = unat (i :: uint256) div 2 ^ 64"
  by (simp only: drop_bit_eq_div unat_div unat_exp64)

lemma unat_getquality: "unat (getquality i) = unat i mod 2 ^ 64"
  by (simp add: getquality_def unsigned_ucast_eq take_bit_eq_mod)

lemma unat_getqualityindex: "unat (getqualityindex b q) = unat b div 2 ^ 64 * 2 ^ 64 + unat q"
  using unat_drop64 [of "getqualityindex b q"] unat_getquality [of "getqualityindex b q"]
    div_mult_mod_eq [of "unat (getqualityindex b q)" "2 ^ 64"] unat_drop64 [of b]
  by (simp add: drop_getqualityindex take_getqualityindex)

lemma same_window: "drop_bit 64 i = drop_bit 64 b \<longleftrightarrow> unat i div 2 ^ 64 = unat (b :: uint256) div 2 ^ 64"
  by (metis unat_drop64 unsigned_word_eqI)

lemma unat_getqualitynext:
  assumes "getqualitynext (getqualityindex b 0) \<noteq> 0"
  shows "unat (getqualitynext (getqualityindex b 0)) = unat b div 2 ^ 64 * 2 ^ 64 + 2 ^ 64"
proof -
  let ?n = "unat b div 2 ^ 64"
  have "unat b < 2 ^ 256" using unsigned_less [of b] by simp
  then have le: "?n + 1 \<le> 2 ^ 192" by (simp add: Suc_le_eq less_mult_imp_div_less)
  have u: "unat (getqualitynext (getqualityindex b 0)) = (?n * 2 ^ 64 + 2 ^ 64) mod 2 ^ 256"
    by (simp add: getqualitynext_def unat_word_ariths unat_getqualityindex)
  have "(?n + 1) * 2 ^ 64 \<noteq> 2 ^ 256"
  proof
    assume "(?n + 1) * 2 ^ 64 = 2 ^ 256"
    then have "unat (getqualitynext (getqualityindex b 0)) = 0" using u by simp
    then show False using assms unat_eq_zero by blast
  qed
  then have "?n * 2 ^ 64 + 2 ^ 64 < 2 ^ 256" using le by simp
  then show ?thesis using u by simp
qed

section \<open>Properties\<close>

text \<open>
  C14. The keys of two entries are equal exactly when they are the same entry, provided the hash does not
  collide on the two byte strings in its upper 192 bits (the part of the key an order book keeps). Name spaces
  that share a character are told apart by the length of what is hashed; a trust line and an asset state have
  one key whichever account is named first, and a skip list page one key for all the ledgers it serves.
\<close>

theorem entry_keys_separate:
  assumes "hashed_id i" "hashed_id j"
    and "drop_bit 64 (sha (id_bytes i)) = drop_bit 64 (sha (id_bytes j)) \<Longrightarrow> id_bytes i = id_bytes j"
  shows "entry_key sha i = entry_key sha j \<longleftrightarrow> id_norm i = id_norm j"
proof
  assume same: "id_norm i = id_norm j"
  have "book_id i = book_id j" unfolding book_id_norm [symmetric, of i] same by (rule book_id_norm)
  then show "entry_key sha i = entry_key sha j"
    by (simp only: entry_key_bytes [OF assms(1)] entry_key_bytes [OF assms(2)] id_bytes_norm [OF same])
next
  assume eq: "entry_key sha i = entry_key sha j"
  obtain k where "entry_key sha i = Inr k" "drop_bit 64 k = drop_bit 64 (sha (id_bytes i))"
    using entry_key_high [OF assms(1)] by blast
  moreover obtain l where "entry_key sha j = Inr l" "drop_bit 64 l = drop_bit 64 (sha (id_bytes j))"
    using entry_key_high [OF assms(2)] by blast
  ultimately have "drop_bit 64 (sha (id_bytes i)) = drop_bit 64 (sha (id_bytes j))" using eq by simp
  then show "id_norm i = id_norm j" by (rule id_bytes_same [OF assms(3)])
qed

theorem entry_keys_separate_witness:
  "let sha = (\<lambda>bs. push_bit 64 (of_nat (be_val bs) :: uint256)) in
   entry_key sha (Offer 5 7) \<noteq> entry_key sha (Owner_dir 5) \<and>
   entry_key sha (Owner_dir 5) \<noteq> entry_key sha (Owner_dir 6)"
proof -
  let ?sha = "\<lambda>bs. push_bit 64 (of_nat (be_val bs) :: uint256)"
  have ne: "drop_bit 64 (?sha (id_bytes (Owner_dir 5))) \<noteq> drop_bit 64 (?sha (id_bytes (Owner_dir 6)))"
    "drop_bit 64 (?sha (id_bytes (Offer 5 7))) \<noteq> drop_bit 64 (?sha (id_bytes (Owner_dir 5)))"
    by (simp_all add: bits_enc_bytes space_defs be_eval)
  show ?thesis
    using entry_keys_separate [of "Owner_dir 5" "Owner_dir 6" ?sha] ne(1)
      entry_keys_separate [of "Offer 5 7" "Owner_dir 5" ?sha] ne(2)
    by (simp add: Let_def)
qed

text \<open>
  C29. The directory pages of an order book, one per quality, are the keys from the base of the book up to and
  not including the next book's: every key in that window is the page of exactly the quality read back from
  it, and the order of keys in the window is the order of qualities. The book must not be the last one of the
  key space, where the end of the window wraps around to zero.
\<close>

theorem quality_window:
  assumes "getqualitynext (getqualityindex b 0) \<noteq> 0"
  shows "(getqualityindex b 0 \<le> i \<and> i < getqualitynext (getqualityindex b 0) \<longleftrightarrow> i = getqualityindex b (getquality i))
    \<and> getquality (getqualityindex b q) = q
    \<and> (getqualityindex b q \<le> getqualityindex b q' \<longleftrightarrow> q \<le> q')"
proof -
  let ?n = "unat b div 2 ^ 64"
  have "(getqualityindex b 0 \<le> i \<and> i < getqualitynext (getqualityindex b 0))
      = (?n * 2 ^ 64 \<le> unat i \<and> unat i < (?n + 1) * 2 ^ 64)"
    by (simp add: word_le_nat_alt word_less_nat_alt unat_getqualityindex unat_getqualitynext [OF assms] add.commute)
  also have "\<dots> = (unat i div 2 ^ 64 = ?n)"
    using div_nat_eqI [of ?n "2 ^ 64" "unat i"] div_times_less_eq_dividend [of "unat i" "2 ^ 64"]
      dividend_less_times_div [of "2 ^ 64" "unat i"] by auto
  also have "\<dots> = (i = getqualityindex b (getquality i))"
    using same_window [of i b] getqualityindex_unique [of i b] drop_getqualityindex [of b "getquality i"] by auto
  finally have "(getqualityindex b 0 \<le> i \<and> i < getqualitynext (getqualityindex b 0)) = (i = getqualityindex b (getquality i))" .
  then show ?thesis
    by (simp add: word_le_nat_alt [of "getqualityindex b q"] word_le_nat_alt [of q] unat_getqualityindex
        take_getqualityindex)
qed

theorem quality_window_witness:
  "getqualityindex 0x50000000000000007 0 \<le> 0x50000000000000009
     \<and> (0x50000000000000009 :: uint256) = getqualityindex 0x50000000000000007 (getquality 0x50000000000000009)"
proof -
  have base: "getqualityindex 0x50000000000000007 0 = 0x50000000000000000"
    by (simp add: word_unat_eq_iff unat_getqualityindex)
  then have "getqualitynext (getqualityindex 0x50000000000000007 0) \<noteq> 0"
    by (simp add: getqualitynext_def)
  from quality_window [OF this, of "0x50000000000000009" 0 0] show ?thesis
    by (simp add: getqualitynext_def base)
qed

end
