(* ===== verification/Sha_Node.thy ===== *)
theory Sha_Node
  imports Serializer
begin

text \<open>
  The nodes of the hash tree that holds a ledger's entries and transactions:
  \<^verbatim>\<open>src/ripple/shamap/SHAMapItem.h\<close>, \<^verbatim>\<open>SHAMapNodeID.h\<close>, \<^verbatim>\<open>SHAMapTreeNode.h\<close> and their \<^verbatim>\<open>impl\<close> files, with the
  prefixes of \<^verbatim>\<open>src/ripple/protocol/impl/HashPrefix.cpp\<close>.

  A node is a leaf with an item, or an inner node with 16 branches; both keep their hash (\<^verbatim>\<open>mHash\<close>). A branch
  is the pair of \<^verbatim>\<open>mHashes[i]\<close> and \<^verbatim>\<open>mChildren[i]\<close>; in the nodes a map makes itself the bit of \<^verbatim>\<open>mIsBranch\<close> is
  set exactly when the hash is not zero, which is how the model reads it. A node read from bytes is a
  \<open>rawnode\<close>, which keeps the bits. The hash function is OpenSSL's SHA-512, the parameter \<open>sha\<close>. The
  sequence number by which maps share nodes and copy them on the first write is left out: a node is a value.
\<close>

section \<open>Prefixes, items and identifiers\<close>

definition hashprefix :: "byte \<Rightarrow> byte \<Rightarrow> byte \<Rightarrow> u32" where
  "hashprefix a b c =
     (let p = ucast a;
          p = push_bit 8 p + ucast b;
          p = push_bit 8 p + ucast c
      in push_bit 8 p)"

definition prefix_transactionid :: u32 where "prefix_transactionid = hashprefix 0x74 0x78 0x6e"
definition prefix_txnode :: u32 where "prefix_txnode = hashprefix 0x73 0x6e 0x64"
definition prefix_leafnode :: u32 where "prefix_leafnode = hashprefix 0x6d 0x6c 0x6e"
definition prefix_innernode :: u32 where "prefix_innernode = hashprefix 0x6d 0x69 0x6e"

lemma prefix_values [simp]:
  "prefix_transactionid = 0x74786e00" "prefix_txnode = 0x736e6400"
  "prefix_leafnode = 0x6d6c6e00" "prefix_innernode = 0x6d696e00"
  by (simp_all add: prefix_transactionid_def prefix_txnode_def prefix_leafnode_def prefix_innernode_def
      hashprefix_def)

definition getprefixhash :: "hash \<Rightarrow> u32 \<Rightarrow> blob \<Rightarrow> uint256" where
  "getprefixhash sha prefix data = sha (snd (add32 [] prefix) @ data)"

record shamapitem =
  mtag :: uint256
  mdata :: blob

record shamapnodeid =
  mnodeid :: uint256
  mdepth :: nat

definition root_id :: shamapnodeid where
  "root_id = \<lparr>mnodeid = 0, mdepth = 0\<rparr>"

definition isroot :: "shamapnodeid \<Rightarrow> bool" where
  "isroot n \<longleftrightarrow> mdepth n = 0"

definition id_bytes256 :: "uint256 \<Rightarrow> blob" where
  "id_bytes256 v = be_bytes 32 (unat v)"

definition id_of_bytes :: "blob \<Rightarrow> uint256" where
  "id_of_bytes bs = of_nat (be_val bs)"

definition masks :: "nat \<Rightarrow> uint256" where
  "masks depth =
     id_of_bytes (take 32 (replicate (depth div 2) 0xff @ (if odd depth then [0xf0] else []) @ replicate 32 0))"

definition nodeid_of_hash :: "nat \<Rightarrow> uint256 \<Rightarrow> shamapnodeid res" where
  "nodeid_of_hash depth h =
     rassert (depth < 65) (Inr \<lparr>mnodeid = h AND masks depth, mdepth = depth\<rparr>)"

text \<open>A node identifier on the wire: none when the buffer is too short.\<close>

definition nodeid_of_raw :: "blob \<Rightarrow> shamapnodeid option" where
  "nodeid_of_raw bs =
     (if length bs < 33 then None
      else Some \<lparr>mnodeid = id_of_bytes (take 32 bs), mdepth = unat (bs ! 32)\<rparr>)"

definition addidraw :: "serializer \<Rightarrow> shamapnodeid \<Rightarrow> serializer" where
  "addidraw s n = snd (add8 (snd (add256 s (mnodeid n))) (of_nat (mdepth n)))"

definition getparentnodeid :: "shamapnodeid \<Rightarrow> shamapnodeid res" where
  "getparentnodeid n = rassert (mdepth n \<noteq> 0) (nodeid_of_hash (mdepth n - 1) (mnodeid n))"

definition getchildnodeid :: "shamapnodeid \<Rightarrow> nat \<Rightarrow> shamapnodeid res" where
  "getchildnodeid n m =
     rassert (m < 16) (rassert (mdepth n \<le> 64)
       (if mdepth n div 2 < 32
        then let bs = id_bytes256 (mnodeid n);
                 k = mdepth n div 2;
                 nib = (if odd (mdepth n) then of_nat m else push_bit 4 (of_nat m))
             in Inr \<lparr>mnodeid = id_of_bytes (bs[k := bs ! k OR nib]), mdepth = mdepth n + 1\<rparr>
        else Inl Undefined_behaviour))"

definition selectbranch :: "shamapnodeid \<Rightarrow> uint256 \<Rightarrow> nat res" where
  "selectbranch n h =
     (if mdepth n div 2 < 32
      then let branch = unat (id_bytes256 h ! (mdepth n div 2))
           in Inr (if odd (mdepth n) then branch mod 16 else branch div 16)
      else Inl Undefined_behaviour)"

section \<open>Tree nodes\<close>

datatype tntype = tnerror | tninner | tntransaction_nm | tntransaction_md | tnaccount_state

datatype shanodeformat = snfprefix | snfwire | snfhash

datatype shamaptreenode =
    TLeaf uint256 tntype shamapitem
  | TInner uint256 "(uint256 \<times> shamaptreenode option) list"

type_synonym branches = "(uint256 \<times> shamaptreenode option) list"

fun getnodehash :: "shamaptreenode \<Rightarrow> uint256" where
  "getnodehash (TLeaf h _ _) = h"
| "getnodehash (TInner h _) = h"

fun isinner :: "shamaptreenode \<Rightarrow> bool" where
  "isinner (TLeaf _ _ _) = False"
| "isinner (TInner _ _) = True"

fun gettype :: "shamaptreenode \<Rightarrow> tntype" where
  "gettype (TLeaf _ ty _) = ty"
| "gettype (TInner _ _) = tninner"

fun peekitem_node :: "shamaptreenode \<Rightarrow> shamapitem option" where
  "peekitem_node (TLeaf _ _ it) = Some it"
| "peekitem_node (TInner _ _) = None"

fun node_branches :: "shamaptreenode \<Rightarrow> branches" where
  "node_branches (TLeaf _ _ _) = []"
| "node_branches (TInner _ bs) = bs"

definition isleaf_type :: "tntype \<Rightarrow> bool" where
  "isleaf_type ty \<longleftrightarrow> ty = tntransaction_nm \<or> ty = tntransaction_md \<or> ty = tnaccount_state"

definition isemptybranch :: "branches \<Rightarrow> nat \<Rightarrow> bool" where
  "isemptybranch bs m \<longleftrightarrow> fst (bs ! m) = 0"

definition isempty :: "branches \<Rightarrow> bool" where
  "isempty bs \<longleftrightarrow> list_all (\<lambda>b. fst b = 0) bs"

definition getbranchcount :: "branches \<Rightarrow> nat" where
  "getbranchcount bs = length (filter (\<lambda>m. \<not> isemptybranch bs m) [0..<16])"

text \<open>\<^verbatim>\<open>updateHash\<close>: the bytes that are hashed for a node of each type\<close>

definition inner_string :: "uint256 list \<Rightarrow> blob" where
  "inner_string hs = snd (add32 [] prefix_innernode) @ concat (map bits_enc hs)"

definition leaf_string :: "tntype \<Rightarrow> shamapitem \<Rightarrow> blob" where
  "leaf_string ty it =
     (if ty = tntransaction_nm then snd (add32 [] prefix_transactionid) @ mdata it
      else let s = snd (add32 [] (if ty = tnaccount_state then prefix_leafnode else prefix_txnode));
               s = snd (addraw s (mdata it))
           in snd (add256 s (mtag it)))"

definition inner_hash :: "hash \<Rightarrow> branches \<Rightarrow> uint256" where
  "inner_hash sha bs = (if isempty bs then 0 else sha (inner_string (map fst bs)))"

definition leaf_hash :: "hash \<Rightarrow> tntype \<Rightarrow> shamapitem \<Rightarrow> uint256" where
  "leaf_hash sha ty it = sha (leaf_string ty it)"

fun updatehash :: "hash \<Rightarrow> shamaptreenode \<Rightarrow> (bool \<times> shamaptreenode) res" where
  "updatehash sha (TInner h bs) =
     (let nh = inner_hash sha bs in if nh = h then Inr (False, TInner h bs) else Inr (True, TInner nh bs))"
| "updatehash sha (TLeaf h ty it) =
     rassert (isleaf_type ty)
       (let nh = leaf_hash sha ty it in if nh = h then Inr (False, TLeaf h ty it) else Inr (True, TLeaf nh ty it))"

definition makeinner :: shamaptreenode where
  "makeinner = TInner 0 (replicate 16 (0, None))"

definition mk_leaf :: "hash \<Rightarrow> shamapitem \<Rightarrow> tntype \<Rightarrow> shamaptreenode res" where
  "mk_leaf sha it ty =
     rassert (12 \<le> length (mdata it)) (rbind (updatehash sha (TLeaf 0 ty it)) (\<lambda>(_, n). Inr n))"

definition setitem :: "hash \<Rightarrow> shamaptreenode \<Rightarrow> shamapitem \<Rightarrow> tntype \<Rightarrow> (bool \<times> shamaptreenode) res" where
  "setitem sha n it ty = rassert (isleaf_type ty) (updatehash sha (TLeaf (getnodehash n) ty it))"

fun setchild :: "hash \<Rightarrow> shamaptreenode \<Rightarrow> nat \<Rightarrow> uint256 \<Rightarrow> shamaptreenode option \<Rightarrow> (bool \<times> shamaptreenode) res" where
  "setchild sha (TLeaf h ty it) m ch child = Inl Assertion_failed"
| "setchild sha (TInner h bs) m ch child =
     rassert (m < 16)
       (if fst (bs ! m) = ch then Inr (False, TInner h bs)
        else rassert (if ch \<noteq> 0 then (case child of Some c \<Rightarrow> getnodehash c = ch | None \<Rightarrow> False) else child = None)
               (updatehash sha (TInner h (bs[m := (ch, child)]))))"

section \<open>Nodes as bytes\<close>

definition addraw_node :: "shamaptreenode \<Rightarrow> shanodeformat \<Rightarrow> blob res" where
  "addraw_node n fmt =
     (if gettype n = tnerror then Inl (Runtime_error ''invalid i node type'')
      else case fmt of
        snfhash \<Rightarrow> Inr (snd (add256 [] (getnodehash n)))
      | snfprefix \<Rightarrow>
          (case n of
             TInner h bs \<Rightarrow> rassert (\<not> isempty bs) (Inr (inner_string (map fst bs)))
           | TLeaf h ty it \<Rightarrow> rassert (isleaf_type ty) (Inr (leaf_string ty it)))
      | snfwire \<Rightarrow>
          (case n of
             TInner h bs \<Rightarrow> rassert (\<not> isempty bs)
               (if getbranchcount bs < 12
                then Inr (concat (map (\<lambda>i. if isemptybranch bs i then []
                                           else bits_enc (fst (bs ! i)) @ bits_enc (of_nat i :: byte)) [0..<16])
                          @ bits_enc (3 :: byte))
                else Inr (concat (map (\<lambda>b. bits_enc (fst b)) bs) @ bits_enc (2 :: byte)))
           | TLeaf h ty it \<Rightarrow>
               if ty = tnaccount_state
               then Inr (snd (add8 (snd (add256 (snd (addraw [] (mdata it))) (mtag it))) 1))
               else if ty = tntransaction_nm
               then Inr (snd (add8 (snd (addraw [] (mdata it))) 0))
               else if ty = tntransaction_md
               then Inr (snd (add8 (snd (add256 (snd (addraw [] (mdata it))) (mtag it))) 4))
               else Inl Assertion_failed))"

text \<open>The item of a leaf whose last 32 bytes are the tag\<close>

definition split_tag :: "string \<Rightarrow> blob \<Rightarrow> shamapitem res" where
  "split_tag short s =
     (if length s < 32 then Inl (Runtime_error short)
      else Inr \<lparr>mtag = id_of_bytes (drop (length s - 32) s), mdata = take (length s - 32) s\<rparr>)"

definition nonzero_tag :: "string \<Rightarrow> shamapitem \<Rightarrow> shamapitem res" where
  "nonzero_tag msg it = (if mtag it = 0 then Inl (Runtime_error msg) else Inr it)"

text \<open>
  A node that was read. Its branches have no children yet, and the bit of \<^verbatim>\<open>mIsBranch\<close> is kept beside each
  hash: the compressed form may name a branch twice, and a zero hash that overwrites another one leaves
  the bit set.
\<close>

datatype rawnode =
    RLeaf uint256 tntype shamapitem
  | RInner uint256 "(uint256 \<times> bool) list"

definition full_inner :: "string \<Rightarrow> blob \<Rightarrow> (uint256 \<times> bool) list res" where
  "full_inner msg s =
     (if length s \<noteq> 512 then Inl (Runtime_error msg)
      else Inr (map (\<lambda>i. let h = id_of_bytes (take 32 (drop (i * 32) s)) in (h, h \<noteq> 0)) [0..<16]))"

fun compressed_inner :: "blob \<Rightarrow> nat list \<Rightarrow> (uint256 \<times> bool) list \<Rightarrow> (uint256 \<times> bool) list res" where
  "compressed_inner s [] bs = Inr bs"
| "compressed_inner s (i # is) bs =
     (let pos = unat (s ! (32 + i * 33))
      in if 16 \<le> pos then Inl (Runtime_error ''invalid ci node'')
         else let h = id_of_bytes (take 32 (drop (i * 33) s))
              in compressed_inner s is (bs[pos := (h, snd (bs ! pos) \<or> h \<noteq> 0)]))"

definition node_of_wire :: "hash \<Rightarrow> blob \<Rightarrow> rawnode res" where
  "node_of_wire sha raw =
     rbind (removelastbyte raw) (\<lambda>(type, s).
       if type < 0 \<or> 4 < type then Inl (Runtime_error ''invalid node aw type'')
       else if type = 0 then
         Inr (RLeaf 0 tntransaction_nm \<lparr>mtag = getprefixhash sha prefix_transactionid s, mdata = s\<rparr>)
       else if type = 1 then
         rbind (split_tag ''short as node'' s) (\<lambda>it. rbind (nonzero_tag ''invalid as node'' it) (\<lambda>it.
           Inr (RLeaf 0 tnaccount_state it)))
       else if type = 2 then
         rbind (full_inner ''invalid fi node'' s) (\<lambda>bs. Inr (RInner 0 bs))
       else if type = 3 then
         rbind (compressed_inner s [0..<length s div 33] (replicate 16 (0, False))) (\<lambda>bs. Inr (RInner 0 bs))
       else
         rbind (split_tag ''short tm node'' s) (\<lambda>it. rbind (nonzero_tag ''invalid tm node'' it) (\<lambda>it.
           Inr (RLeaf 0 tntransaction_md it))))"

definition node_of_prefix :: "hash \<Rightarrow> blob \<Rightarrow> rawnode res" where
  "node_of_prefix sha raw =
     (if length raw < 4 then Inl (Runtime_error ''invalid p node'')
      else let prefix = shl_or (shl_or (shl_or (ucast (raw ! 0)) (raw ! 1)) (raw ! 2)) (raw ! 3) :: u32;
               s = drop 4 raw
           in if prefix = prefix_transactionid then
                Inr (RLeaf 0 tntransaction_nm \<lparr>mtag = sha raw, mdata = s\<rparr>)
              else if prefix = prefix_leafnode then
                rbind (split_tag ''short pln node'' s) (\<lambda>it. rbind (nonzero_tag ''invalid pln node'' it) (\<lambda>it.
                  Inr (RLeaf 0 tnaccount_state it)))
              else if prefix = prefix_innernode then
                rbind (full_inner ''invalid pin node'' s) (\<lambda>bs. Inr (RInner 0 bs))
              else if prefix = prefix_txnode then
                rbind (split_tag ''short txn node'' s) (\<lambda>it. Inr (RLeaf 0 tntransaction_md it))
              else Inl (Runtime_error ''invalid node prefix''))"

fun with_hash :: "uint256 \<Rightarrow> rawnode \<Rightarrow> rawnode" where
  "with_hash h (RLeaf _ ty it) = RLeaf h ty it"
| "with_hash h (RInner _ bs) = RInner h bs"

fun raw_hash :: "hash \<Rightarrow> rawnode \<Rightarrow> uint256" where
  "raw_hash sha (RLeaf _ ty it) = leaf_hash sha ty it"
| "raw_hash sha (RInner _ bs) = (if list_all (\<lambda>b. \<not> snd b) bs then 0 else sha (inner_string (map fst bs)))"

definition node_of_raw :: "hash \<Rightarrow> blob \<Rightarrow> shanodeformat \<Rightarrow> uint256 \<Rightarrow> bool \<Rightarrow> rawnode res" where
  "node_of_raw sha raw fmt h hashvalid =
     rbind (case fmt of snfwire \<Rightarrow> node_of_wire sha raw | snfprefix \<Rightarrow> node_of_prefix sha raw
            | snfhash \<Rightarrow> Inl Assertion_failed) (\<lambda>n.
       Inr (with_hash (if hashvalid then h else raw_hash sha n) n))"

end
