(* ===== verification/Sha_Map.thy ===== *)
theory Sha_Map
  imports Sha_Node
begin

text \<open>
  The hash tree, \<^verbatim>\<open>src/ripple/shamap/SHAMap.h\<close> and \<^verbatim>\<open>src/ripple/shamap/impl/SHAMap.cpp\<close>: walking down to an item,
  the first, last, next and previous item, and adding, changing and removing items with the stack of nodes
  from the root. The nodes are in memory: a branch whose node is not there makes \<^verbatim>\<open>descendThrow\<close> throw, as it
  does when the node store has not got it either.
\<close>

section \<open>Walking the tree\<close>

datatype shamapstate = smsmodifying | smsimmutable | smssynching | smsfloating | smsinvalid

record shamap =
  root :: shamaptreenode
  mstate :: shamapstate

definition shamap_new :: shamap where
  "shamap_new = \<lparr>root = makeinner, mstate = smsmodifying\<rparr>"

definition gethash :: "shamap \<Rightarrow> uint256" where
  "gethash m = getnodehash (root m)"

text \<open>The result is a pointer that is null for an empty branch.\<close>

definition descendthrow :: "shamaptreenode \<Rightarrow> nat \<Rightarrow> shamaptreenode option res" where
  "descendthrow parent b =
     (if b < length (node_branches parent)
      then (case snd (node_branches parent ! b) of
              Some c \<Rightarrow> Inr (Some c)
            | None \<Rightarrow> if isemptybranch (node_branches parent) b then Inr None
                      else Inl (Runtime_error ''missing node''))
      else Inl Undefined_behaviour)"

lemma size_branch:
  assumes "b < length bs" "snd (bs ! b) = Some c"
  shows "size c < size (TInner h bs)"
proof -
  have "(fst (bs ! b), Some c) \<in> set bs" using assms nth_mem [of b bs] by (metis prod.collapse)
  then have "size_prod (\<lambda>_. 0) (size_option size) (fst (bs ! b), Some c)
      \<le> size_list (size_prod (\<lambda>_. 0) (size_option size)) bs"
    by (rule size_list_estimation') simp
  then show ?thesis by simp
qed

lemma descendthrow_size [termination_simp]:
  "descendthrow n b = Inr (Some c) \<Longrightarrow> size c < size n"
  using size_branch by (cases n) (auto simp: descendthrow_def split: if_splits option.splits)

type_synonym stack = "(shamaptreenode \<times> shamapnodeid) list"

text \<open>The nodes from the root towards an identifier, the last one on top\<close>

function getstack_loop :: "bool \<Rightarrow> uint256 \<Rightarrow> shamaptreenode \<Rightarrow> shamapnodeid \<Rightarrow> stack \<Rightarrow> stack res" where
  "getstack_loop nonmatching key (TLeaf h ty it) nodeid stack =
     Inr (if nonmatching \<or> mtag it = key then (TLeaf h ty it, nodeid) # stack else stack)"
| "getstack_loop nonmatching key (TInner h bs) nodeid stack =
     (let stack = (TInner h bs, nodeid) # stack in
      rbind (selectbranch nodeid key) (\<lambda>branch.
        if isemptybranch bs branch then Inr stack
        else rbind (descendthrow (TInner h bs) branch) (\<lambda>p.
             case p of None \<Rightarrow> Inl Undefined_behaviour
             | Some node \<Rightarrow>
                 rbind (getchildnodeid nodeid branch) (\<lambda>nodeid. getstack_loop nonmatching key node nodeid stack))))"
  by pat_completeness auto
termination
  by (relation "measure (\<lambda>(_, _, n, _, _). size n)") (auto dest: descendthrow_size)

definition getstack :: "shamap \<Rightarrow> uint256 \<Rightarrow> bool \<Rightarrow> stack res" where
  "getstack m key nonmatching = getstack_loop nonmatching key (root m) root_id []"

function walk_loop :: "uint256 \<Rightarrow> shamaptreenode \<Rightarrow> shamapnodeid \<Rightarrow> shamaptreenode option res" where
  "walk_loop key (TLeaf h ty it) nodeid = Inr (if mtag it = key then Some (TLeaf h ty it) else None)"
| "walk_loop key (TInner h bs) nodeid =
     rbind (selectbranch nodeid key) (\<lambda>branch.
       if isemptybranch bs branch then Inr None
       else rbind (descendthrow (TInner h bs) branch) (\<lambda>p.
            case p of None \<Rightarrow> Inl Undefined_behaviour
            | Some node \<Rightarrow> rbind (getchildnodeid nodeid branch) (\<lambda>nodeid. walk_loop key node nodeid)))"
  by pat_completeness auto
termination
  by (relation "measure (\<lambda>(_, n, _). size n)") (auto dest: descendthrow_size)

definition walktopointer :: "shamap \<Rightarrow> uint256 \<Rightarrow> shamaptreenode option res" where
  "walktopointer m key = walk_loop key (root m) root_id"

definition peekitem :: "shamap \<Rightarrow> uint256 \<Rightarrow> shamapitem option res" where
  "peekitem m key =
     rbind (walktopointer m key) (\<lambda>leaf. Inr (case leaf of None \<Rightarrow> None | Some n \<Rightarrow> peekitem_node n))"

definition peekitem_hash :: "shamap \<Rightarrow> uint256 \<Rightarrow> (shamapitem option \<times> uint256) option res" where
  "peekitem_hash m key =
     rbind (walktopointer m key) (\<lambda>leaf.
       Inr (case leaf of None \<Rightarrow> None | Some n \<Rightarrow> Some (peekitem_node n, getnodehash n)))"

definition hasitem :: "shamap \<Rightarrow> uint256 \<Rightarrow> bool res" where
  "hasitem m key = rbind (walktopointer m key) (\<lambda>leaf. Inr (leaf \<noteq> None))"

section \<open>Items in order\<close>

definition first_branch :: "branches \<Rightarrow> nat list \<Rightarrow> nat option" where
  "first_branch bs is = find (\<lambda>i. \<not> isemptybranch bs i) is"

text \<open>\<^verbatim>\<open>firstBelow\<close> scans the branches upwards, \<^verbatim>\<open>lastBelow\<close> downwards.\<close>

function below :: "nat list \<Rightarrow> shamaptreenode \<Rightarrow> shamaptreenode option res" where
  "below order (TLeaf h ty it) = Inr (Some (TLeaf h ty it))"
| "below order (TInner h bs) =
     (case first_branch bs order of
        None \<Rightarrow> Inr None
      | Some i \<Rightarrow> rbind (descendthrow (TInner h bs) i) (\<lambda>p.
          case p of None \<Rightarrow> Inl Undefined_behaviour | Some node \<Rightarrow> below order node))"
  by pat_completeness auto
termination
  by (relation "measure (\<lambda>(_, n). size n)") (auto dest: descendthrow_size)

definition firstbelow :: "shamaptreenode \<Rightarrow> shamaptreenode option res" where
  "firstbelow = below [0..<16]"

definition lastbelow :: "shamaptreenode \<Rightarrow> shamaptreenode option res" where
  "lastbelow = below (rev [0..<16])"

text \<open>The item below a node if it is the only one\<close>

function onlybelow :: "shamaptreenode \<Rightarrow> shamapitem option res" where
  "onlybelow (TLeaf h ty it) = Inr (Some it)"
| "onlybelow (TInner h bs) =
     (case filter (\<lambda>i. \<not> isemptybranch bs i) [0..<16] of
        [] \<Rightarrow> Inl Assertion_failed
      | i # js \<Rightarrow> rbind (descendthrow (TInner h bs) i) (\<lambda>p.
          if js \<noteq> [] then Inr None
          else case p of None \<Rightarrow> Inl Undefined_behaviour | Some node \<Rightarrow> onlybelow node))"
  by pat_completeness auto
termination
  by (relation "measure size") (auto dest: descendthrow_size)

definition item_of :: "shamaptreenode option \<Rightarrow> shamapitem option" where
  "item_of p = (case p of None \<Rightarrow> None | Some n \<Rightarrow> peekitem_node n)"

definition peekfirstitem :: "shamap \<Rightarrow> shamapitem option res" where
  "peekfirstitem m = rbind (firstbelow (root m)) (\<lambda>p. Inr (item_of p))"

definition peeklastitem :: "shamap \<Rightarrow> shamapitem option res" where
  "peeklastitem m = rbind (lastbelow (root m)) (\<lambda>p. Inr (item_of p))"

fun next_loop :: "uint256 \<Rightarrow> stack \<Rightarrow> shamapitem option res" where
  "next_loop key [] = Inr None"
| "next_loop key ((TLeaf h ty it, nodeid) # stack) =
     (if mtag it > key then Inr (Some it) else next_loop key stack)"
| "next_loop key ((TInner h bs, nodeid) # stack) =
     rbind (selectbranch nodeid key) (\<lambda>b.
       case first_branch bs [b + 1..<16] of
         None \<Rightarrow> next_loop key stack
       | Some i \<Rightarrow>
           rbind (descendthrow (TInner h bs) i) (\<lambda>p. rbind (deref p) (\<lambda>c.
           rbind (firstbelow c) (\<lambda>q.
             case q of
               Some (TLeaf h ty it) \<Rightarrow> Inr (Some it)
             | _ \<Rightarrow> Inl (Runtime_error ''missing/corrupt node'')))))"

definition peeknextitem :: "shamap \<Rightarrow> uint256 \<Rightarrow> shamapitem option res" where
  "peeknextitem m key = rbind (getstack m key True) (next_loop key)"

fun prev_loop :: "uint256 \<Rightarrow> stack \<Rightarrow> shamapitem option res" where
  "prev_loop key [] = Inr None"
| "prev_loop key ((TLeaf h ty it, nodeid) # stack) =
     (if mtag it < key then Inr (Some it) else prev_loop key stack)"
| "prev_loop key ((TInner h bs, nodeid) # stack) =
     rbind (selectbranch nodeid key) (\<lambda>b.
       case first_branch bs (rev [0..<b]) of
         None \<Rightarrow> prev_loop key stack
       | Some i \<Rightarrow>
           rbind (descendthrow (TInner h bs) i) (\<lambda>p. rbind (deref p) (\<lambda>c.
           rbind (lastbelow c) (\<lambda>q. rbind (deref q) (\<lambda>n. Inr (peekitem_node n))))))"

definition peekprevitem :: "shamap \<Rightarrow> uint256 \<Rightarrow> shamapitem option res" where
  "peekprevitem m key = rbind (getstack m key True) (prev_loop key)"

section \<open>Changing the tree\<close>

text \<open>
  \<^verbatim>\<open>dirtyUp\<close> walks up from a changed child to the root, in a map that is neither being synchronised nor immutable.
\<close>

fun dirtyup_loop :: "hash \<Rightarrow> uint256 \<Rightarrow> stack \<Rightarrow> shamaptreenode \<Rightarrow> shamaptreenode res" where
  "dirtyup_loop sha target [] child = Inr child"
| "dirtyup_loop sha target ((node, nodeid) # stack) child =
     rassert (isinner node)
       (rbind (selectbranch nodeid target) (\<lambda>branch.
        rbind (setchild sha node branch (getnodehash child) (Some child)) (\<lambda>(changed, node).
          rassert changed (dirtyup_loop sha target stack node))))"

definition dirtyup :: "hash \<Rightarrow> shamapstate \<Rightarrow> uint256 \<Rightarrow> stack \<Rightarrow> shamaptreenode \<Rightarrow> shamaptreenode res" where
  "dirtyup sha state target stack child =
     rassert (state \<noteq> smssynching \<and> state \<noteq> smsimmutable) (dirtyup_loop sha target stack child)"

definition leaf_type :: "bool \<Rightarrow> bool \<Rightarrow> tntype" where
  "leaf_type istransaction hasmeta =
     (if \<not> istransaction then tnaccount_state else if hasmeta then tntransaction_md else tntransaction_nm)"

definition put_leaf :: "hash \<Rightarrow> shamaptreenode \<Rightarrow> nat \<Rightarrow> shamapitem \<Rightarrow> tntype \<Rightarrow> shamaptreenode res" where
  "put_leaf sha node branch it type =
     rbind (mk_leaf sha it type) (\<lambda>newnode.
     rbind (setchild sha node branch (getnodehash newnode) (Some newnode)) (\<lambda>(changed, node).
       rassert changed (Inr node)))"

text \<open>New inner nodes are stacked while both tags select the same branch.\<close>

lemma selectbranch_depth: "selectbranch n h = Inr b \<Longrightarrow> mdepth n < 64"
  by (auto simp: selectbranch_def split: if_splits)

lemma getchildnodeid_depth: "getchildnodeid n m = Inr n' \<Longrightarrow> mdepth n' = mdepth n + 1"
  by (auto simp: getchildnodeid_def rassert_def Let_def split: if_splits)

function split_loop :: "uint256 \<Rightarrow> uint256 \<Rightarrow> shamaptreenode \<Rightarrow> shamapnodeid \<Rightarrow> stack
    \<Rightarrow> (nat \<times> nat \<times> shamaptreenode \<times> stack) res" where
  "split_loop tag other node nodeid stack =
     rbind (selectbranch nodeid tag) (\<lambda>b1. rbind (selectbranch nodeid other) (\<lambda>b2.
       if b1 = b2
       then rbind (getchildnodeid nodeid b1) (\<lambda>nodeid1.
              split_loop tag other makeinner nodeid1 ((node, nodeid) # stack))
       else Inr (b1, b2, node, stack)))"
  by pat_completeness auto
termination
  by (relation "measure (\<lambda>(_, _, _, nid, _). 64 - mdepth nid)")
     (auto dest!: selectbranch_depth getchildnodeid_depth)

declare split_loop.simps [simp del]

text \<open>A leaf with another tag becomes an inner node with two items below it.\<close>

definition split_leaf :: "hash \<Rightarrow> shamapstate \<Rightarrow> tntype \<Rightarrow> shamapitem \<Rightarrow> shamapitem \<Rightarrow> shamapnodeid \<Rightarrow> stack
    \<Rightarrow> shamaptreenode option res" where
  "split_leaf sha state type it otheritem nodeid stack =
     rbind (split_loop (mtag it) (mtag otheritem) makeinner nodeid stack) (\<lambda>(b1, b2, node, stack).
     rbind (put_leaf sha node b1 it type) (\<lambda>node.
     rbind (put_leaf sha node b2 otheritem type) (\<lambda>node.
     rbind (dirtyup sha state (mtag it) stack node) (\<lambda>r. Inr (Some r)))))"

text \<open>
  The rest of \<^verbatim>\<open>addGiveItem\<close>, \<^verbatim>\<open>updateGiveItem\<close> and \<^verbatim>\<open>delItem\<close> once the stack is known: the new root, or nothing
  when the tree stays as it is.
\<close>

fun add_stack :: "hash \<Rightarrow> shamapstate \<Rightarrow> tntype \<Rightarrow> shamapitem \<Rightarrow> stack \<Rightarrow> shamaptreenode option res" where
  "add_stack sha state type it [] = Inl (Runtime_error ''missing node'')"
| "add_stack sha state type it ((TInner h bs, nodeid) # stack) =
     rbind (selectbranch nodeid (mtag it)) (\<lambda>branch.
     rassert (isemptybranch bs branch)
       (rbind (put_leaf sha (TInner h bs) branch it type) (\<lambda>node.
        rbind (dirtyup sha state (mtag it) stack node) (\<lambda>r. Inr (Some r)))))"
| "add_stack sha state type it ((TLeaf h ty otheritem, nodeid) # stack) =
     (if mtag otheritem = mtag it then Inr None
      else split_leaf sha state type it otheritem nodeid stack)"

definition addgiveitem :: "hash \<Rightarrow> shamap \<Rightarrow> shamapitem \<Rightarrow> bool \<Rightarrow> bool \<Rightarrow> (bool \<times> shamap) res" where
  "addgiveitem sha m it istransaction hasmeta =
     rassert (mstate m \<noteq> smsimmutable)
       (rbind (getstack m (mtag it) True) (\<lambda>stack.
        rbind (add_stack sha (mstate m) (leaf_type istransaction hasmeta) it stack) (\<lambda>r.
          Inr (case r of None \<Rightarrow> (False, m) | Some n \<Rightarrow> (True, m\<lparr>root := n\<rparr>)))))"

fun upd_stack :: "hash \<Rightarrow> shamapstate \<Rightarrow> tntype \<Rightarrow> shamapitem \<Rightarrow> stack \<Rightarrow> shamaptreenode option res" where
  "upd_stack sha state type it [] = Inl (Runtime_error ''missing node'')"
| "upd_stack sha state type it ((TInner h bs, nodeid) # stack) = Inl Assertion_failed"
| "upd_stack sha state type it ((TLeaf h ty old, nodeid) # stack) =
     (if mtag old \<noteq> mtag it then Inl Assertion_failed
      else rbind (setitem sha (TLeaf h ty old) it type) (\<lambda>(changed, node).
             if \<not> changed then Inr None
             else rbind (dirtyup sha state (mtag it) stack node) (\<lambda>r. Inr (Some r))))"

definition updategiveitem :: "hash \<Rightarrow> shamap \<Rightarrow> shamapitem \<Rightarrow> bool \<Rightarrow> bool \<Rightarrow> (bool \<times> shamap) res" where
  "updategiveitem sha m it istransaction hasmeta =
     rassert (mstate m \<noteq> smsimmutable)
       (rbind (getstack m (mtag it) True) (\<lambda>stack.
        rbind (upd_stack sha (mstate m) (leaf_type istransaction hasmeta) it stack) (\<lambda>r.
          Inr (True, case r of None \<Rightarrow> m | Some n \<Rightarrow> m\<lparr>root := n\<rparr>))))"

definition opt_hash :: "shamaptreenode option \<Rightarrow> uint256" where
  "opt_hash p = (case p of None \<Rightarrow> 0 | Some n \<Rightarrow> getnodehash n)"

text \<open>An inner node with one item below it becomes a leaf with that item.\<close>

definition pull_up :: "hash \<Rightarrow> tntype \<Rightarrow> shamaptreenode \<Rightarrow> shamaptreenode res" where
  "pull_up sha type node =
     rbind (onlybelow node) (\<lambda>item.
       case item of
         None \<Rightarrow> Inr node
       | Some it \<Rightarrow>
           rbind (deref (first_branch (node_branches node) [0..<16])) (\<lambda>i.
           rbind (setchild sha node i 0 None) (\<lambda>(changed, node).
             rassert changed
               (rbind (setitem sha node it type) (\<lambda>(_, node). Inr node)))))"

text \<open>What an inner node that is not the root is replaced by after one of its branches was removed or changed\<close>

definition collapse :: "hash \<Rightarrow> tntype \<Rightarrow> shamaptreenode \<Rightarrow> shamaptreenode option res" where
  "collapse sha type node =
     (let bc = getbranchcount (node_branches node) in
      if bc = 0 then Inr None
      else rbind (if bc = 1 then pull_up sha type node else Inr node) (\<lambda>node.
             rassert (getnodehash node \<noteq> 0) (Inr (Some node))))"

text \<open>The new root, or nothing when no inner node was on the stack\<close>

fun del_loop :: "hash \<Rightarrow> uint256 \<Rightarrow> tntype \<Rightarrow> stack \<Rightarrow> shamaptreenode option \<Rightarrow> shamaptreenode option res" where
  "del_loop sha key type [] prevnode = Inr None"
| "del_loop sha key type ((node, nodeid) # stack) prevnode =
     rassert (isinner node)
       (rbind (selectbranch nodeid key) (\<lambda>branch.
        rbind (setchild sha node branch (opt_hash prevnode) prevnode) (\<lambda>(changed, node).
          rassert changed
            (if isroot nodeid then Inr (Some node)
             else rbind (collapse sha type node) (\<lambda>prevnode. del_loop sha key type stack prevnode)))))"

fun del_stack :: "hash \<Rightarrow> uint256 \<Rightarrow> stack \<Rightarrow> (bool \<times> shamaptreenode option) res" where
  "del_stack sha key [] = Inl (Runtime_error ''missing node'')"
| "del_stack sha key ((TInner h bs, nodeid) # stack) = Inr (False, None)"
| "del_stack sha key ((TLeaf h type it, nodeid) # stack) =
     (if mtag it \<noteq> key then Inr (False, None)
      else rbind (del_loop sha key type stack None) (\<lambda>r. Inr (True, r)))"

definition delitem :: "hash \<Rightarrow> shamap \<Rightarrow> uint256 \<Rightarrow> (bool \<times> shamap) res" where
  "delitem sha m key =
     rassert (mstate m \<noteq> smsimmutable)
       (rbind (getstack m key True) (\<lambda>stack.
        rbind (del_stack sha key stack) (\<lambda>(found, r).
          Inr (found, case r of None \<Rightarrow> m | Some n \<Rightarrow> m\<lparr>root := n\<rparr>))))"

end
