(* ===== verification/Sha_Tree.thy ===== *)
theory Sha_Tree
  imports Sha_Map
begin

text \<open>
  What a hash tree holds and when it is well formed, and the operations as recursive functions on the tree.
\<close>

section \<open>Keys as strings of sixteen-way branches\<close>

definition nib :: "nat \<Rightarrow> uint256 \<Rightarrow> nat" where
  "nib d k = unat k div 16 ^ (63 - d) mod 16"

definition pre :: "nat \<Rightarrow> uint256 \<Rightarrow> nat" where
  "pre d k = unat k div 16 ^ (64 - d)"

lemma be_bytes_nth: "i < n \<Longrightarrow> be_bytes n v ! i = of_nat (v div 256 ^ (n - 1 - i))"
  by (induction n arbitrary: i) (auto simp: nth_Cons split: nat.splits)

lemma nib_less [simp]: "nib d k < 16"
  by (simp add: nib_def)

lemma unat_256_less: "unat (k :: uint256) < 16 ^ 64"
proof -
  have "unat k < 2 ^ LENGTH(256)" by (rule unsigned_less)
  then show ?thesis by simp
qed

lemma pre_0 [simp]: "pre 0 k = 0"
  using unat_256_less [of k] by (simp add: pre_def)

lemma pre_64 [simp]: "pre 64 k = unat k"
  by (simp add: pre_def)

lemma pre_Suc:
  assumes "d < 64"
  shows "pre (Suc d) k = 16 * pre d k + nib d k"
proof -
  have "64 - d = Suc (63 - d)" "64 - Suc d = 63 - d" using assms by simp_all
  then have "pre d k = unat k div 16 ^ (63 - d) div 16"
    by (simp add: pre_def div_mult2_eq [symmetric] mult.commute)
  then show ?thesis
    by (simp add: pre_def nib_def \<open>64 - Suc d = 63 - d\<close>)
qed

lemma pre_mono: "k \<le> l \<Longrightarrow> pre d k \<le> pre d l"
  by (simp add: pre_def div_le_mono word_le_nat_alt)

lemma pre_less: "pre d k < pre d l \<Longrightarrow> k < l"
  using pre_mono [of l k d] by (metis not_le)

lemma digit_split:
  assumes "16 * a + n = 16 * p + i" "n < 16" "i < (16 :: nat)"
  shows "a = p \<and> n = i"
proof -
  have "a = p" using arg_cong [OF assms(1), of "\<lambda>x. x div 16"] assms(2,3) by simp
  then show ?thesis using assms(1) by simp
qed

lemma pre_eq_down:
  assumes "pre (Suc d) k = pre (Suc d) l" "d < 64"
  shows "pre d k = pre d l \<and> nib d k = nib d l"
  using assms(1) digit_split [OF _ nib_less nib_less] unfolding pre_Suc [OF assms(2)] by blast

lemma pre_eq_less: "pre (Suc d) k < pre (Suc d) l \<longleftrightarrow> nib d k < nib d l" if "pre d k = pre d l" "d < 64"
  using that by (simp add: pre_Suc)

lemma selectbranch_nib:
  "selectbranch n h = (if mdepth n < 64 then Inr (nib (mdepth n) h) else Inl Undefined_behaviour)"
proof (cases "mdepth n < 64")
  case True
  then obtain i where i: "mdepth n div 2 = i" "i < 32" by simp
  have b: "unat (id_bytes256 h ! i) = unat h div 256 ^ (31 - i) mod 256"
    using i by (simp add: id_bytes256_def be_bytes_nth unsigned_of_nat take_bit_eq_mod)
  have p: "(256 :: nat) ^ (31 - i) = 16 ^ (2 * (31 - i))" by (simp add: power_mult)
  have m: "unat h div 16 ^ (2 * (31 - i)) mod 256 mod 16 = unat h div 16 ^ (2 * (31 - i)) mod 16"
    by (simp add: mod_mod_cancel)
  have q: "unat h div 16 ^ (2 * (31 - i)) mod 256 div 16 = unat h div 16 ^ Suc (2 * (31 - i)) mod 16"
    using mod_mult2_eq [of "unat h div 16 ^ (2 * (31 - i))" 16 16]
    by (simp add: div_mult2_eq [symmetric] mult.commute)
  show ?thesis
  proof (cases "odd (mdepth n)")
    case True
    then have "63 - mdepth n = 2 * (31 - i)" using i by (auto elim!: oddE)
    then show ?thesis using True i b p m \<open>mdepth n < 64\<close> by (simp add: selectbranch_def nib_def)
  next
    case False
    then have "63 - mdepth n = Suc (2 * (31 - i))" using i by (auto elim!: evenE)
    then show ?thesis using False i b p q \<open>mdepth n < 64\<close> by (simp add: selectbranch_def nib_def)
  qed
next
  case False
  then have "\<not> mdepth n div 2 < 32" by linarith
  then show ?thesis using False by (simp add: selectbranch_def)
qed

lemma getchildnodeid_ok:
  "mdepth n < 64 \<Longrightarrow> m < 16 \<Longrightarrow> \<exists>n'. getchildnodeid n m = Inr n' \<and> mdepth n' = Suc (mdepth n)"
  by (simp add: getchildnodeid_def Let_def)

lemma pre_inject: "pre 64 k = pre 64 l \<Longrightarrow> k = l"
  by (simp add: unsigned_word_eqI)

section \<open>What a tree holds\<close>

fun items :: "shamaptreenode \<Rightarrow> shamapitem set" where
  "items (TLeaf h ty it) = {it}"
| "items (TInner h bs) = (\<Union>b\<in>set bs. case snd b of None \<Rightarrow> {} | Some c \<Rightarrow> items c)"

definition branch_items :: "uint256 \<times> shamaptreenode option \<Rightarrow> shamapitem set" where
  "branch_items b = (case snd b of None \<Rightarrow> {} | Some c \<Rightarrow> items c)"

definition bitems :: "branches \<Rightarrow> shamapitem set" where
  "bitems bs = (\<Union>b\<in>set bs. branch_items b)"

lemma items_inner [simp]: "items (TInner h bs) = bitems bs"
  by (simp add: bitems_def branch_items_def)

declare items.simps(2) [simp del]

lemma branch_items_simps [simp]: "branch_items (h, None) = {}" "branch_items (h, Some c) = items c"
  by (simp_all add: branch_items_def)

lemma finite_items: "finite (items t)"
proof (induction t)
  case (TInner h bs)
  then show ?case
    by (auto simp: bitems_def branch_items_def split: option.splits)
qed simp

lemma finite_bitems: "finite (bitems bs)"
  using finite_items [of "TInner 0 bs"] by simp

text \<open>An item that may stand in a map: a transaction without metadata is stored under its hash.\<close>

definition item_ok :: "hash \<Rightarrow> tntype \<Rightarrow> shamapitem \<Rightarrow> bool" where
  "item_ok sha T it \<longleftrightarrow> 12 \<le> length (mdata it) \<and> (T = tntransaction_nm \<longrightarrow> mtag it = leaf_hash sha T it)"

text \<open>
  A node of a map of type \<open>T\<close> at depth \<open>d\<close>: every tag below it begins with the branches that lead to it (the
  number \<open>p\<close>), there are at least two items below an inner node, and the hashes are up to date and not zero:
  a zero hash is how a branch says that it is empty.
\<close>

inductive wf_node :: "hash \<Rightarrow> tntype \<Rightarrow> nat \<Rightarrow> nat \<Rightarrow> shamaptreenode \<Rightarrow> bool" for sha T where
  wf_leaf: "d \<le> 64 \<Longrightarrow> pre d (mtag it) = p \<Longrightarrow> item_ok sha T it \<Longrightarrow> leaf_hash sha T it \<noteq> 0 \<Longrightarrow>
    wf_node sha T d p (TLeaf (leaf_hash sha T it) T it)"
| wf_inner: "d < 64 \<Longrightarrow> length bs = 16 \<Longrightarrow> 2 \<le> card (bitems bs) \<Longrightarrow> h = inner_hash sha bs \<Longrightarrow> h \<noteq> 0 \<Longrightarrow>
    (\<And>i. i < 16 \<Longrightarrow> snd (bs ! i) = None \<Longrightarrow> fst (bs ! i) = 0) \<Longrightarrow>
    (\<And>i c. i < 16 \<Longrightarrow> snd (bs ! i) = Some c \<Longrightarrow> fst (bs ! i) = getnodehash c \<and> wf_node sha T (Suc d) (16 * p + i) c) \<Longrightarrow>
    wf_node sha T d p (TInner h bs)"

definition wf_branch :: "hash \<Rightarrow> tntype \<Rightarrow> nat \<Rightarrow> nat \<Rightarrow> uint256 \<times> shamaptreenode option \<Rightarrow> bool" where
  "wf_branch sha T d p b \<longleftrightarrow>
     (case snd b of None \<Rightarrow> fst b = 0 | Some c \<Rightarrow> fst b = getnodehash c \<and> wf_node sha T d p c)"

definition wf_branches :: "hash \<Rightarrow> tntype \<Rightarrow> nat \<Rightarrow> nat \<Rightarrow> branches \<Rightarrow> bool" where
  "wf_branches sha T d p bs \<longleftrightarrow>
     d < 64 \<and> length bs = 16 \<and> (\<forall>i<16. wf_branch sha T (Suc d) (16 * p + i) (bs ! i))"

inductive_simps wf_node_leaf: "wf_node sha T d p (TLeaf h ty it)"
inductive_cases wf_node_innerE: "wf_node sha T d p (TInner h bs)"

lemma wf_node_inner:
  "wf_node sha T d p (TInner h bs) \<longleftrightarrow>
     wf_branches sha T d p bs \<and> h = inner_hash sha bs \<and> h \<noteq> 0 \<and> 2 \<le> card (bitems bs)"
  unfolding wf_branches_def wf_branch_def
  by (auto elim!: wf_node_innerE intro!: wf_inner split: option.splits)

lemma wf_branch_simps [simp]:
  "wf_branch sha T d p (h, None) \<longleftrightarrow> h = 0"
  "wf_branch sha T d p (h, Some c) \<longleftrightarrow> h = getnodehash c \<and> wf_node sha T d p c"
  by (simp_all add: wf_branch_def)

lemma wf_branchesD:
  assumes "wf_branches sha T d p bs"
  shows "d < 64" "length bs = 16" "i < 16 \<Longrightarrow> wf_branch sha T (Suc d) (16 * p + i) (bs ! i)"
  using assms by (simp_all add: wf_branches_def)

lemma branch_cases:
  assumes "wf_branch sha T d p b"
  obtains (empty) "b = (0, None)" | (child) c where "b = (getnodehash c, Some c)" "wf_node sha T d p c"
  using assms by (cases b; cases "snd b") auto

text \<open>The root need not have two items below it.\<close>

definition wf_root :: "hash \<Rightarrow> tntype \<Rightarrow> shamaptreenode \<Rightarrow> bool" where
  "wf_root sha T t \<longleftrightarrow> (case t of TLeaf _ _ _ \<Rightarrow> False
     | TInner h bs \<Rightarrow> wf_branches sha T 0 0 bs \<and> h = inner_hash sha bs)"

lemma wf_items:
  "wf_node sha T d p t \<Longrightarrow> it \<in> items t \<Longrightarrow> pre d (mtag it) = p \<and> item_ok sha T it"
proof (induction rule: wf_node.induct)
  case (wf_inner d bs h p)
  then obtain i c where "i < 16" "snd (bs ! i) = Some c" "it \<in> items c"
    by (auto simp: bitems_def in_set_conv_nth branch_items_def split: option.splits)
  then have "pre (Suc d) (mtag it) = 16 * p + i \<and> item_ok sha T it" using wf_inner by blast
  then show ?case using digit_split [OF _ nib_less \<open>i < 16\<close>] \<open>d < 64\<close> by (auto simp: pre_Suc)
qed simp

lemma wf_nonempty: "wf_node sha T d p t \<Longrightarrow> items t \<noteq> {}"
  by (cases t) (simp, auto simp: wf_node_inner)

lemma branch_of_item:
  assumes "wf_branches sha T d p bs" "i < 16" "it \<in> branch_items (bs ! i)"
  shows "pre d (mtag it) = p \<and> nib d (mtag it) = i \<and> item_ok sha T it"
proof -
  have "pre (Suc d) (mtag it) = 16 * p + i \<and> item_ok sha T it"
    using wf_branchesD(3) [OF assms(1,2)] assms(3) by (cases rule: branch_cases) (auto dest: wf_items)
  moreover have "d < 64" using assms(1) by (simp add: wf_branches_def)
  ultimately show ?thesis
    using digit_split [OF _ nib_less assms(2), of "pre d (mtag it)" d "mtag it" p] by (simp add: pre_Suc)
qed

lemma bitems_nth: "length bs = 16 \<Longrightarrow> bitems bs = (\<Union>i<16. branch_items (bs ! i))"
  by (auto simp: bitems_def set_conv_nth)

lemma wf_inner_not_single: "wf_node sha T d p (TInner h bs) \<Longrightarrow> bitems bs \<noteq> {it}"
  unfolding wf_node_inner by (metis Suc_1 card_1_singleton_iff not_less_eq_eq order_refl One_nat_def)

lemma branch_items_nib:
  assumes "wf_branches sha T d p bs" "i < 16"
  shows "branch_items (bs ! i) = {it \<in> bitems bs. nib d (mtag it) = i}"
proof -
  have "it \<in> branch_items (bs ! i)" if "it \<in> branch_items (bs ! j)" "j < 16" "nib d (mtag it) = i" for it j
    using branch_of_item [OF assms(1) that(2,1)] that by simp
  then show ?thesis
    unfolding bitems_nth [OF wf_branchesD(2) [OF assms(1)]] using branch_of_item [OF assms] assms(2) by blast
qed

lemma branch_subset: "wf_branches sha T d p bs \<Longrightarrow> i < 16 \<Longrightarrow> branch_items (bs ! i) \<subseteq> bitems bs"
  by (auto simp: branch_items_nib)

lemma branch_items_empty: "wf_branch sha T d p b \<Longrightarrow> branch_items b = {} \<longleftrightarrow> b = (0, None)"
  by (cases rule: branch_cases) (auto dest: wf_nonempty)

lemma branches_tags:
  assumes b: "wf_branches sha T d p bs"
    and child: "\<And>i c. i < 16 \<Longrightarrow> snd (bs ! i) = Some c \<Longrightarrow> wf_node sha T (Suc d) (16 * p + i) c \<Longrightarrow> inj_on mtag (items c)"
  shows "inj_on mtag (bitems bs)"
proof (rule inj_onI)
  fix x y
  assume xy: "x \<in> bitems bs" "y \<in> bitems bs" "mtag x = mtag y"
  let ?i = "nib d (mtag x)"
  have in_i: "x \<in> branch_items (bs ! ?i)" "y \<in> branch_items (bs ! ?i)"
    using xy branch_items_nib [OF b nib_less, of d "mtag x"] by auto
  from wf_branchesD(3) [OF b nib_less, of d "mtag x"] show "x = y"
  proof (cases rule: branch_cases)
    case empty
    then show ?thesis using in_i by simp
  next
    case (child c)
    then show ?thesis using in_i xy(3) assms(2) [OF nib_less, of d "mtag x" c] by (auto dest: inj_onD)
  qed
qed

lemma wf_tags: "wf_node sha T d p t \<Longrightarrow> inj_on mtag (items t)"
proof (induction rule: wf_node.induct)
  case (wf_inner d bs h p)
  then have "wf_branches sha T d p bs" by (auto simp: wf_branches_def wf_branch_def split: option.split)
  then show ?case using branches_tags wf_inner.IH by simp
qed simp

text \<open>The tree is determined by its items.\<close>

lemma branches_unique:
  assumes b: "wf_branches sha T d p bs" "wf_branches sha T d p bs'"
    and same: "bitems bs = bitems bs'"
    and child: "\<And>i c c'. i < 16 \<Longrightarrow> snd (bs ! i) = Some c \<Longrightarrow> wf_node sha T (Suc d) (16 * p + i) c \<Longrightarrow>
      wf_node sha T (Suc d) (16 * p + i) c' \<Longrightarrow> items c = items c' \<Longrightarrow> c = c'"
  shows "bs = bs'"
proof (rule nth_equalityI)
  show "length bs = length bs'" using b by (simp add: wf_branches_def)
next
  fix i
  assume "i < length bs"
  then have i: "i < 16" using b by (simp add: wf_branches_def)
  have eq: "branch_items (bs ! i) = branch_items (bs' ! i)"
    unfolding branch_items_nib [OF b(1) i] branch_items_nib [OF b(2) i] same ..
  show "bs ! i = bs' ! i" using wf_branchesD(3) [OF b(1) i]
  proof (cases rule: branch_cases)
    case empty
    then show ?thesis using eq branch_items_empty [OF wf_branchesD(3) [OF b(2) i]] by simp
  next
    case (child c)
    then have "bs' ! i \<noteq> (0, None)" using eq wf_nonempty by force
    with wf_branchesD(3) [OF b(2) i] obtain c' where
      "bs' ! i = (getnodehash c', Some c')" "wf_node sha T (Suc d) (16 * p + i) c'"
      by (cases rule: branch_cases) auto
    then show ?thesis using assms(4) [OF i, of c c'] child eq by simp
  qed
qed

lemma wf_node_unique:
  "wf_node sha T d p t \<Longrightarrow> wf_node sha T d p t' \<Longrightarrow> items t = items t' \<Longrightarrow> t = t'"
proof (induction t arbitrary: d p t')
  case (TLeaf h ty it)
  then show ?case
    using wf_inner_not_single [of sha T d p _ _ it] by (cases t') (auto simp: wf_node_leaf)
next
  case (TInner h bs)
  then obtain h' bs' where t': "t' = TInner h' bs'"
    using wf_inner_not_single [of sha T d p h bs] by (cases t') (auto)
  have b: "wf_branches sha T d p bs" "wf_branches sha T d p bs'"
    and h: "h = inner_hash sha bs" "h' = inner_hash sha bs'"
    using TInner.prems by (simp_all add: t' wf_node_inner)
  have "bs = bs'"
  proof (rule branches_unique [OF b])
    show "bitems bs = bitems bs'" using TInner.prems(3) t' by simp
    fix i c c'
    assume "i < 16" "snd (bs ! i) = Some c" and wf: "wf_node sha T (Suc d) (16 * p + i) c"
      "wf_node sha T (Suc d) (16 * p + i) c'" "items c = items c'"
    then have "bs ! i \<in> set bs" "Some c \<in> Basic_BNFs.snds (bs ! i)"
      using wf_branchesD(2) [OF b(1)] by (simp_all add: prod_set_defs)
    then show "c = c'" using TInner.IH wf by fastforce
  qed
  then show ?case using h t' by simp
qed

lemma wf_root_unique:
  assumes "wf_root sha T t" "wf_root sha T t'" "items t = items t'"
  shows "t = t'"
proof -
  obtain h bs h' bs' where t: "t = TInner h bs" "t' = TInner h' bs'"
    using assms(1,2) by (auto simp: wf_root_def split: shamaptreenode.splits)
  have "bs = bs'"
    by (rule branches_unique [of sha T 0 0 bs bs']) (use assms t wf_node_unique in \<open>auto simp: wf_root_def\<close>)
  then show ?thesis using assms(1,2) t by (simp add: wf_root_def)
qed

section \<open>Hashes\<close>

lemma node_hash_nz: "wf_node sha T d p t \<Longrightarrow> getnodehash t \<noteq> 0"
  by (cases t) (auto simp: wf_node_leaf wf_node_inner)

lemma branches_hash:
  assumes "wf_branches sha T d p bs"
  shows "inner_hash sha bs = (if bitems bs = {} then 0 else sha (inner_string (map fst bs)))"
proof -
  have "fst (bs ! i) = 0 \<longleftrightarrow> branch_items (bs ! i) = {}" if "i < 16" for i
    using wf_branchesD(3) [OF assms that] by (cases rule: branch_cases) (auto dest: wf_nonempty node_hash_nz)
  then show ?thesis
    unfolding bitems_nth [OF wf_branchesD(2) [OF assms]]
    by (auto simp: inner_hash_def isempty_def list_all_length wf_branchesD(2) [OF assms])
qed

text \<open>
  The byte strings that are hashed for trees over the items of \<open>U\<close>: those of the leaves, and those of inner
  nodes that are not empty. An inner node with one leaf occurs at the root and while an item is added or
  removed. The hash is assumed to be injective on these strings and not zero for them; nothing is assumed
  of it elsewhere.
\<close>

definition hashed_strings :: "hash \<Rightarrow> tntype \<Rightarrow> shamapitem set \<Rightarrow> blob set" where
  "hashed_strings sha T U =
     {leaf_string T it |it. it \<in> U \<and> item_ok sha T it} \<union>
     {inner_string (map fst bs) |bs. (\<exists>d p. wf_branches sha T d p bs) \<and> bitems bs \<subseteq> U \<and> bitems bs \<noteq> {}}"

definition collision_free :: "hash \<Rightarrow> tntype \<Rightarrow> shamapitem set \<Rightarrow> bool" where
  "collision_free sha T U \<longleftrightarrow>
     (\<forall>s\<in>hashed_strings sha T U. sha s \<noteq> 0) \<and> inj_on sha (hashed_strings sha T U)"

lemma leaf_string_hashed: "it \<in> U \<Longrightarrow> item_ok sha T it \<Longrightarrow> leaf_string T it \<in> hashed_strings sha T U"
  unfolding hashed_strings_def by blast

lemma branches_string_hashed:
  "wf_branches sha T d p bs \<Longrightarrow> bitems bs \<subseteq> U \<Longrightarrow> bitems bs \<noteq> {} \<Longrightarrow> inner_string (map fst bs) \<in> hashed_strings sha T U"
  unfolding hashed_strings_def by blast

lemma leaf_hash_nz: "collision_free sha T U \<Longrightarrow> it \<in> U \<Longrightarrow> item_ok sha T it \<Longrightarrow> leaf_hash sha T it \<noteq> 0"
  using leaf_string_hashed by (simp add: collision_free_def leaf_hash_def)

lemma inner_hash_nz:
  "collision_free sha T U \<Longrightarrow> wf_branches sha T d p bs \<Longrightarrow> bitems bs \<subseteq> U \<Longrightarrow> bitems bs \<noteq> {} \<Longrightarrow> inner_hash sha bs \<noteq> 0"
  using branches_string_hashed [of sha T d p bs U] by (simp add: collision_free_def branches_hash)

lemma inner_hash_eq_0:
  "collision_free sha T U \<Longrightarrow> wf_branches sha T d p bs \<Longrightarrow> bitems bs \<subseteq> U \<Longrightarrow> inner_hash sha bs = 0 \<longleftrightarrow> bitems bs = {}"
  using inner_hash_nz [of sha T U d p bs] branches_hash [of sha T d p bs] by auto

lemma wf_inner_of:
  assumes "collision_free sha T U" "wf_branches sha T d p bs" "bitems bs \<subseteq> U" "2 \<le> card (bitems bs)"
  shows "wf_node sha T d p (TInner (inner_hash sha bs) bs)"
proof -
  have "bitems bs \<noteq> {}" using assms(4) by auto
  then show ?thesis using inner_hash_nz [OF assms(1-3)] assms(2,4) by (simp add: wf_node_inner)
qed

lemma inner_string_inject: "length hs = length hs' \<Longrightarrow> inner_string hs = inner_string hs' \<longleftrightarrow> hs = hs'"
proof -
  have "length hs = length hs' \<Longrightarrow> concat (map bits_enc hs) = concat (map bits_enc hs') \<Longrightarrow> hs = hs'"
    for hs hs' :: "uint256 list"
    by (induction hs hs' rule: list_induct2) (simp_all add: bits_enc_append_inject bits_enc_inject)
  then show "length hs = length hs' \<Longrightarrow> inner_string hs = inner_string hs' \<longleftrightarrow> hs = hs'"
    by (auto simp: inner_string_def)
qed

lemma leaf_inner_differ: "leaf_string T it \<noteq> inner_string hs"
  by (simp add: leaf_string_def inner_string_def add_append addraw_def Let_def bits_enc_append_inject
      bits_enc_inject)

lemma leaf_string_inject:
  "item_ok sha T it \<Longrightarrow> item_ok sha T it' \<Longrightarrow> leaf_string T it = leaf_string T it' \<longleftrightarrow> it = it'"
  by (cases "T = tntransaction_nm")
     (auto simp: leaf_string_def add_append addraw_def Let_def bits_enc_append_inject bits_enc_inject item_ok_def
       leaf_hash_def intro!: shamapitem.equality)

text \<open>The hash of a node is the hash of its string.\<close>

fun node_string :: "shamaptreenode \<Rightarrow> blob" where
  "node_string (TLeaf h ty it) = leaf_string ty it"
| "node_string (TInner h bs) = inner_string (map fst bs)"

lemma node_hash_string: "wf_node sha T d p t \<Longrightarrow> getnodehash t = sha (node_string t)"
  using wf_nonempty [of sha T d p t]
  by (cases t) (auto simp: wf_node_leaf wf_node_inner leaf_hash_def branches_hash split: if_splits)

lemma node_string_hashed: "wf_node sha T d p t \<Longrightarrow> items t \<subseteq> U \<Longrightarrow> node_string t \<in> hashed_strings sha T U"
  using wf_nonempty [of sha T d p t]
  by (cases t) (auto simp: wf_node_leaf wf_node_inner intro: leaf_string_hashed branches_string_hashed)

lemma node_strings_eq:
  assumes "collision_free sha T U" "wf_node sha T d p t" "wf_node sha T d' p' t'" "items t \<subseteq> U" "items t' \<subseteq> U"
    "getnodehash t = getnodehash t'"
  shows "node_string t = node_string t'"
  using assms node_hash_string [OF assms(2)] node_hash_string [OF assms(3)]
    inj_onD [OF _ _ node_string_hashed [OF assms(2,4)] node_string_hashed [OF assms(3,5)], of sha]
  by (simp add: collision_free_def)

lemma single_branches:
  assumes "wf_branches sha T d p bs" "bitems bs = {it}"
  shows "bs = (replicate 16 (0, None))[nib d (mtag it) := (leaf_hash sha T it, Some (TLeaf (leaf_hash sha T it) T it))]"
proof (rule nth_equalityI)
  show "length bs = length ((replicate 16 (0, None))[nib d (mtag it) := (leaf_hash sha T it, Some (TLeaf (leaf_hash sha T it) T it))])"
    using wf_branchesD(2) [OF assms(1)] by simp
next
  fix i
  assume "i < length bs"
  then have i: "i < 16" using wf_branchesD(2) [OF assms(1)] by simp
  have its: "branch_items (bs ! i) = (if nib d (mtag it) = i then {it} else {})"
    unfolding branch_items_nib [OF assms(1) i] assms(2) by auto
  show "bs ! i = (replicate 16 (0, None))[nib d (mtag it) := (leaf_hash sha T it, Some (TLeaf (leaf_hash sha T it) T it))] ! i"
    using wf_branchesD(3) [OF assms(1) i]
  proof (cases rule: branch_cases)
    case empty
    then have "nib d (mtag it) \<noteq> i" using its by (auto split: if_splits)
    then show ?thesis using empty i by (simp add: nth_list_update)
  next
    case (child c)
    then have "nib d (mtag it) = i" "items c = {it}" using its wf_nonempty [OF child(2)] by (auto split: if_splits)
    then have "c = TLeaf (leaf_hash sha T it) T it"
      using child(2) wf_inner_not_single by (cases c) (auto simp: wf_node_leaf)
    then show ?thesis using child(1) i \<open>nib d (mtag it) = i\<close> by simp
  qed
qed

lemma inner_hashes_differ:
  assumes cf: "collision_free sha T U" and b: "wf_branches sha T d p bs" "wf_branches sha T d' p' bs'"
    and u: "bitems bs \<subseteq> U" "bitems bs' \<subseteq> U" and ne: "map fst bs \<noteq> map fst bs'"
  shows "inner_hash sha bs \<noteq> inner_hash sha bs'"
proof
  have inj: "inj_on sha (hashed_strings sha T U)" using cf by (simp add: collision_free_def)
  assume eq: "inner_hash sha bs = inner_hash sha bs'"
  show False
  proof (cases "bitems bs = {}")
    case True
    then have "bitems bs' = {}"
      using eq inner_hash_eq_0 [OF cf b(1) u(1)] inner_hash_eq_0 [OF cf b(2) u(2)] by simp
    then have "branch_items (bs ! i) = {} \<and> branch_items (bs' ! i) = {}" if "i < 16" for i
      using True that unfolding bitems_nth [OF wf_branchesD(2) [OF b(1)]] bitems_nth [OF wf_branchesD(2) [OF b(2)]]
      by blast
    then have "bs ! i = bs' ! i" if "i < 16" for i
      using that branch_items_empty [OF wf_branchesD(3) [OF b(1) that]] branch_items_empty [OF wf_branchesD(3) [OF b(2) that]]
      by simp
    then show False using ne wf_branchesD(2) [OF b(1)] wf_branchesD(2) [OF b(2)] by (simp add: list_eq_iff_nth_eq)
  next
    case False
    then have "bitems bs' \<noteq> {}"
      using eq inner_hash_eq_0 [OF cf b(1) u(1)] inner_hash_eq_0 [OF cf b(2) u(2)] by simp
    then have "inner_string (map fst bs) = inner_string (map fst bs')"
      using eq False branches_hash [OF b(1)] branches_hash [OF b(2)]
        inj_onD [OF inj _ branches_string_hashed [OF b(1) u(1)] branches_string_hashed [OF b(2) u(2)]]
      by auto
    then show False
      using ne inner_string_inject wf_branchesD(2) [OF b(1)] wf_branchesD(2) [OF b(2)] by simp
  qed
qed

lemma node_hash_items:
  assumes "collision_free sha T U"
  shows "wf_node sha T d p t \<Longrightarrow> wf_node sha T d p t' \<Longrightarrow> items t \<subseteq> U \<Longrightarrow> items t' \<subseteq> U \<Longrightarrow>
    getnodehash t = getnodehash t' \<Longrightarrow> items t = items t'"
proof (induction t arbitrary: d p t')
  case (TLeaf h ty it)
  have eq: "node_string (TLeaf h ty it) = node_string t'"
    by (rule node_strings_eq [OF assms TLeaf.prems])
  then show ?case
    using TLeaf.prems leaf_inner_differ leaf_string_inject by (cases t') (auto simp: wf_node_leaf)
next
  case (TInner h bs)
  have eq: "node_string (TInner h bs) = node_string t'"
    by (rule node_strings_eq [OF assms TInner.prems])
  then obtain h' bs' where t': "t' = TInner h' bs'" using leaf_inner_differ by (cases t') (auto dest: sym)
  have b: "wf_branches sha T d p bs" "wf_branches sha T d p bs'"
    using TInner.prems by (simp_all add: t' wf_node_inner)
  then have fst: "fst (bs ! i) = fst (bs' ! i)" if "i < 16" for i
    using eq that by (simp add: t' inner_string_inject wf_branches_def) (metis nth_map)
  have "branch_items (bs ! i) = branch_items (bs' ! i)" if i: "i < 16" for i
    using wf_branchesD(3) [OF b(1) i]
  proof (cases rule: branch_cases)
    case empty
    then have "fst (bs' ! i) = 0" using fst [OF i] by simp
    with wf_branchesD(3) [OF b(2) i] show ?thesis
      using empty by (cases rule: branch_cases) (auto dest: node_hash_nz)
  next
    case (child c)
    then have "fst (bs' ! i) \<noteq> 0" using fst [OF i] node_hash_nz [OF child(2)] by simp
    with wf_branchesD(3) [OF b(2) i] obtain c' where
      c': "bs' ! i = (getnodehash c', Some c')" "wf_node sha T (Suc d) (16 * p + i) c'"
      by (cases rule: branch_cases) auto
    have "items c \<subseteq> bitems bs" "items c' \<subseteq> bitems bs'"
      using branch_subset [OF b(1) i] branch_subset [OF b(2) i] child(1) c'(1) by simp_all
    then have "items c \<subseteq> U" "items c' \<subseteq> U" using TInner.prems(3,4) t' by auto
    moreover have "bs ! i \<in> set bs" using i wf_branchesD(2) [OF b(1)] by simp
    moreover have "Some c \<in> Basic_BNFs.snds (bs ! i)" using child by (simp add: prod_set_defs)
    moreover have "getnodehash c = getnodehash c'" using fst [OF i] child c' by simp
    ultimately show ?thesis using TInner.IH [of "bs ! i" "Some c" c, OF _ _ _ child(2) c'(2)] child c' by simp
  qed
  then show ?case
    by (simp add: t' bitems_nth [OF wf_branchesD(2) [OF b(1)]] bitems_nth [OF wf_branchesD(2) [OF b(2)]])
qed

end
