(* ===== verification/Sha_Ops.thy ===== *)
theory Sha_Ops
  imports Sha_Tree
begin

text \<open>
  The operations on hash trees keep them well formed and change the items they hold as a map is changed.
\<close>

section \<open>One level of the tree\<close>

lemma selectbranch_at [simp]: "mdepth n < 64 \<Longrightarrow> selectbranch n k = Inr (nib (mdepth n) k)"
  by (simp add: selectbranch_nib)

lemma getstack_empty_branch:
  assumes "wf_branches sha T d p bs" "mdepth nid = d" "bs ! nib d k = (0, None)"
  shows "getstack_loop nm k (TInner h bs) nid st = Inr ((TInner h bs, nid) # st)"
  using assms wf_branchesD(1) [OF assms(1)] by (simp add: isemptybranch_def)

lemma descendthrow_child:
  "i < length bs \<Longrightarrow> snd (bs ! i) = Some c \<Longrightarrow> descendthrow (TInner h bs) i = Inr (Some c)"
  by (simp add: descendthrow_def)

lemma getstack_child_branch:
  assumes "wf_branches sha T d p bs" "mdepth nid = d" "bs ! nib d k = (getnodehash c, Some c)" "getnodehash c \<noteq> 0"
  obtains nid' where "mdepth nid' = Suc d"
    "\<And>st. getstack_loop nm k (TInner h bs) nid st = getstack_loop nm k c nid' ((TInner h bs, nid) # st)"
    "walk_loop k (TInner h bs) nid = walk_loop k c nid'"
proof -
  have d: "d < 64" "length bs = 16" using wf_branchesD [OF assms(1)] by simp_all
  obtain nid' where n: "getchildnodeid nid (nib d k) = Inr nid'" "mdepth nid' = Suc d"
    using getchildnodeid_ok [of nid "nib d k"] d assms(2) by auto
  show thesis
    by (rule that [OF n(2)]) (use assms d n in \<open>simp_all add: isemptybranch_def descendthrow_child\<close>)
qed

definition put_branch :: "branches \<Rightarrow> nat \<Rightarrow> shamaptreenode option \<Rightarrow> branches" where
  "put_branch bs i r = bs[i := (opt_hash r, r)]"

lemma setchild_put:
  assumes "length bs = 16" "i < 16" "fst (bs ! i) \<noteq> opt_hash r" "\<And>c. r = Some c \<Longrightarrow> getnodehash c \<noteq> 0"
    "inner_hash sha (put_branch bs i r) \<noteq> h"
  shows "setchild sha (TInner h bs) i (opt_hash r) r =
     Inr (True, TInner (inner_hash sha (put_branch bs i r)) (put_branch bs i r))"
  using assms by (cases r) (simp_all add: opt_hash_def put_branch_def Let_def)

definition opt_items :: "shamaptreenode option \<Rightarrow> shamapitem set" where
  "opt_items r = (case r of None \<Rightarrow> {} | Some c \<Rightarrow> items c)"

lemma opt_simps [simp]:
  "opt_items None = {}" "opt_items (Some c) = items c" "opt_hash None = 0" "opt_hash (Some c) = getnodehash c"
  by (simp_all add: opt_items_def opt_hash_def)

lemma put_branch_wf:
  assumes "wf_branches sha T d p bs" "i < 16" "wf_branch sha T (Suc d) (16 * p + i) (opt_hash r, r)"
  shows "wf_branches sha T d p (put_branch bs i r)"
    and "bitems (put_branch bs i r) = bitems bs - branch_items (bs ! i) \<union> opt_items r"
proof -
  show w: "wf_branches sha T d p (put_branch bs i r)"
    using assms unfolding wf_branches_def put_branch_def by (auto simp: nth_list_update)
  have disj: "j = i" if "it \<in> branch_items (bs ! i)" "it \<in> branch_items (bs ! j)" "j < 16" for it j
    using branch_of_item [OF assms(1,2) that(1)] branch_of_item [OF assms(1) that(3,2)] by simp
  have bi: "branch_items (opt_hash r, r) = opt_items r" by (cases r) simp_all
  have "bitems (put_branch bs i r) = (\<Union>j<16. if j = i then opt_items r else branch_items (bs ! j))"
    unfolding bitems_nth [OF wf_branchesD(2) [OF w]] using assms(1,2) bi
    by (intro SUP_cong) (auto simp: put_branch_def wf_branches_def nth_list_update)
  also have "\<dots> = opt_items r \<union> (\<Union>j\<in>{..<16} - {i}. branch_items (bs ! j))" using assms(2) by auto
  also have "(\<Union>j\<in>{..<16} - {i}. branch_items (bs ! j)) = bitems bs - branch_items (bs ! i)"
    unfolding bitems_nth [OF wf_branchesD(2) [OF assms(1)]] using disj by blast
  finally show "bitems (put_branch bs i r) = bitems bs - branch_items (bs ! i) \<union> opt_items r" by auto
qed

text \<open>Writing a changed child changes the hash of its parent.\<close>

lemma setchild_changed:
  assumes cf: "collision_free sha T U" and b: "wf_branches sha T d p bs" and i: "i < 16"
    and r: "wf_branch sha T (Suc d) (16 * p + i) (opt_hash r, r)" "opt_items r \<subseteq> U"
    and u: "bitems bs \<subseteq> U" and ne: "opt_items r \<noteq> branch_items (bs ! i)"
  shows "setchild sha (TInner (inner_hash sha bs) bs) i (opt_hash r) r =
     Inr (True, TInner (inner_hash sha (put_branch bs i r)) (put_branch bs i r))"
proof -
  have len: "length bs = 16" using wf_branchesD(2) [OF b] .
  have ch: "fst (bs ! i) \<noteq> opt_hash r"
    using wf_branchesD(3) [OF b i]
  proof (cases rule: branch_cases)
    case empty
    then obtain c where "r = Some c" "wf_node sha T (Suc d) (16 * p + i) c" using ne r(1) by (cases r) auto
    then show ?thesis using empty node_hash_nz by auto
  next
    case (child c)
    then have cu: "items c \<subseteq> U" using branch_subset [OF b i] u by auto
    show ?thesis
    proof (cases r)
      case None
      then show ?thesis using child(1) node_hash_nz [OF child(2)] by simp
    next
      case (Some c')
      then have c': "wf_node sha T (Suc d) (16 * p + i) c'" "items c' \<subseteq> U" "items c' \<noteq> items c"
        using r ne child(1) by simp_all
      then show ?thesis using node_hash_items [OF cf child(2) c'(1) cu c'(2)] Some child(1) by auto
    qed
  qed
  have "map fst (put_branch bs i r) ! i \<noteq> map fst bs ! i" using ch len i by (simp add: put_branch_def)
  then have "map fst (put_branch bs i r) \<noteq> map fst bs" by auto
  moreover have "bitems (put_branch bs i r) \<subseteq> U" using put_branch_wf(2) [OF b i r(1)] u r(2) by auto
  ultimately have "inner_hash sha (put_branch bs i r) \<noteq> inner_hash sha bs"
    using inner_hashes_differ [OF cf put_branch_wf(1) [OF b i r(1)] b _ u] by blast
  moreover have "getnodehash c \<noteq> 0" if "r = Some c" for c
    using r(1) that node_hash_nz by auto
  ultimately show ?thesis by (intro setchild_put [OF len i ch])
qed

lemma dirtyup_step:
  assumes "collision_free sha T U" "wf_branches sha T d p bs" "mdepth nid = d"
    "wf_node sha T (Suc d) (16 * p + nib d k) c" "items c \<subseteq> U" "bitems bs \<subseteq> U"
    "items c \<noteq> branch_items (bs ! nib d k)"
  shows "dirtyup sha s k ((TInner (inner_hash sha bs) bs, nid) # st) c =
    dirtyup sha s k st (TInner (inner_hash sha (put_branch bs (nib d k) (Some c))) (put_branch bs (nib d k) (Some c)))"
  using setchild_changed [OF assms(1,2) nib_less, of d k "Some c"] assms wf_branchesD(1) [OF assms(2)]
  by (simp add: dirtyup_def)

section \<open>Adding an item\<close>

abbreviation inner_of :: "hash \<Rightarrow> branches \<Rightarrow> shamaptreenode" where
  "inner_of sha bs \<equiv> TInner (inner_hash sha bs) bs"

definition leaf_of :: "hash \<Rightarrow> tntype \<Rightarrow> shamapitem \<Rightarrow> shamaptreenode" where
  "leaf_of sha T it = TLeaf (leaf_hash sha T it) T it"

lemma leaf_of_items [simp]: "items (leaf_of sha T it) = {it}"
  by (simp add: leaf_of_def)

lemma leaf_of_wf:
  "collision_free sha T U \<Longrightarrow> it \<in> U \<Longrightarrow> d < 64 \<Longrightarrow> pre d (mtag it) = p \<Longrightarrow> item_ok sha T it \<Longrightarrow>
     wf_node sha T (Suc d) (16 * p + nib d (mtag it)) (leaf_of sha T it)"
  by (auto simp: leaf_of_def wf_node_leaf pre_Suc leaf_hash_nz)

lemma mk_leaf_ok: "isleaf_type T \<Longrightarrow> item_ok sha T it \<Longrightarrow> mk_leaf sha it T = Inr (leaf_of sha T it)"
  by (auto simp: mk_leaf_def item_ok_def Let_def leaf_of_def)

lemma put_leaf_ok:
  assumes "collision_free sha T U" "isleaf_type T" "wf_branches sha T d p bs" "bs ! nib d (mtag it) = (0, None)"
    "pre d (mtag it) = p" "item_ok sha T it" "it \<in> U" "bitems bs \<subseteq> U"
  defines "bs' \<equiv> put_branch bs (nib d (mtag it)) (Some (leaf_of sha T it))"
  shows "put_leaf sha (inner_of sha bs) (nib d (mtag it)) it T = Inr (inner_of sha bs')"
    and "wf_branches sha T d p bs'" and "bitems bs' = insert it (bitems bs)"
proof -
  have w: "wf_node sha T (Suc d) (16 * p + nib d (mtag it)) (leaf_of sha T it)"
    using leaf_of_wf [OF assms(1,7)] wf_branchesD(1) [OF assms(3)] assms(5,6) by blast
  then show "wf_branches sha T d p bs'" "bitems bs' = insert it (bitems bs)"
    unfolding bs'_def using put_branch_wf [OF assms(3) nib_less, of d "mtag it" "Some (leaf_of sha T it)"] assms(4) by simp_all
  show "put_leaf sha (inner_of sha bs) (nib d (mtag it)) it T = Inr (inner_of sha bs')"
    using setchild_changed [OF assms(1,3) nib_less, of d "mtag it" "Some (leaf_of sha T it)"] w assms(4,7,8)
    by (simp add: put_leaf_def mk_leaf_ok [OF assms(2,6)] bs'_def)
qed

definition no_branches :: branches where
  "no_branches = replicate 16 (0, None)"

lemma no_branches [simp]: "i < 16 \<Longrightarrow> no_branches ! i = (0, None)" "bitems no_branches = {}" "length no_branches = 16"
  by (simp_all add: no_branches_def bitems_def)

lemma makeinner_empty: "makeinner = inner_of sha no_branches"
  by (simp add: makeinner_def no_branches_def inner_hash_def isempty_def list_all_iff)

lemma no_branches_wf: "d < 64 \<Longrightarrow> wf_branches sha T d p no_branches"
  by (simp add: wf_branches_def)

definition result :: "hash \<Rightarrow> shamapstate \<Rightarrow> uint256 \<Rightarrow> stack \<Rightarrow> shamaptreenode \<Rightarrow> shamaptreenode option res" where
  "result sha s key st n = rbind (dirtyup sha s key st n) (\<lambda>r. Inr (Some r))"

lemma card_two: "mtag a \<noteq> mtag b \<Longrightarrow> 2 \<le> card {b, a}"
  by (auto simp: card_insert_if)

lemma split_ok:
  assumes cf: "collision_free sha T U" and T: "isleaf_type T" and ok: "item_ok sha T it" "item_ok sha T old"
    and tags: "mtag old \<noteq> mtag it" and u: "it \<in> U" "old \<in> U"
  shows "d \<le> 64 \<Longrightarrow> pre d (mtag it) = p \<Longrightarrow> pre d (mtag old) = p \<Longrightarrow>
    \<exists>t. wf_node sha T d p t \<and> items t = {it, old} \<and>
      (\<forall>nid st. mdepth nid = d \<longrightarrow> split_leaf sha s T it old nid st = result sha s (mtag it) st t)"
proof (induction "64 - d" arbitrary: d p)
  case 0
  then have "mtag old = mtag it" using pre_inject [of "mtag old" "mtag it"] by simp
  then show ?case using tags by simp
next
  case (Suc n)
  then have d: "d < 64" by simp
  note e = no_branches_wf [OF d, of sha T p]
  show ?case
  proof (cases "nib d (mtag it) = nib d (mtag old)")
    case True
    have "\<exists>t. wf_node sha T (Suc d) (16 * p + nib d (mtag it)) t \<and> items t = {it, old} \<and>
      (\<forall>nid st. mdepth nid = Suc d \<longrightarrow> split_leaf sha s T it old nid st = result sha s (mtag it) st t)"
      by (rule Suc.hyps(1)) (use Suc.hyps(2) Suc.prems d True in \<open>simp_all add: pre_Suc\<close>)
    then obtain t where t: "wf_node sha T (Suc d) (16 * p + nib d (mtag it)) t" "items t = {it, old}"
      and run: "\<And>nid st. mdepth nid = Suc d \<Longrightarrow> split_leaf sha s T it old nid st = result sha s (mtag it) st t"
      by blast
    let ?bs = "put_branch no_branches (nib d (mtag it)) (Some t)"
    have w: "wf_branches sha T d p ?bs" "bitems ?bs = {it, old}"
      using put_branch_wf [OF e nib_less, of d "mtag it" "Some t"] t by simp_all
    have "wf_node sha T d p (inner_of sha ?bs)" using wf_inner_of [OF cf w(1)] w(2) u card_two [OF tags] by simp
    moreover have "split_leaf sha s T it old nid st = result sha s (mtag it) st (inner_of sha ?bs)"
      if nid: "mdepth nid = d" for nid st
    proof -
      obtain nid' where n: "getchildnodeid nid (nib d (mtag it)) = Inr nid'" "mdepth nid' = Suc d"
        using getchildnodeid_ok [of nid "nib d (mtag it)"] d nid by auto
      have "split_loop (mtag it) (mtag old) makeinner nid st
          = split_loop (mtag it) (mtag old) makeinner nid' ((makeinner, nid) # st)"
        using True n d nid by (subst split_loop.simps) simp
      moreover have "dirtyup sha s (mtag it) ((makeinner, nid) # st) t = dirtyup sha s (mtag it) st (inner_of sha ?bs)"
        unfolding makeinner_empty [of sha] using dirtyup_step [OF cf e nid, where k = "mtag it" and c = t and st = st and s = s] t u by simp
      ultimately show ?thesis using run [OF n(2), of "(makeinner, nid) # st"] by (simp add: result_def split_leaf_def)
    qed
    ultimately show ?thesis using w(2) by (intro exI [of _ "inner_of sha ?bs"]) simp
  next
    case False
    let ?b1 = "put_branch no_branches (nib d (mtag it)) (Some (leaf_of sha T it))"
    let ?b2 = "put_branch ?b1 (nib d (mtag old)) (Some (leaf_of sha T old))"
    have p1: "put_leaf sha makeinner (nib d (mtag it)) it T = Inr (inner_of sha ?b1)"
      "wf_branches sha T d p ?b1" "bitems ?b1 = {it}"
      using put_leaf_ok [OF cf T e, of it] Suc.prems(2) ok u by (simp_all add: makeinner_empty [of sha])
    have "?b1 ! nib d (mtag old) = (0, None)" using False by (simp add: put_branch_def)
    then have p2: "put_leaf sha (inner_of sha ?b1) (nib d (mtag old)) old T = Inr (inner_of sha ?b2)"
      "wf_branches sha T d p ?b2" "bitems ?b2 = {it, old}"
      using put_leaf_ok [OF cf T p1(2), of old] Suc.prems(3) ok u p1(3) by (auto simp: insert_commute)
    have "wf_node sha T d p (inner_of sha ?b2)" using wf_inner_of [OF cf p2(2)] p2(3) u card_two [OF tags] by simp
    moreover have "split_loop (mtag it) (mtag old) makeinner nid st
        = Inr (nib d (mtag it), nib d (mtag old), makeinner, st)" if "mdepth nid = d" for nid st
      using False d that by (subst split_loop.simps) simp
    ultimately show ?thesis
      using p1(1) p2(1,3) by (intro exI [of _ "inner_of sha ?b2"]) (simp add: result_def split_leaf_def)
  qed
qed

text \<open>A change below a branch is carried up through the inner node.\<close>

lemma carry_up:
  assumes cf: "collision_free sha T U" and b: "wf_branches sha T d p bs" "bitems bs \<subseteq> U"
    and c: "bs ! nib d k = (getnodehash c, Some c)" "wf_node sha T (Suc d) (16 * p + nib d k) c"
    and c': "wf_node sha T (Suc d) (16 * p + nib d k) c'" "items c' \<subseteq> U" "items c' \<noteq> items c"
    and run: "\<And>nid st. mdepth nid = Suc d \<Longrightarrow> rbind (getstack_loop True k c nid st) f = result sha s k st c'"
  shows "mdepth nid = d \<Longrightarrow> rbind (getstack_loop True k (inner_of sha bs) nid st) f
      = result sha s k st (inner_of sha (put_branch bs (nib d k) (Some c')))"
    and "wf_branches sha T d p (put_branch bs (nib d k) (Some c'))"
    and "bitems (put_branch bs (nib d k) (Some c')) = bitems bs - items c \<union> items c'"
proof -
  show "wf_branches sha T d p (put_branch bs (nib d k) (Some c'))"
    "bitems (put_branch bs (nib d k) (Some c')) = bitems bs - items c \<union> items c'"
    using put_branch_wf [OF b(1) nib_less, of d k "Some c'"] c' c by simp_all
  assume nid: "mdepth nid = d"
  obtain nid' where n: "mdepth nid' = Suc d"
    "\<And>st. getstack_loop True k (inner_of sha bs) nid st = getstack_loop True k c nid' ((inner_of sha bs, nid) # st)"
    using getstack_child_branch [OF b(1) nid c(1) node_hash_nz [OF c(2)]] by metis
  show "rbind (getstack_loop True k (inner_of sha bs) nid st) f
      = result sha s k st (inner_of sha (put_branch bs (nib d k) (Some c')))"
    unfolding n(2) run [OF n(1)] result_def
    using dirtyup_step [OF cf b(1) nid c'(1,2) b(2), where st = st and s = s] c'(3) c(1) by simp
qed

lemma add_branches:
  assumes cf: "collision_free sha T U" and T: "isleaf_type T" and ok: "item_ok sha T it"
    and b: "wf_branches sha T d p bs" and p: "pre d (mtag it) = p"
    and fresh: "mtag it \<notin> mtag ` bitems bs" and u: "it \<in> U" "bitems bs \<subseteq> U"
    and child: "\<And>c. wf_node sha T (Suc d) (16 * p + nib d (mtag it)) c \<Longrightarrow> items c \<subseteq> bitems bs \<Longrightarrow>
      snd (bs ! nib d (mtag it)) = Some c \<Longrightarrow>
      \<exists>c'. wf_node sha T (Suc d) (16 * p + nib d (mtag it)) c' \<and> items c' = insert it (items c) \<and>
        (\<forall>nid st. mdepth nid = Suc d \<longrightarrow>
           rbind (getstack_loop True (mtag it) c nid st) (add_stack sha s T it) = result sha s (mtag it) st c')"
  shows "\<exists>bs'. wf_branches sha T d p bs' \<and> bitems bs' = insert it (bitems bs) \<and>
    (\<forall>nid st. mdepth nid = d \<longrightarrow>
       rbind (getstack_loop True (mtag it) (inner_of sha bs) nid st) (add_stack sha s T it)
         = result sha s (mtag it) st (inner_of sha bs'))"
  using wf_branchesD(3) [OF b nib_less, of d "mtag it"]
proof (cases rule: branch_cases)
  case empty
  note q = put_leaf_ok [OF cf T b empty p ok u]
  have "d < 64" using wf_branchesD(1) [OF b] .
  then have "rbind (getstack_loop True (mtag it) (inner_of sha bs) nid st) (add_stack sha s T it)
      = result sha s (mtag it) st (inner_of sha (put_branch bs (nib d (mtag it)) (Some (leaf_of sha T it))))"
    if "mdepth nid = d" for nid st
    using q(1) empty that by (simp add: getstack_empty_branch [OF b that empty] isemptybranch_def result_def)
  then show ?thesis using q(2,3) by blast
next
  case (child c)
  have sub: "items c \<subseteq> bitems bs" using branch_subset [OF b nib_less, of d "mtag it"] child(1) by simp
  obtain c' where c': "wf_node sha T (Suc d) (16 * p + nib d (mtag it)) c'" "items c' = insert it (items c)"
    and run: "\<And>nid st. mdepth nid = Suc d \<Longrightarrow>
       rbind (getstack_loop True (mtag it) c nid st) (add_stack sha s T it) = result sha s (mtag it) st c'"
    using assms(9) [OF child(2) sub] child(1) by auto
  have u': "items c' \<subseteq> U" unfolding c'(2) using u sub by blast
  have ne: "items c' \<noteq> items c" using c'(2) sub fresh by blast
  note q = carry_up [OF cf b u(2) child c'(1) u' ne run]
  have "bitems (put_branch bs (nib d (mtag it)) (Some c')) = insert it (bitems bs)"
    using q(3) c'(2) sub by blast
  then show ?thesis using q(1,2) by blast
qed

lemma add_node:
  assumes cf: "collision_free sha T U" and T: "isleaf_type T" and ok: "item_ok sha T it" and u: "it \<in> U"
  shows "wf_node sha T d p t \<Longrightarrow> pre d (mtag it) = p \<Longrightarrow> mtag it \<notin> mtag ` items t \<Longrightarrow> items t \<subseteq> U \<Longrightarrow>
    \<exists>t'. wf_node sha T d p t' \<and> items t' = insert it (items t) \<and>
      (\<forall>nid st. mdepth nid = d \<longrightarrow>
         rbind (getstack_loop True (mtag it) t nid st) (add_stack sha s T it) = result sha s (mtag it) st t')"
proof (induction t arbitrary: d p)
  case (TLeaf h ty old)
  then have "d \<le> 64" "pre d (mtag old) = p" "item_ok sha T old" "ty = T" by (auto simp: wf_node_leaf)
  then show ?case
    using split_ok [OF cf T ok, of old d p] TLeaf.prems u by (auto simp: insert_commute)
next
  case (TInner h bs)
  then have b: "wf_branches sha T d p bs" "h = inner_hash sha bs" "2 \<le> card (bitems bs)"
    by (simp_all add: wf_node_inner)
  have "\<exists>bs'. wf_branches sha T d p bs' \<and> bitems bs' = insert it (bitems bs) \<and>
    (\<forall>nid st. mdepth nid = d \<longrightarrow>
       rbind (getstack_loop True (mtag it) (inner_of sha bs) nid st) (add_stack sha s T it)
         = result sha s (mtag it) st (inner_of sha bs'))"
  proof (rule add_branches [OF cf T ok b(1) TInner.prems(2) _ u])
    fix c
    assume c: "wf_node sha T (Suc d) (16 * p + nib d (mtag it)) c" "items c \<subseteq> bitems bs"
      "snd (bs ! nib d (mtag it)) = Some c"
    have "bs ! nib d (mtag it) \<in> set bs" using wf_branchesD(2) [OF b(1)] by simp
    moreover have "Some c \<in> Basic_BNFs.snds (bs ! nib d (mtag it))" using c(3) by (simp add: prod_set_defs)
    moreover have "pre (Suc d) (mtag it) = 16 * p + nib d (mtag it)"
      using TInner.prems(2) wf_branchesD(1) [OF b(1)] by (simp add: pre_Suc)
    moreover have "mtag it \<notin> mtag ` items c" "items c \<subseteq> U" using c(2) TInner.prems(3,4) by auto
    ultimately show "\<exists>c'. wf_node sha T (Suc d) (16 * p + nib d (mtag it)) c' \<and> items c' = insert it (items c) \<and>
        (\<forall>nid st. mdepth nid = Suc d \<longrightarrow>
           rbind (getstack_loop True (mtag it) c nid st) (add_stack sha s T it) = result sha s (mtag it) st c')"
      using TInner.IH [OF _ _ _ c(1)] by simp
  qed (use TInner.prems in simp_all)
  then obtain bs' where bs': "wf_branches sha T d p bs'" "bitems bs' = insert it (bitems bs)"
    and run: "\<And>nid st. mdepth nid = d \<Longrightarrow>
       rbind (getstack_loop True (mtag it) (inner_of sha bs) nid st) (add_stack sha s T it)
         = result sha s (mtag it) st (inner_of sha bs')" by blast
  have "card (bitems bs) \<le> card (bitems bs')" by (rule card_mono [OF finite_bitems]) (simp add: bs'(2) subset_insertI)
  then have "2 \<le> card (bitems bs')" using b(3) by simp
  then have "wf_node sha T d p (inner_of sha bs')" using wf_inner_of [OF cf bs'(1)] bs'(2) u TInner.prems(4) by simp
  then show ?case using bs'(2) run b(2) by (intro exI [of _ "inner_of sha bs'"]) simp
qed

end
