(* ===== verification/Sha_Del.thy ===== *)
theory Sha_Del
  imports Sha_Ops
begin

text \<open>
  Changing and removing an item, and looking items up.
\<close>

section \<open>Changing an item\<close>

lemma setitem_leaf:
  "isleaf_type T \<Longrightarrow> setitem sha n it T
     = Inr (leaf_hash sha T it \<noteq> getnodehash n, leaf_of sha T it)"
  by (simp add: setitem_def Let_def leaf_of_def)

lemma leaf_of_wf_here:
  "d \<le> 64 \<Longrightarrow> pre d (mtag it) = p \<Longrightarrow> item_ok sha T it \<Longrightarrow> leaf_hash sha T it \<noteq> 0 \<Longrightarrow>
     wf_node sha T d p (leaf_of sha T it)"
  by (simp add: leaf_of_def wf_node_leaf)

lemma item_branch:
  assumes "wf_branches sha T d p bs" "it \<in> bitems bs"
  obtains c where "bs ! nib d (mtag it) = (getnodehash c, Some c)"
    "wf_node sha T (Suc d) (16 * p + nib d (mtag it)) c" "it \<in> items c" "items c \<subseteq> bitems bs"
proof -
  have i: "nib d (mtag it) < 16" by simp
  have it: "it \<in> branch_items (bs ! nib d (mtag it))"
    using assms branch_items_nib [OF assms(1) i] by blast
  from wf_branchesD(3) [OF assms(1) i] show thesis
  proof (cases rule: branch_cases)
    case empty
    then show thesis using it by simp
  next
    case (child c)
    then show thesis using that it branch_subset [OF assms(1) i] by simp
  qed
qed

lemma child_mem:
  assumes "wf_branches sha T d p bs" "bs ! i = (h, Some c)" "i < 16"
  shows "bs ! i \<in> set bs" "Some c \<in> Basic_BNFs.snds (bs ! i)" "c \<in> set_option (Some c)"
  using assms nth_mem [of i bs] wf_branchesD(2) [OF assms(1)] by (simp_all add: prod_set_defs)

lemma upd_branches:
  assumes cf: "collision_free sha T U" and b: "wf_branches sha T d p bs" "bitems bs \<subseteq> U"
    and it: "it \<in> U" "old \<in> bitems bs" "mtag old = mtag it" "it \<noteq> old"
    and child: "\<And>c. wf_node sha T (Suc d) (16 * p + nib d (mtag it)) c \<Longrightarrow> items c \<subseteq> U \<Longrightarrow> old \<in> items c \<Longrightarrow>
      bs ! nib d (mtag it) = (getnodehash c, Some c) \<Longrightarrow>
      \<exists>c'. wf_node sha T (Suc d) (16 * p + nib d (mtag it)) c' \<and> items c' = insert it (items c - {old}) \<and>
        (\<forall>nid st. mdepth nid = Suc d \<longrightarrow>
           rbind (getstack_loop True (mtag it) c nid st) (upd_stack sha s T it) = result sha s (mtag it) st c')"
  shows "\<exists>bs'. wf_branches sha T d p bs' \<and> bitems bs' = insert it (bitems bs - {old}) \<and>
    (\<forall>nid st. mdepth nid = d \<longrightarrow>
       rbind (getstack_loop True (mtag it) (inner_of sha bs) nid st) (upd_stack sha s T it)
         = result sha s (mtag it) st (inner_of sha bs'))"
proof -
  obtain c where c: "bs ! nib d (mtag it) = (getnodehash c, Some c)"
    "wf_node sha T (Suc d) (16 * p + nib d (mtag it)) c" "old \<in> items c" "items c \<subseteq> bitems bs"
    using item_branch [OF b(1) it(2)] it(3) by metis
  then obtain c' where c': "wf_node sha T (Suc d) (16 * p + nib d (mtag it)) c'" "items c' = insert it (items c - {old})"
    and run: "\<And>nid st. mdepth nid = Suc d \<Longrightarrow>
       rbind (getstack_loop True (mtag it) c nid st) (upd_stack sha s T it) = result sha s (mtag it) st c'"
    using child [OF c(2)] b(2) by blast
  have u': "items c' \<subseteq> U" unfolding c'(2) using it(1) b(2) c(4) by blast
  have ne: "items c' \<noteq> items c" unfolding c'(2) using it(4) c(3) by auto
  note q = carry_up [OF cf b c(1,2) c'(1) u' ne run]
  have "bitems bs - items c \<union> items c' = insert it (bitems bs - {old})" unfolding c'(2) using c(3,4) by blast
  then show ?thesis using q by metis
qed

lemma upd_node:
  assumes cf: "collision_free sha T U" and T: "isleaf_type T" and ok: "item_ok sha T it" and u: "it \<in> U"
    and tag: "mtag old = mtag it" "it \<noteq> old"
  shows "wf_node sha T d p t \<Longrightarrow> items t \<subseteq> U \<Longrightarrow> old \<in> items t \<Longrightarrow>
    \<exists>t'. wf_node sha T d p t' \<and> items t' = insert it (items t - {old}) \<and>
      (\<forall>nid st. mdepth nid = d \<longrightarrow>
         rbind (getstack_loop True (mtag it) t nid st) (upd_stack sha s T it) = result sha s (mtag it) st t')"
proof (induction t arbitrary: d p)
  case (TLeaf h ty x)
  then have l: "x = old" "ty = T" "h = leaf_hash sha T old" "d \<le> 64" "pre d (mtag it) = p" "item_ok sha T old"
    using tag(1) by (auto simp: wf_node_leaf)
  have w: "wf_node sha T d p (leaf_of sha T it)" using leaf_of_wf_here [OF l(4,5) ok leaf_hash_nz [OF cf u ok]] .
  have "leaf_hash sha T it \<noteq> leaf_hash sha T old"
    using node_hash_items [OF cf w TLeaf.prems(1)] u TLeaf.prems(2) tag(2) l by (auto simp: leaf_of_def)
  then show ?case
    using w l tag by (intro exI [of _ "leaf_of sha T it"]) (simp add: setitem_leaf [OF T] result_def)
next
  case (TInner h bs)
  then have b: "wf_branches sha T d p bs" "h = inner_hash sha bs" "2 \<le> card (bitems bs)"
    by (simp_all add: wf_node_inner)
  have "\<exists>bs'. wf_branches sha T d p bs' \<and> bitems bs' = insert it (bitems bs - {old}) \<and>
    (\<forall>nid st. mdepth nid = d \<longrightarrow>
       rbind (getstack_loop True (mtag it) (inner_of sha bs) nid st) (upd_stack sha s T it)
         = result sha s (mtag it) st (inner_of sha bs'))"
  proof (rule upd_branches [OF cf b(1) _ u _ tag])
    fix c
    assume c: "wf_node sha T (Suc d) (16 * p + nib d (mtag it)) c" "items c \<subseteq> U" "old \<in> items c"
      "bs ! nib d (mtag it) = (getnodehash c, Some c)"
    then show "\<exists>c'. wf_node sha T (Suc d) (16 * p + nib d (mtag it)) c' \<and> items c' = insert it (items c - {old}) \<and>
        (\<forall>nid st. mdepth nid = Suc d \<longrightarrow>
           rbind (getstack_loop True (mtag it) c nid st) (upd_stack sha s T it) = result sha s (mtag it) st c')"
      using TInner.IH [OF child_mem [OF b(1) c(4) nib_less]] by blast
  qed (use TInner.prems in simp_all)
  then obtain bs' where bs': "wf_branches sha T d p bs'" "bitems bs' = insert it (bitems bs - {old})"
    and run: "\<And>nid st. mdepth nid = d \<Longrightarrow>
       rbind (getstack_loop True (mtag it) (inner_of sha bs) nid st) (upd_stack sha s T it)
         = result sha s (mtag it) st (inner_of sha bs')" by blast
  have "it \<notin> bitems bs - {old}"
    using wf_tags [OF TInner.prems(1)] TInner.prems(3) tag by (auto dest: inj_onD)
  then have "card (bitems bs') = card (bitems bs)"
    using TInner.prems(3) finite_bitems [of bs] card_Suc_Diff1 [of "bitems bs" old] by (simp add: bs'(2))
  then have "wf_node sha T d p (inner_of sha bs')"
    using wf_inner_of [OF cf bs'(1)] bs'(2) b(3) u TInner.prems(2) by auto
  then show ?case using bs'(2) run b(2) by (intro exI [of _ "inner_of sha bs'"]) simp
qed

section \<open>Removing an item\<close>

lemma isemptybranch_iff:
  assumes "wf_branches sha T d p bs" "i < 16"
  shows "isemptybranch bs i \<longleftrightarrow> branch_items (bs ! i) = {}"
  using wf_branchesD(3) [OF assms]
  by (cases rule: branch_cases) (auto simp: isemptybranch_def dest: wf_nonempty node_hash_nz)

definition used :: "branches \<Rightarrow> nat list" where
  "used bs = filter (\<lambda>i. \<not> isemptybranch bs i) [0..<16]"

lemma used_branch:
  assumes "wf_branches sha T d p bs"
  shows "i \<in> set (used bs) \<longleftrightarrow> i < 16 \<and> branch_items (bs ! i) \<noteq> {}"
  using isemptybranch_iff [OF assms] by (auto simp: used_def)

lemma used_child:
  assumes "wf_branches sha T d p bs" "i \<in> set (used bs)"
  obtains c where "i < 16" "bs ! i = (getnodehash c, Some c)" "wf_node sha T (Suc d) (16 * p + i) c"
    "descendthrow (TInner h bs) i = Inr (Some c)"
proof -
  have i: "i < 16" "branch_items (bs ! i) \<noteq> {}" using used_branch [OF assms(1)] assms(2) by simp_all
  from wf_branchesD(3) [OF assms(1) i(1)] show thesis
  proof (cases rule: branch_cases)
    case (child c)
    then show thesis using that i(1) wf_branchesD(2) [OF assms(1)] by (simp add: descendthrow_child)
  qed (use i in simp)
qed

lemma bitems_used:
  assumes "wf_branches sha T d p bs"
  shows "bitems bs = (\<Union>i\<in>set (used bs). branch_items (bs ! i))"
  unfolding bitems_nth [OF wf_branchesD(2) [OF assms]] using used_branch [OF assms] by blast

lemma onlybelow_inner:
  "onlybelow (TInner h bs) = (case used bs of [] \<Rightarrow> Inl Assertion_failed
     | i # js \<Rightarrow> rbind (descendthrow (TInner h bs) i) (\<lambda>p. if js \<noteq> [] then Inr None
         else case p of None \<Rightarrow> Inl Undefined_behaviour | Some node \<Rightarrow> onlybelow node))"
  by (simp add: used_def)

declare onlybelow.simps(2) [simp del]

lemma onlybelow_wf: "wf_node sha T d p t \<Longrightarrow> onlybelow t = Inr (peekitem_node t)"
proof (induction t arbitrary: d p)
  case (TInner h bs)
  then have b: "wf_branches sha T d p bs" "2 \<le> card (bitems bs)" by (simp_all add: wf_node_inner)
  then have "used bs \<noteq> []" using bitems_used [OF b(1)] by auto
  then obtain i js where u: "used bs = i # js" by (cases "used bs") auto
  then obtain c where c: "i < 16" "bs ! i = (getnodehash c, Some c)" "wf_node sha T (Suc d) (16 * p + i) c"
    "descendthrow (TInner h bs) i = Inr (Some c)"
    using used_child [OF b(1), of i] by auto
  show ?case
  proof (cases "js = []")
    case True
    then have "2 \<le> card (items c)" using bitems_used [OF b(1)] u c(2) b(2) by simp
    then have "peekitem_node c = None" by (cases c) auto
    then show ?thesis
      using TInner.IH [OF child_mem [OF b(1) c(2,1)] c(3)] u c(4) True by (simp add: onlybelow_inner)
  qed (use u c(4) in \<open>simp add: onlybelow_inner\<close>)
qed simp

lemma first_branch_used: "first_branch bs [0..<16] = (case used bs of [] \<Rightarrow> None | i # _ \<Rightarrow> Some i)"
proof -
  have "find P xs = (case filter P xs of [] \<Rightarrow> None | i # _ \<Rightarrow> Some i)" for P :: "nat \<Rightarrow> bool" and xs
    by (induction xs) simp_all
  then show ?thesis by (simp add: first_branch_def used_def)
qed

lemma distinct_singleton: "distinct xs \<Longrightarrow> set xs = {x} \<Longrightarrow> xs = [x]"
  by (cases xs; cases "tl xs") auto

lemma pull_up_single:
  assumes cf: "collision_free sha T U" and b: "wf_branches sha T d p bs" "bitems bs = {it}" "it \<in> U"
    and T: "isleaf_type T"
  shows "pull_up sha T (inner_of sha bs) = Inr (leaf_of sha T it)" "getbranchcount bs = 1"
proof -
  let ?i = "nib d (mtag it)"
  have bs: "bs = no_branches[?i := (leaf_hash sha T it, Some (leaf_of sha T it))]"
    using single_branches [OF b(1,2)] by (simp add: no_branches_def leaf_of_def)
  have at: "bs ! ?i = (leaf_hash sha T it, Some (leaf_of sha T it))" by (subst bs) simp
  have "distinct (used bs)" "set (used bs) = {?i}"
    using used_branch [OF b(1)] branch_items_nib [OF b(1)] b(2) by (auto simp: used_def [of bs])
  then have u: "used bs = [?i]" by (rule distinct_singleton)
  then show "getbranchcount bs = 1" by (simp add: getbranchcount_def used_def)
  have len: "length bs = 16" using wf_branchesD(2) [OF b(1)] .
  have only: "onlybelow (inner_of sha bs) = Inr (Some it)"
    using u at len by (simp add: onlybelow_inner descendthrow_child leaf_of_def)
  have lh: "leaf_hash sha T it \<noteq> 0"
    using wf_branchesD(3) [OF b(1) nib_less, of d "mtag it"] at by (auto simp: leaf_of_def wf_node_leaf)
  have "no_branches[?i := (0, None)] = no_branches" by (metis list_update_id nib_less no_branches(1))
  then have "bs[?i := (0, None)] = no_branches" by (subst bs) simp
  then have "inner_hash sha (bs[?i := (0, None)]) = 0" by (simp add: inner_hash_def isempty_def list_all_length)
  moreover have "inner_hash sha bs \<noteq> 0" using inner_hash_nz [OF cf b(1)] b(2,3) by simp
  ultimately have "setchild sha (inner_of sha bs) ?i 0 None = Inr (True, TInner 0 (bs[?i := (0, None)]))"
    using at lh by simp
  then show "pull_up sha T (inner_of sha bs) = Inr (leaf_of sha T it)"
    by (simp add: pull_up_def only first_branch_used u setitem_leaf [OF T])
qed

lemma collapse_ok:
  assumes cf: "collision_free sha T U" and b: "wf_branches sha T d p bs" "bitems bs \<noteq> {}" "bitems bs \<subseteq> U"
    and T: "isleaf_type T"
  shows "\<exists>t. collapse sha T (inner_of sha bs) = Inr (Some t) \<and> wf_node sha T d p t \<and> items t = bitems bs"
proof (cases "2 \<le> card (bitems bs)")
  case True
  then have w: "wf_node sha T d p (inner_of sha bs)" by (rule wf_inner_of [OF cf b(1,3)])
  have "used bs \<noteq> []" using b(2) bitems_used [OF b(1)] by auto
  then have "getbranchcount bs \<noteq> 0" by (simp add: getbranchcount_def used_def)
  then have "collapse sha T (inner_of sha bs) = Inr (Some (inner_of sha bs))"
    using onlybelow_wf [OF w] node_hash_nz [OF w] by (simp add: collapse_def pull_up_def Let_def)
  then show ?thesis using w by auto
next
  case False
  then have "card (bitems bs) = 1"
    using b(2) finite_bitems [of bs] card_gt_0_iff [of "bitems bs"] by linarith
  then obtain it where it: "bitems bs = {it}" using card_1_singletonE by blast
  have i: "pre d (mtag it) = p" "item_ok sha T it"
    using branch_of_item [OF b(1) nib_less, of it d "mtag it"] branch_items_nib [OF b(1) nib_less] it by auto
  have "d \<le> 64" using wf_branchesD(1) [OF b(1)] by simp
  then have w: "wf_node sha T d p (leaf_of sha T it)" using leaf_of_wf_here i leaf_hash_nz [OF cf] b(3) it by blast
  then have "collapse sha T (inner_of sha bs) = Inr (Some (leaf_of sha T it))"
    using pull_up_single [OF cf b(1) it _ T] node_hash_nz [OF w] b(3) it by (simp add: collapse_def Let_def)
  then show ?thesis using w it by auto
qed


lemma del_branch:
  assumes cf: "collision_free sha T U" and b: "wf_branches sha T d p bs" "bitems bs \<subseteq> U"
    and c: "bs ! nib d (mtag it) = (getnodehash c, Some c)" "it \<in> items c" "items c \<subseteq> bitems bs"
    and r: "wf_branch sha T (Suc d) (16 * p + nib d (mtag it)) (opt_hash r, r)" "opt_items r = items c - {it}"
  defines "bs' \<equiv> put_branch bs (nib d (mtag it)) r"
  shows "wf_branches sha T d p bs'" "bitems bs' = bitems bs - {it}"
    "setchild sha (inner_of sha bs) (nib d (mtag it)) (opt_hash r) r = Inr (True, inner_of sha bs')"
proof -
  show "wf_branches sha T d p bs'" unfolding bs'_def by (rule put_branch_wf(1) [OF b(1) nib_less r(1)])
  have "bitems bs - items c \<union> (items c - {it}) = bitems bs - {it}" using c(2,3) by blast
  then show "bitems bs' = bitems bs - {it}"
    unfolding bs'_def put_branch_wf(2) [OF b(1) nib_less r(1)] using c(1) r(2) by simp
  have "opt_items r \<subseteq> U" unfolding r(2) using c(3) b(2) by blast
  moreover have "opt_items r \<noteq> branch_items (bs ! nib d (mtag it))" using r(2) c(1,2) by auto
  ultimately show "setchild sha (inner_of sha bs) (nib d (mtag it)) (opt_hash r) r = Inr (True, inner_of sha bs')"
    unfolding bs'_def using setchild_changed [OF cf b(1) nib_less r(1)] b(2) by blast
qed

definition del_result :: "hash \<Rightarrow> uint256 \<Rightarrow> tntype \<Rightarrow> stack \<Rightarrow> shamaptreenode option
    \<Rightarrow> (bool \<times> shamaptreenode option) res" where
  "del_result sha k T st r = rbind (del_loop sha k T st r) (\<lambda>r. Inr (True, r))"

lemma del_node:
  assumes cf: "collision_free sha T U" and T: "isleaf_type T"
  shows "wf_node sha T d p t \<Longrightarrow> 0 < d \<Longrightarrow> items t \<subseteq> U \<Longrightarrow> it \<in> items t \<Longrightarrow>
    \<exists>r. wf_branch sha T d p (opt_hash r, r) \<and> opt_items r = items t - {it} \<and>
      (\<forall>nid st. mdepth nid = d \<longrightarrow>
         rbind (getstack_loop True (mtag it) t nid st) (del_stack sha (mtag it)) = del_result sha (mtag it) T st r)"
proof (induction t arbitrary: d p)
  case (TLeaf h ty x)
  then show ?case by (intro exI [of _ None]) (simp add: wf_node_leaf del_result_def)
next
  case (TInner h bs)
  have b: "wf_branches sha T d p bs" "h = inner_hash sha bs" "2 \<le> card (bitems bs)" "bitems bs \<subseteq> U" "it \<in> bitems bs"
    using TInner.prems by (simp_all add: wf_node_inner)
  obtain c where c: "bs ! nib d (mtag it) = (getnodehash c, Some c)"
    "wf_node sha T (Suc d) (16 * p + nib d (mtag it)) c" "it \<in> items c" "items c \<subseteq> bitems bs"
    using item_branch [OF b(1,5)] by metis
  have cu: "items c \<subseteq> U" using c(4) b(4) by blast
  obtain r where r: "wf_branch sha T (Suc d) (16 * p + nib d (mtag it)) (opt_hash r, r)" "opt_items r = items c - {it}"
    and run: "\<And>nid st. mdepth nid = Suc d \<Longrightarrow>
         rbind (getstack_loop True (mtag it) c nid st) (del_stack sha (mtag it)) = del_result sha (mtag it) T st r"
    using TInner.IH [OF child_mem [OF b(1) c(1) nib_less] c(2) _ cu c(3)] by auto
  note q = del_branch [OF cf b(1,4) c(1,3,4) r]
  have "bitems (put_branch bs (nib d (mtag it)) r) \<noteq> {}"
    unfolding q(2) using wf_inner_not_single [OF TInner.prems(1), of it] b(5) by blast
  then obtain t where t: "collapse sha T (inner_of sha (put_branch bs (nib d (mtag it)) r)) = Inr (Some t)"
    "wf_node sha T d p t" "items t = bitems bs - {it}"
    using collapse_ok [OF cf q(1) _ _ T] q(2) b(4) by blast
  have "rbind (getstack_loop True (mtag it) (TInner h bs) nid st) (del_stack sha (mtag it)) = del_result sha (mtag it) T st (Some t)"
    if nid: "mdepth nid = d" for nid st
  proof -
    obtain nid' where n: "mdepth nid' = Suc d"
      "\<And>st. getstack_loop True (mtag it) (TInner h bs) nid st = getstack_loop True (mtag it) c nid' ((TInner h bs, nid) # st)"
      using getstack_child_branch [OF b(1) nid c(1) node_hash_nz [OF c(2)]] by metis
    have "\<not> isroot nid" using nid TInner.prems(2) by (simp add: isroot_def)
    then show ?thesis
      unfolding n(2) run [OF n(1)] del_result_def using q(3) t(1) nid wf_branchesD(1) [OF b(1)] b(2) by simp
  qed
  then show ?case using t(2,3) by (intro exI [of _ "Some t"]) simp
qed

lemma del_root:
  assumes cf: "collision_free sha T U" and T: "isleaf_type T" and b: "wf_branches sha T 0 0 bs" "bitems bs \<subseteq> U"
    and it: "it \<in> bitems bs"
  shows "\<exists>bs'. wf_branches sha T 0 0 bs' \<and> bitems bs' = bitems bs - {it} \<and>
    rbind (getstack_loop True (mtag it) (inner_of sha bs) root_id []) (del_stack sha (mtag it))
      = Inr (True, Some (inner_of sha bs'))"
proof -
  have r0: "mdepth root_id = 0" "isroot root_id" by (simp_all add: root_id_def isroot_def)
  obtain c where c: "bs ! nib 0 (mtag it) = (getnodehash c, Some c)"
    "wf_node sha T (Suc 0) (16 * 0 + nib 0 (mtag it)) c" "it \<in> items c" "items c \<subseteq> bitems bs"
    using item_branch [OF b(1) it] by metis
  have cu: "items c \<subseteq> U" using c(4) b(2) by blast
  obtain r where r: "wf_branch sha T (Suc 0) (16 * 0 + nib 0 (mtag it)) (opt_hash r, r)" "opt_items r = items c - {it}"
    and run: "\<And>nid st. mdepth nid = Suc 0 \<Longrightarrow>
         rbind (getstack_loop True (mtag it) c nid st) (del_stack sha (mtag it)) = del_result sha (mtag it) T st r"
    using del_node [OF cf T c(2) _ cu c(3)] by auto
  note q = del_branch [OF cf b c(1,3,4) r]
  obtain nid' where n: "mdepth nid' = Suc 0"
    "\<And>st. getstack_loop True (mtag it) (inner_of sha bs) root_id st = getstack_loop True (mtag it) c nid' ((inner_of sha bs, root_id) # st)"
    using getstack_child_branch [OF b(1) r0(1) c(1) node_hash_nz [OF c(2)]] by metis
  have "rbind (getstack_loop True (mtag it) (inner_of sha bs) root_id []) (del_stack sha (mtag it))
      = Inr (True, Some (inner_of sha (put_branch bs (nib 0 (mtag it)) r)))"
    unfolding n(2) run [OF n(1)] del_result_def using q(3) r0 by simp
  then show ?thesis using q(1,2) by blast
qed

section \<open>Looking an item up\<close>

text \<open>
  Where the walk towards a key ends: \<open>lookup\<close> says that the node on top of the stack is the leaf of the item with
  that key if there is one, and no such leaf otherwise, and that \<^verbatim>\<open>walkToPointer\<close> returns it.
\<close>

definition lookup :: "hash \<Rightarrow> tntype \<Rightarrow> uint256 \<Rightarrow> shamapitem set \<Rightarrow> stack res \<Rightarrow> shamaptreenode option res \<Rightarrow> bool" where
  "lookup sha T k S found walked \<longleftrightarrow>
     (\<exists>n nid st. found = Inr ((n, nid) # st) \<and>
       (\<forall>it\<in>S. mtag it = k \<longrightarrow> n = leaf_of sha T it \<and> walked = Inr (Some n)) \<and>
       (k \<notin> mtag ` S \<longrightarrow> (\<forall>it. peekitem_node n = Some it \<longrightarrow> mtag it \<noteq> k) \<and> walked = Inr None))"

lemma lookup_branches:
  assumes b: "wf_branches sha T d p bs" and nid: "mdepth nid = d"
    and child: "\<And>c nid st. wf_node sha T (Suc d) (16 * p + nib d k) c \<Longrightarrow> bs ! nib d k = (getnodehash c, Some c) \<Longrightarrow>
      mdepth nid = Suc d \<Longrightarrow> lookup sha T k (items c) (getstack_loop True k c nid st) (walk_loop k c nid)"
  shows "lookup sha T k (bitems bs) (getstack_loop True k (TInner h bs) nid st) (walk_loop k (TInner h bs) nid)"
proof -
  have here: "it \<in> branch_items (bs ! nib d k)" if "it \<in> bitems bs" "mtag it = k" for it
    using branch_items_nib [OF b nib_less, of d k] that by auto
  from wf_branchesD(3) [OF b nib_less, of d k] show ?thesis
  proof (cases rule: branch_cases)
    case empty
    then have "k \<notin> mtag ` bitems bs" using here by auto
    moreover have "walk_loop k (TInner h bs) nid = Inr None"
      using empty nid wf_branchesD(1) [OF b] by (simp add: isemptybranch_def)
    ultimately show ?thesis
      using getstack_empty_branch [OF b nid empty] by (auto simp: lookup_def)
  next
    case (child c)
    obtain nid' where n: "mdepth nid' = Suc d"
      "\<And>st. getstack_loop True k (TInner h bs) nid st = getstack_loop True k c nid' ((TInner h bs, nid) # st)"
      "walk_loop k (TInner h bs) nid = walk_loop k c nid'"
      using getstack_child_branch [OF b nid child(1) node_hash_nz [OF child(2)], of True h] by metis
    have sub: "items c \<subseteq> bitems bs" using branch_subset [OF b nib_less, of d k] child(1) by simp
    have "it \<in> items c" if "it \<in> bitems bs" "mtag it = k" for it using here [OF that] child(1) by simp
    moreover have "lookup sha T k (items c) (getstack_loop True k c nid' ((TInner h bs, nid) # st)) (walk_loop k c nid')"
      by (rule assms(3) [OF child(2,1) n(1)])
    ultimately show ?thesis unfolding n(2,3) lookup_def using sub by blast
  qed
qed

lemma lookup_node:
  "wf_node sha T d p t \<Longrightarrow> mdepth nid = d \<Longrightarrow>
    lookup sha T k (items t) (getstack_loop True k t nid st) (walk_loop k t nid)"
proof (induction t arbitrary: d p nid st)
  case (TLeaf h ty it)
  then show ?case by (auto simp: lookup_def wf_node_leaf leaf_of_def)
next
  case (TInner h bs)
  then have b: "wf_branches sha T d p bs" by (simp add: wf_node_inner)
  show ?case unfolding items_inner
    by (rule lookup_branches [OF b TInner.prems(2)], rule TInner.IH [OF child_mem [OF b _ nib_less]]) auto
qed

lemma lookup_root:
  assumes b: "wf_branches sha T 0 0 bs"
  shows "lookup sha T k (bitems bs) (getstack_loop True k (TInner h bs) root_id st) (walk_loop k (TInner h bs) root_id)"
  by (rule lookup_branches [OF b]) (auto simp: root_id_def intro: lookup_node)

end
