(* ===== verification/Sha_Refine.thy ===== *)
theory Sha_Refine
  imports Sha_Del
begin

text \<open>
  The hash tree implements a map from tags to data: what a lookup returns is the abstraction of a tree, and
  adding, changing and removing an item are the updates of a map.
\<close>

section \<open>The map a tree stands for\<close>

definition map_ok :: "hash \<Rightarrow> tntype \<Rightarrow> shamapitem set \<Rightarrow> shamap \<Rightarrow> bool" where
  "map_ok sha T U m \<longleftrightarrow> wf_root sha T (root m) \<and> items (root m) \<subseteq> U"

text \<open>The state in which items may be added and changed; to remove one it is enough that the map is not immutable.\<close>

definition writable :: "shamap \<Rightarrow> bool" where
  "writable m \<longleftrightarrow> mstate m \<noteq> smsimmutable \<and> mstate m \<noteq> smssynching"

definition content :: "shamap \<Rightarrow> uint256 \<Rightarrow> blob option" where
  "content m k = (case peekitem m k of Inr (Some it) \<Rightarrow> Some (mdata it) | _ \<Rightarrow> None)"

lemma wf_rootE:
  assumes "wf_root sha T t"
  obtains bs where "t = inner_of sha bs" "wf_branches sha T 0 0 bs" "items t = bitems bs"
  using assms by (cases t) (auto simp: wf_root_def)

lemma wf_root_inner [simp]: "wf_root sha T (inner_of sha bs) \<longleftrightarrow> wf_branches sha T 0 0 bs"
  by (simp add: wf_root_def)

lemma root_tags: "wf_root sha T t \<Longrightarrow> inj_on mtag (items t)"
  by (erule wf_rootE) (simp add: branches_tags wf_tags)

lemma root_lookup:
  assumes "wf_root sha T t"
  shows "lookup sha T k (items t) (getstack_loop True k t root_id []) (walk_loop k t root_id)"
proof (rule wf_rootE [OF assms])
  fix bs
  assume bs: "t = inner_of sha bs" "wf_branches sha T 0 0 bs" "items t = bitems bs"
  show ?thesis unfolding bs(3) unfolding bs(1) by (rule lookup_root [OF bs(2)])
qed

lemma walk_root:
  assumes "wf_root sha T (root m)"
  shows "it \<in> items (root m) \<Longrightarrow> walktopointer m (mtag it) = Inr (Some (leaf_of sha T it))"
    and "k \<notin> mtag ` items (root m) \<Longrightarrow> walktopointer m k = Inr None"
  using root_lookup [OF assms, of "mtag it"] root_lookup [OF assms, of k]
  unfolding lookup_def walktopointer_def by blast+

lemma peekitem_root:
  assumes "wf_root sha T (root m)"
  shows "it \<in> items (root m) \<Longrightarrow> peekitem m (mtag it) = Inr (Some it) \<and> hasitem m (mtag it) = Inr True"
    and "k \<notin> mtag ` items (root m) \<Longrightarrow> peekitem m k = Inr None \<and> hasitem m k = Inr False"
  using walk_root(1) [OF assms, of it] walk_root(2) [OF assms, of k] by (simp_all add: peekitem_def hasitem_def leaf_of_def)

lemma peekitem_ok:
  assumes "wf_root sha T (root m)"
  obtains (some) it where "it \<in> items (root m)" "mtag it = k" "peekitem m k = Inr (Some it)" "content m k = Some (mdata it)"
  | (none) "k \<notin> mtag ` items (root m)" "peekitem m k = Inr None" "content m k = None"
proof (cases "k \<in> mtag ` items (root m)")
  case True
  then obtain it where it: "it \<in> items (root m)" "mtag it = k" by auto
  then have "peekitem m k = Inr (Some it)" using peekitem_root(1) [OF assms it(1)] by blast
  then show thesis using some [OF it] by (simp add: content_def)
next
  case False
  then have "peekitem m k = Inr None" using peekitem_root(2) [OF assms] by blast
  then show thesis using none [OF False] by (simp add: content_def)
qed

lemma peekitem_found:
  assumes "wf_root sha T (root m)"
  shows "\<exists>r. peekitem m k = Inr r \<and> hasitem m k = Inr (r \<noteq> None) \<and> (\<forall>x. r = Some x \<longrightarrow> mtag x = k) \<and>
    content m k = map_option mdata r"
  by (rule peekitem_ok [OF assms, of k]) (use peekitem_root [OF assms] in force)+

lemma content_items:
  assumes "wf_root sha T (root m)"
  shows "content m k = Some v \<longleftrightarrow> \<lparr>mtag = k, mdata = v\<rparr> \<in> items (root m)"
proof (rule peekitem_ok [OF assms, of k])
  fix it
  assume it: "it \<in> items (root m)" "mtag it = k" "content m k = Some (mdata it)"
  have "x = it" if "x \<in> items (root m)" "mtag x = k" for x
    using inj_onD [OF root_tags [OF assms]] that it(1,2) by blast
  then have "\<lparr>mtag = k, mdata = v\<rparr> \<in> items (root m) \<longleftrightarrow> \<lparr>mtag = k, mdata = v\<rparr> = it" using it(1) by auto
  also have "\<dots> \<longleftrightarrow> mdata it = v" using it(2) by (cases it) auto
  finally show ?thesis using it(3) by simp
next
  assume "k \<notin> mtag ` items (root m)" "content m k = None"
  then show ?thesis by force
qed

lemma content_ext:
  assumes "\<And>v. content m k = Some v \<longleftrightarrow> f = Some v"
  shows "content m k = f"
  using assms by (cases f; cases "content m k") auto

lemma content_put:
  assumes w: "wf_root sha T (root m)" "wf_root sha T (root m')"
    and its: "items (root m') = insert it {x \<in> items (root m). mtag x \<noteq> mtag it}"
  shows "content m' = (content m)(mtag it \<mapsto> mdata it)"
proof
  fix k
  show "content m' k = ((content m)(mtag it \<mapsto> mdata it)) k"
  proof (rule content_ext)
    fix v
    show "content m' k = Some v \<longleftrightarrow> ((content m)(mtag it \<mapsto> mdata it)) k = Some v"
      unfolding content_items [OF w(2), of k v] its
      using content_items [OF w(1), of k v] by (cases "k = mtag it"; cases it) auto
  qed
qed

lemma content_remove:
  assumes w: "wf_root sha T (root m)" "wf_root sha T (root m')"
    and its: "items (root m') = {x \<in> items (root m). mtag x \<noteq> k}"
  shows "content m' = (content m)(k := None)"
proof
  fix l
  show "content m' l = ((content m)(k := None)) l"
  proof (rule content_ext)
    fix v
    show "content m' l = Some v \<longleftrightarrow> ((content m)(k := None)) l = Some v"
      unfolding content_items [OF w(2), of l v] its
      using content_items [OF w(1), of l v] by auto
  qed
qed

lemma content_none:
  "wf_root sha T (root m) \<Longrightarrow> content m k = None \<longleftrightarrow> k \<notin> mtag ` items (root m)"
  by (rule peekitem_ok [of sha T m k]) auto

section \<open>Operations at the root\<close>

lemma add_root:
  assumes cf: "collision_free sha T U" and T: "isleaf_type T" and ok: "item_ok sha T it" and u: "it \<in> U"
    and b: "wf_branches sha T 0 0 bs" "bitems bs \<subseteq> U" and fresh: "mtag it \<notin> mtag ` bitems bs"
  shows "\<exists>bs'. wf_branches sha T 0 0 bs' \<and> bitems bs' = insert it (bitems bs) \<and>
    rbind (getstack_loop True (mtag it) (inner_of sha bs) root_id []) (add_stack sha s T it) = result sha s (mtag it) [] (inner_of sha bs')"
proof -
  have "\<exists>bs'. wf_branches sha T 0 0 bs' \<and> bitems bs' = insert it (bitems bs) \<and>
    (\<forall>nid st. mdepth nid = 0 \<longrightarrow> rbind (getstack_loop True (mtag it) (inner_of sha bs) nid st) (add_stack sha s T it)
         = result sha s (mtag it) st (inner_of sha bs'))"
  proof (rule add_branches [OF cf T ok b(1) _ fresh u b(2)])
    fix c
    assume c: "wf_node sha T (Suc 0) (16 * 0 + nib 0 (mtag it)) c" "items c \<subseteq> bitems bs"
    have "mtag it \<notin> mtag ` items c" "items c \<subseteq> U" using c(2) fresh b(2) by auto
    then show "\<exists>c'. wf_node sha T (Suc 0) (16 * 0 + nib 0 (mtag it)) c' \<and> items c' = insert it (items c) \<and>
        (\<forall>nid st. mdepth nid = Suc 0 \<longrightarrow>
           rbind (getstack_loop True (mtag it) c nid st) (add_stack sha s T it) = result sha s (mtag it) st c')"
      using add_node [OF cf T ok u c(1)] by (simp add: pre_Suc)
  qed simp
  then show ?thesis by (auto simp: root_id_def)
qed

lemma upd_root:
  assumes cf: "collision_free sha T U" and T: "isleaf_type T" and ok: "item_ok sha T it" and u: "it \<in> U"
    and b: "wf_branches sha T 0 0 bs" "bitems bs \<subseteq> U" and old: "old \<in> bitems bs" "mtag old = mtag it" "it \<noteq> old"
  shows "\<exists>bs'. wf_branches sha T 0 0 bs' \<and> bitems bs' = insert it (bitems bs - {old}) \<and>
    rbind (getstack_loop True (mtag it) (inner_of sha bs) root_id []) (upd_stack sha s T it) = result sha s (mtag it) [] (inner_of sha bs')"
proof -
  have "\<exists>bs'. wf_branches sha T 0 0 bs' \<and> bitems bs' = insert it (bitems bs - {old}) \<and>
    (\<forall>nid st. mdepth nid = 0 \<longrightarrow> rbind (getstack_loop True (mtag it) (inner_of sha bs) nid st) (upd_stack sha s T it)
         = result sha s (mtag it) st (inner_of sha bs'))"
    by (rule upd_branches [OF cf b u old]) (rule upd_node [OF cf T ok u old(2,3)])
  then show ?thesis by (auto simp: root_id_def)
qed

section \<open>Operations on the map\<close>

lemma leaf_type_leaf: "isleaf_type (leaf_type a b)"
  by (simp add: leaf_type_def isleaf_type_def)

lemma result_top: "writable m \<Longrightarrow> result sha (mstate m) k [] n = Inr (Some n)"
  by (simp add: result_def dirtyup_def writable_def)

lemma put_back: "wf_root sha T t \<Longrightarrow> items t \<subseteq> U \<Longrightarrow> map_ok sha T U (m\<lparr>root := t\<rparr>)"
  by (simp add: map_ok_def)

lemma add_new:
  assumes cf: "collision_free sha (leaf_type a b) U" and m: "map_ok sha (leaf_type a b) U m"
    and it: "it \<in> U" "item_ok sha (leaf_type a b) it" and wr: "writable m" and new: "content m (mtag it) = None"
  shows "\<exists>m'. addgiveitem sha m it a b = Inr (True, m') \<and> map_ok sha (leaf_type a b) U m' \<and>
    mstate m' = mstate m \<and> content m' = (content m)(mtag it \<mapsto> mdata it)"
proof -
  let ?T = "leaf_type a b"
  have w: "wf_root sha ?T (root m)" "items (root m) \<subseteq> U" using m by (simp_all add: map_ok_def)
  have fresh: "mtag it \<notin> mtag ` items (root m)" using new content_none [OF w(1)] by simp
  obtain bs where bs: "root m = inner_of sha bs" "wf_branches sha ?T 0 0 bs" "items (root m) = bitems bs"
    using w(1) by (rule wf_rootE)
  obtain bs' where bs': "wf_branches sha ?T 0 0 bs'" "bitems bs' = insert it (bitems bs)"
    and run: "rbind (getstack_loop True (mtag it) (inner_of sha bs) root_id []) (add_stack sha (mstate m) ?T it) = Inr (Some (inner_of sha bs'))"
    using add_root [OF cf leaf_type_leaf it(2,1) bs(2), of "mstate m"] w(2) fresh bs(3) result_top [OF wr] by auto
  let ?m = "m\<lparr>root := inner_of sha bs'\<rparr>"
  have "map_ok sha ?T U ?m" using bs' w it bs(3) by (intro put_back) simp_all
  moreover have "addgiveitem sha m it a b = Inr (True, ?m)"
    using run wr bs(1) by (auto simp: writable_def addgiveitem_def getstack_def rbind_eq_Inr_iff)
  moreover have "content ?m = (content m)(mtag it \<mapsto> mdata it)"
    by (rule content_put [OF w(1)]) (use bs' bs(3) fresh in \<open>auto simp: image_iff\<close>)
  ultimately show ?thesis by auto
qed

lemma stack_hit:
  assumes "wf_root sha T (root m)" "it \<in> items (root m)"
  shows "\<exists>nid st. getstack m (mtag it) True = Inr ((leaf_of sha T it, nid) # st)"
  using root_lookup [OF assms(1), of "mtag it"] assms(2) unfolding lookup_def getstack_def by blast

lemma stack_miss:
  assumes "wf_root sha T (root m)" "k \<notin> mtag ` items (root m)"
  shows "\<exists>n nid st. getstack m k True = Inr ((n, nid) # st) \<and> (\<forall>it. peekitem_node n = Some it \<longrightarrow> mtag it \<noteq> k)"
  using root_lookup [OF assms(1), of k] assms(2) unfolding lookup_def getstack_def by blast

lemma content_hit:
  assumes "wf_root sha T (root m)" "content m k = Some v"
  shows "\<lparr>mtag = k, mdata = v\<rparr> \<in> items (root m)"
  using content_items [OF assms(1)] assms(2) by blast

lemma add_old:
  assumes "map_ok sha T U m" "mstate m \<noteq> smsimmutable" "content m (mtag it) = Some v"
  shows "addgiveitem sha m it a b = Inr (False, m)"
proof -
  let ?o = "\<lparr>mtag = mtag it, mdata = v\<rparr>"
  have w: "wf_root sha T (root m)" using assms(1) by (simp add: map_ok_def)
  obtain nid st where "getstack m (mtag ?o) True = Inr ((leaf_of sha T ?o, nid) # st)"
    using stack_hit [OF w content_hit [OF w assms(3)]] by blast
  then show ?thesis using assms(2) by (simp add: addgiveitem_def leaf_of_def)
qed

lemma upd_missing:
  assumes "map_ok sha T U m" "content m (mtag it) = None"
  shows "updategiveitem sha m it a b = Inl Assertion_failed"
proof -
  have w: "wf_root sha T (root m)" using assms(1) by (simp add: map_ok_def)
  have "mtag it \<notin> mtag ` items (root m)" using content_none [OF w] assms(2) by simp
  then obtain n nid st where n: "getstack m (mtag it) True = Inr ((n, nid) # st)"
      "\<forall>x. peekitem_node n = Some x \<longrightarrow> mtag x \<noteq> mtag it"
    using stack_miss [OF w] by blast
  then show ?thesis by (cases n) (simp_all add: updategiveitem_def rassert_def)
qed

lemma upd_old:
  assumes cf: "collision_free sha (leaf_type a b) U" and m: "map_ok sha (leaf_type a b) U m"
    and it: "it \<in> U" "item_ok sha (leaf_type a b) it" and wr: "writable m" and old: "content m (mtag it) = Some v"
  shows "\<exists>m'. updategiveitem sha m it a b = Inr (True, m') \<and> map_ok sha (leaf_type a b) U m' \<and>
    mstate m' = mstate m \<and> content m' = (content m)(mtag it \<mapsto> mdata it)"
proof -
  let ?T = "leaf_type a b" and ?o = "\<lparr>mtag = mtag it, mdata = v\<rparr>"
  have w: "wf_root sha ?T (root m)" "items (root m) \<subseteq> U" using m by (simp_all add: map_ok_def)
  have o: "?o \<in> items (root m)" by (rule content_hit [OF w(1) old])
  show ?thesis
  proof (cases "it = ?o")
    case True
    then have "it \<in> items (root m)" using o by simp
    then obtain nid st where "getstack m (mtag it) True = Inr ((leaf_of sha ?T it, nid) # st)"
      using stack_hit [OF w(1)] by blast
    then have "updategiveitem sha m it a b = Inr (True, m)"
      using wr setitem_leaf [OF leaf_type_leaf, of sha "leaf_of sha ?T it" it a b] by (simp add: writable_def updategiveitem_def leaf_of_def)
    moreover have "mdata it = v" using True by (cases it) simp
    then have "content m = (content m)(mtag it \<mapsto> mdata it)" using old by (auto simp: fun_eq_iff)
    ultimately show ?thesis using m by auto
  next
    case False
    obtain bs where bs: "root m = inner_of sha bs" "wf_branches sha ?T 0 0 bs" "items (root m) = bitems bs"
      using w(1) by (rule wf_rootE)
    obtain bs' where bs': "wf_branches sha ?T 0 0 bs'" "bitems bs' = insert it (bitems bs - {?o})"
      and run: "rbind (getstack_loop True (mtag it) (inner_of sha bs) root_id []) (upd_stack sha (mstate m) ?T it) = Inr (Some (inner_of sha bs'))"
      using upd_root [OF cf leaf_type_leaf it(2,1) bs(2), where s = "mstate m" and old = ?o] w(2) o bs(3) False result_top [OF wr] by auto
    let ?m = "m\<lparr>root := inner_of sha bs'\<rparr>"
    have "map_ok sha ?T U ?m" using bs' w it bs(3) by (intro put_back) auto
    moreover have "updategiveitem sha m it a b = Inr (True, ?m)"
      using run wr bs(1) by (auto simp: writable_def updategiveitem_def getstack_def rbind_eq_Inr_iff)
    moreover have "{x \<in> items (root m). mtag x \<noteq> mtag it} = items (root m) - {?o}"
      using inj_onD [OF root_tags [OF w(1)] _ _ o] by auto
    then have "content ?m = (content m)(mtag it \<mapsto> mdata it)"
      by (intro content_put [OF w(1)]) (use bs' bs(3) in simp_all)
    ultimately show ?thesis by auto
  qed
qed

lemma del_missing:
  assumes "map_ok sha T U m" "mstate m \<noteq> smsimmutable" "content m k = None"
  shows "delitem sha m k = Inr (False, m)"
proof -
  have w: "wf_root sha T (root m)" using assms(1) by (simp add: map_ok_def)
  have "k \<notin> mtag ` items (root m)" using content_none [OF w] assms(3) by simp
  then obtain n nid st where n: "getstack m k True = Inr ((n, nid) # st)"
      "\<forall>x. peekitem_node n = Some x \<longrightarrow> mtag x \<noteq> k"
    using stack_miss [OF w] by blast
  then show ?thesis using assms(2) by (cases n) (simp_all add: delitem_def)
qed

lemma del_old:
  assumes cf: "collision_free sha T U" and T: "isleaf_type T" and m: "map_ok sha T U m" "mstate m \<noteq> smsimmutable"
    and old: "content m k = Some v"
  shows "\<exists>m'. delitem sha m k = Inr (True, m') \<and> map_ok sha T U m' \<and> mstate m' = mstate m \<and>
    content m' = (content m)(k := None)"
proof -
  let ?o = "\<lparr>mtag = k, mdata = v\<rparr>"
  have w: "wf_root sha T (root m)" "items (root m) \<subseteq> U" using m by (simp_all add: map_ok_def)
  have o: "?o \<in> items (root m)" by (rule content_hit [OF w(1) old])
  obtain bs where bs: "root m = inner_of sha bs" "wf_branches sha T 0 0 bs" "items (root m) = bitems bs"
    using w(1) by (rule wf_rootE)
  obtain bs' where bs': "wf_branches sha T 0 0 bs'" "bitems bs' = bitems bs - {?o}"
    and run: "rbind (getstack_loop True k (inner_of sha bs) root_id []) (del_stack sha k) = Inr (True, Some (inner_of sha bs'))"
    using del_root [OF cf T bs(2), of ?o] w(2) o bs(3) by auto
  let ?m = "m\<lparr>root := inner_of sha bs'\<rparr>"
  have "map_ok sha T U ?m" using bs' w bs(3) by (intro put_back) auto
  moreover have "delitem sha m k = Inr (True, ?m)"
    using run m(2) bs(1) by (auto simp: delitem_def getstack_def rbind_eq_Inr_iff)
  moreover have "{x \<in> items (root m). mtag x \<noteq> k} = items (root m) - {?o}"
    using inj_onD [OF root_tags [OF w(1)] _ _ o] by auto
  then have "content ?m = (content m)(k := None)"
    by (intro content_remove [OF w(1)]) (use bs' bs(3) in simp_all)
  ultimately show ?thesis by auto
qed

section \<open>The root hash\<close>

lemma root_hash_items:
  assumes cf: "collision_free sha T U" and b: "wf_branches sha T d p bs" "wf_branches sha T d p bs'"
    and u: "bitems bs \<subseteq> U" "bitems bs' \<subseteq> U" and eq: "inner_hash sha bs = inner_hash sha bs'"
  shows "bitems bs = bitems bs'"
proof -
  have "map fst bs = map fst bs'" using inner_hashes_differ [OF cf b u] eq by blast
  then have fst: "fst (bs ! i) = fst (bs' ! i)" if "i < 16" for i
    using that wf_branchesD(2) [OF b(1)] wf_branchesD(2) [OF b(2)] by (metis nth_map)
  have "branch_items (bs ! i) = branch_items (bs' ! i)" if i: "i < 16" for i
    using wf_branchesD(3) [OF b(1) i]
  proof (cases rule: branch_cases)
    case empty
    then show ?thesis
      using fst [OF i] isemptybranch_iff [OF b(2) i] by (simp add: isemptybranch_def)
  next
    case (child c)
    then have "branch_items (bs' ! i) \<noteq> {}"
      using fst [OF i] isemptybranch_iff [OF b(2) i] node_hash_nz [OF child(2)] by (simp add: isemptybranch_def)
    with wf_branchesD(3) [OF b(2) i] obtain c' where
      c': "bs' ! i = (getnodehash c', Some c')" "wf_node sha T (Suc d) (16 * p + i) c'"
      by (cases rule: branch_cases) auto
    have "items c \<subseteq> U" "items c' \<subseteq> U"
      using branch_subset [OF b(1) i] branch_subset [OF b(2) i] child(1) c'(1) u by auto
    then show ?thesis using node_hash_items [OF cf child(2) c'(2)] fst [OF i] child(1) c'(1) by simp
  qed
  then show ?thesis
    by (simp add: bitems_nth [OF wf_branchesD(2) [OF b(1)]] bitems_nth [OF wf_branchesD(2) [OF b(2)]])
qed

lemma same_content:
  assumes w: "wf_root sha T (root m)" "wf_root sha T (root m')"
  shows "content m = content m' \<longleftrightarrow> items (root m) = items (root m')"
proof
  assume "content m = content m'"
  then have "it \<in> items (root m) \<longleftrightarrow> it \<in> items (root m')" for it
    using content_items [OF w(1), of "mtag it" "mdata it"] content_items [OF w(2), of "mtag it" "mdata it"]
    by (cases it) simp
  then show "items (root m) = items (root m')" by blast
next
  assume "items (root m) = items (root m')"
  then show "content m = content m'"
    by (intro ext content_ext) (simp add: content_items [OF w(1)] content_items [OF w(2)])
qed

lemma gethash_content:
  assumes cf: "collision_free sha T U" and m: "map_ok sha T U m" "map_ok sha T U m'"
  shows "gethash m = gethash m' \<longleftrightarrow> content m = content m'" and "content m = content m' \<Longrightarrow> root m = root m'"
proof -
  have w: "wf_root sha T (root m)" "wf_root sha T (root m')" "items (root m) \<subseteq> U" "items (root m') \<subseteq> U"
    using m by (simp_all add: map_ok_def)
  note sc = same_content [OF w(1,2)]
  show r: "content m = content m' \<Longrightarrow> root m = root m'" using wf_root_unique [OF w(1,2)] sc by blast
  obtain bs where bs: "root m = inner_of sha bs" "wf_branches sha T 0 0 bs" "items (root m) = bitems bs"
    using w(1) by (rule wf_rootE)
  obtain bs' where bs': "root m' = inner_of sha bs'" "wf_branches sha T 0 0 bs'" "items (root m') = bitems bs'"
    using w(2) by (rule wf_rootE)
  have "gethash m = gethash m' \<Longrightarrow> items (root m) = items (root m')"
    using root_hash_items [OF cf bs(2) bs'(2)] w(3,4) bs(1,3) bs'(1,3) by (simp add: gethash_def)
  then show "gethash m = gethash m' \<longleftrightarrow> content m = content m'" using sc r by (auto simp: gethash_def)
qed

lemma shamap_new_ok: "map_ok sha T U shamap_new" "content shamap_new = Map.empty" "writable shamap_new"
proof -
  show "writable shamap_new" by (simp add: writable_def shamap_new_def)
  show "map_ok sha T U shamap_new"
    unfolding map_ok_def shamap_new_def using no_branches_wf [of 0] by (simp add: makeinner_empty [of sha])
  have "walk_loop k makeinner root_id = Inr None" for k
    by (simp add: makeinner_def isemptybranch_def root_id_def)
  then show "content shamap_new = Map.empty"
    by (simp add: fun_eq_iff content_def peekitem_def walktopointer_def shamap_new_def)
qed

section \<open>A hash for examples\<close>

text \<open>The position of a string in a list of strings, as a hash: injective on the strings of the list\<close>

definition index_hash :: "blob list \<Rightarrow> blob \<Rightarrow> uint256" where
  "index_hash L s = of_nat (Suc (length (takeWhile (\<lambda>x. x \<noteq> s) L)))"

lemma index_hash_ok:
  assumes "length L < 1000"
  shows "index_hash L s \<noteq> 0" "inj_on (index_hash L) (set L)"
proof -
  have u: "unat (index_hash L x) = Suc (length (takeWhile (\<lambda>y. y \<noteq> x) L))" for x
  proof -
    have "length (takeWhile (\<lambda>y. y \<noteq> x) L) \<le> length L" by (rule length_takeWhile_le)
    then have "Suc (length (takeWhile (\<lambda>y. y \<noteq> x) L)) < 2 ^ LENGTH(256)" using assms by simp
    then show ?thesis unfolding index_hash_def by (simp add: unsigned_of_nat take_bit_eq_mod del: of_nat_Suc)
  qed
  show "index_hash L s \<noteq> 0" using u [of s] by auto
  have "x \<in> set L \<Longrightarrow> L ! length (takeWhile (\<lambda>y. y \<noteq> x) L) = x" for x
    by (induction L) auto
  then show "inj_on (index_hash L) (set L)" by (intro inj_onI) (metis u nat.inject)
qed

definition item_a :: shamapitem where
  "item_a = \<lparr>mtag = 0x1000000000000000000000000000000000000000000000000000000000000000, mdata = replicate 12 1\<rparr>"

definition item_b :: shamapitem where
  "item_b = \<lparr>mtag = 0x2000000000000000000000000000000000000000000000000000000000000000, mdata = replicate 12 2\<rparr>"

definition sample_strings :: "blob list" where
  "sample_strings =
     leaf_string tnaccount_state item_a # leaf_string tnaccount_state item_b #
     inner_string ((replicate 16 0)[1 := 1, 2 := 2]) #
     [inner_string ((replicate 16 0)[b := h]). b \<leftarrow> [0..<16], h \<leftarrow> [1, 2]]"

definition sample_hash :: hash where
  "sample_hash = index_hash sample_strings"

lemma sample_tags: "nib 0 (mtag item_a) = 1" "nib 0 (mtag item_b) = 2"
  by (simp_all add: item_a_def item_b_def nib_def)

lemma sample_ok: "item_ok sha tnaccount_state item_a" "item_ok sha tnaccount_state item_b"
  by (simp_all add: item_ok_def item_a_def item_b_def)

lemma sample_leaves:
  "leaf_hash sample_hash tnaccount_state item_a = 1" "leaf_hash sample_hash tnaccount_state item_b = 2"
proof -
  have "item_a \<noteq> item_b" by (simp add: item_a_def item_b_def)
  then have "leaf_string tnaccount_state item_a \<noteq> leaf_string tnaccount_state item_b"
    using leaf_string_inject [OF sample_ok] by blast
  then show "leaf_hash sample_hash tnaccount_state item_a = 1" "leaf_hash sample_hash tnaccount_state item_b = 2"
    by (simp_all add: leaf_hash_def sample_hash_def index_hash_def sample_strings_def)
qed

lemma pre_eq_nib: "pre (Suc d) k = pre (Suc d) l \<Longrightarrow> d < 64 \<Longrightarrow> nib 0 k = nib 0 l"
  by (induction d) (auto dest: pre_eq_down)

lemma single_node: "wf_node sha T d p c \<Longrightarrow> items c = {it} \<Longrightarrow> c = leaf_of sha T it"
  using wf_inner_not_single by (cases c) (auto simp: wf_node_leaf leaf_of_def)

lemma sample_pair:
  assumes b: "wf_branches sample_hash tnaccount_state d p bs" and its: "bitems bs = {item_a, item_b}"
  shows "map fst bs = (replicate 16 0)[1 := 1, 2 := 2]"
proof (rule nth_equalityI)
  have len: "length bs = 16" and d: "d < 64" using wf_branchesD [OF b] by simp_all
  then show "length (map fst bs) = length ((replicate 16 0)[1 := 1, 2 := (2 :: uint256)])" by simp
  have "item_a \<in> branch_items (bs ! nib d (mtag item_a))" "item_b \<in> branch_items (bs ! nib d (mtag item_b))"
    using branch_items_nib [OF b nib_less] its by auto
  then have "pre d (mtag item_a) = pre d (mtag item_b)"
    using branch_of_item [OF b nib_less] by metis
  then have d0: "d = 0" using pre_eq_nib [of "d - 1" "mtag item_a" "mtag item_b"] d sample_tags by (cases d) auto
  fix i
  assume "i < length (map fst bs)"
  then have i: "i < 16" using len by simp
  have bi: "branch_items (bs ! i) = (if i = 1 then {item_a} else if i = 2 then {item_b} else {})"
    unfolding branch_items_nib [OF b i] its d0 using sample_tags by auto
  show "map fst bs ! i = (replicate 16 0)[1 := 1, 2 := 2] ! i"
    using wf_branchesD(3) [OF b i]
  proof (cases rule: branch_cases)
    case empty
    then have "i \<noteq> 1" "i \<noteq> 2" using bi by (auto split: if_splits)
    then show ?thesis using empty i len by (simp add: nth_list_update)
  next
    case (child c)
    then have "i = 1 \<and> items c = {item_a} \<or> i = 2 \<and> items c = {item_b}"
      using bi wf_nonempty [OF child(2)] by (auto split: if_splits)
    then have "i = 1 \<and> getnodehash c = 1 \<or> i = 2 \<and> getnodehash c = 2"
      using single_node [OF child(2)] sample_leaves by (auto simp: leaf_of_def)
    then show ?thesis using child(1) i len by auto
  qed
qed

lemma single_string:
  assumes "wf_branches sha T d p bs" "bitems bs = {it}"
  shows "map fst bs = (replicate 16 0)[nib d (mtag it) := leaf_hash sha T it]"
  by (subst single_branches [OF assms]) (simp add: map_update)

lemma sample_collision_free: "collision_free sample_hash tnaccount_state {item_a, item_b}"
proof -
  have "inner_string (map fst bs) \<in> set sample_strings"
    if b: "wf_branches sample_hash tnaccount_state d p bs" "bitems bs \<subseteq> {item_a, item_b}" "bitems bs \<noteq> {}" for d p bs
  proof -
    consider "bitems bs = {item_a, item_b}" | it where "bitems bs = {it}" "it \<in> {item_a, item_b}"
      using b(2,3) by blast
    then show ?thesis
    proof cases
      case 1
      then show ?thesis using sample_pair [OF b(1)] by (simp add: sample_strings_def)
    next
      case 2
      have "inner_string ((replicate 16 0)[i := leaf_hash sample_hash tnaccount_state it]) \<in> set sample_strings"
        if "i < 16" for i
        using that 2(2) sample_leaves by (force simp: sample_strings_def)
      then show ?thesis using single_string [OF b(1) 2(1)] nib_less by metis
    qed
  qed
  moreover have "leaf_string tnaccount_state it \<in> set sample_strings" if "it \<in> {item_a, item_b}" for it
    using that by (auto simp: sample_strings_def)
  ultimately have "hashed_strings sample_hash tnaccount_state {item_a, item_b} \<subseteq> set sample_strings"
    unfolding hashed_strings_def by blast
  moreover have "length sample_strings < 1000" by (simp add: sample_strings_def length_concat comp_def sum_list_triv)
  ultimately show ?thesis
    using index_hash_ok [of sample_strings] inj_on_subset unfolding collision_free_def sample_hash_def by blast
qed

section \<open>Properties\<close>

text \<open>
  C2. The hash tree is a map from tags to data. Take a well-formed map of one type of leaf, and a hash that is
  injective and not zero on the strings hashed for trees over the items in use. In every state of the map a
  lookup returns the item with the key it asks for, or nothing. In a map that is neither immutable nor being
  synchronised, adding an item with a new tag succeeds and gives a well-formed map with that entry more,
  and with a tag that is there leaves the map as it is and returns false; changing an item replaces its data, and
  fails the assertion of the code when there is none. In a map that is not immutable, removing an item takes
  its entry away, and returns false without a change when there is none. On an immutable map all
  three fail the assertion of the code.
\<close>

theorem shamap_refines_map:
  assumes "collision_free sha (leaf_type a b) U" "map_ok sha (leaf_type a b) U m"
    and "it \<in> U" "item_ok sha (leaf_type a b) it"
  shows "(\<exists>r. peekitem m k = Inr r \<and> hasitem m k = Inr (r \<noteq> None) \<and> (\<forall>x. r = Some x \<longrightarrow> mtag x = k) \<and>
      content m k = map_option mdata r) \<and>
    (writable m \<longrightarrow> (case content m (mtag it) of
      None \<Rightarrow> (\<exists>m'. addgiveitem sha m it a b = Inr (True, m') \<and> map_ok sha (leaf_type a b) U m' \<and>
          mstate m' = mstate m \<and> content m' = (content m)(mtag it \<mapsto> mdata it)) \<and>
        updategiveitem sha m it a b = Inl Assertion_failed
    | Some v \<Rightarrow> addgiveitem sha m it a b = Inr (False, m) \<and>
        (\<exists>m'. updategiveitem sha m it a b = Inr (True, m') \<and> map_ok sha (leaf_type a b) U m' \<and>
          mstate m' = mstate m \<and> content m' = (content m)(mtag it \<mapsto> mdata it)))) \<and>
    (mstate m \<noteq> smsimmutable \<longrightarrow> (case content m k of
      None \<Rightarrow> delitem sha m k = Inr (False, m)
    | Some v \<Rightarrow> \<exists>m'. delitem sha m k = Inr (True, m') \<and> map_ok sha (leaf_type a b) U m' \<and>
        mstate m' = mstate m \<and> content m' = (content m)(k := None))) \<and>
    (mstate m = smsimmutable \<longrightarrow> addgiveitem sha m it a b = Inl Assertion_failed \<and>
      updategiveitem sha m it a b = Inl Assertion_failed \<and> delitem sha m k = Inl Assertion_failed)"
    (is "?lookup \<and> ?put \<and> ?remove \<and> ?immutable")
proof (intro conjI)
  have w: "wf_root sha (leaf_type a b) (root m)" using assms(2) by (simp add: map_ok_def)
  show ?lookup by (rule peekitem_found [OF w])
  show ?put
    using add_new [OF assms] upd_missing [OF assms(2)] add_old [OF assms(2)] upd_old [OF assms]
    by (simp add: writable_def split: option.split)
  show ?remove using del_missing [OF assms(2)] del_old [OF assms(1) leaf_type_leaf assms(2)] by (simp split: option.split)
  show ?immutable by (simp add: addgiveitem_def updategiveitem_def delitem_def)
qed

theorem shamap_refines_map_witness:
  "collision_free sample_hash tnaccount_state {item_a, item_b} \<and>
   map_ok sample_hash tnaccount_state {item_a, item_b} shamap_new \<and> item_ok sample_hash tnaccount_state item_a \<and>
   (\<exists>m. addgiveitem sample_hash shamap_new item_a False False = Inr (True, m) \<and>
      content m = [0x1000000000000000000000000000000000000000000000000000000000000000 \<mapsto> replicate 12 1] \<and>
      delitem sample_hash shamap_new 7 = Inr (False, shamap_new))"
proof -
  have T: "leaf_type False False = tnaccount_state" by (simp add: leaf_type_def)
  have "item_a \<in> {item_a, item_b}" by simp
  note r = shamap_refines_map [of sample_hash False False "{item_a, item_b}", unfolded T, OF sample_collision_free
      shamap_new_ok(1) this sample_ok(1), of 7]
  have "mstate shamap_new \<noteq> smsimmutable" by (simp add: shamap_new_def)
  then show ?thesis
    using r sample_collision_free shamap_new_ok(1,3) sample_ok(1)
    by (simp add: shamap_new_ok(2)) (auto simp: item_a_def)
qed

text \<open>
  C5. The root hash of a map commits to its contents: for a hash that is injective and not zero on the strings
  hashed for trees over the items in use, two well-formed maps over these items, in whatever state, have the
  same root hash exactly when they hold the same data under the same tags, and then they are the same tree,
  whatever sequence of additions, changes and removals built them.
\<close>

theorem root_hash_commits:
  assumes "collision_free sha T U" "map_ok sha T U m" "map_ok sha T U m'"
  shows "(gethash m = gethash m' \<longleftrightarrow> content m = content m') \<and> (content m = content m' \<longrightarrow> root m = root m')"
  using gethash_content [OF assms] by blast

theorem root_hash_commits_witness:
  "\<exists>m. addgiveitem sample_hash shamap_new item_b False False = Inr (True, m) \<and> gethash m \<noteq> gethash shamap_new"
proof -
  have T: "leaf_type False False = tnaccount_state" by (simp add: leaf_type_def)
  have "content shamap_new (mtag item_b) = None" by (simp add: shamap_new_ok(2))
  then obtain m where m: "addgiveitem sample_hash shamap_new item_b False False = Inr (True, m)"
    "map_ok sample_hash tnaccount_state {item_a, item_b} m" "content m = [mtag item_b \<mapsto> mdata item_b]"
    using add_new [of sample_hash False False "{item_a, item_b}" shamap_new item_b, unfolded T,
        OF sample_collision_free shamap_new_ok(1) _ sample_ok(2) shamap_new_ok(3)] by (auto simp: shamap_new_ok(2))
  have "content m \<noteq> content shamap_new" unfolding m(3) shamap_new_ok(2) by (simp add: fun_eq_iff)
  then have "gethash m \<noteq> gethash shamap_new"
    using root_hash_commits [OF sample_collision_free m(2) shamap_new_ok(1)] by blast
  then show ?thesis using m(1) by blast
qed

end
