(* ===== verification/Sha_Walk.thy ===== *)
theory Sha_Walk
  imports Sha_Refine
begin

text \<open>
  Items in the order of their tags. The first and the next item are found by scanning branches upwards, the last
  and the previous one by scanning them downwards; what the two directions share is the locale
  \<open>scan\<close>, which is interpreted for both.
\<close>

section \<open>One direction\<close>

text \<open>
  The item a scan looks for: among the items \<open>S\<close> that come after the key, the one all others come after.
\<close>

definition is_next :: "(uint256 \<Rightarrow> uint256 \<Rightarrow> bool) \<Rightarrow> uint256 \<Rightarrow> shamapitem set \<Rightarrow> shamapitem option \<Rightarrow> bool" where
  "is_next lt k S r \<longleftrightarrow>
     (case r of
        None \<Rightarrow> \<forall>x\<in>S. \<not> lt k (mtag x)
      | Some it \<Rightarrow> it \<in> S \<and> lt k (mtag it) \<and> (\<forall>x\<in>S. lt k (mtag x) \<longrightarrow> x = it \<or> lt (mtag it) (mtag x)))"

definition is_first :: "(uint256 \<Rightarrow> uint256 \<Rightarrow> bool) \<Rightarrow> shamapitem set \<Rightarrow> shamapitem \<Rightarrow> bool" where
  "is_first lt S it \<longleftrightarrow> it \<in> S \<and> (\<forall>x\<in>S. x = it \<or> lt (mtag it) (mtag x))"

locale scan =
  fixes lt :: "uint256 \<Rightarrow> uint256 \<Rightarrow> bool"
    and before :: "nat \<Rightarrow> nat \<Rightarrow> bool"
    and order :: "nat list"
    and later :: "nat \<Rightarrow> nat list"
    and loop :: "uint256 \<Rightarrow> stack \<Rightarrow> shamapitem option res"
  assumes order: "set order = {..<16}" "sorted_wrt before order"
    and later: "b < 16 \<Longrightarrow> set (later b) = {i. i < 16 \<and> before b i}" "sorted_wrt before (later b)"
    and before: "\<not> before i i" "before i j \<Longrightarrow> \<not> before j i" "i \<noteq> j \<Longrightarrow> before i j \<or> before j i"
    and lt: "\<not> lt k k" "lt k l \<Longrightarrow> lt l m \<Longrightarrow> lt k m"
    and nibs: "d < 64 \<Longrightarrow> pre d k = pre d l \<Longrightarrow> before (nib d k) (nib d l) \<Longrightarrow> lt k l"
    and loop_Nil: "loop k [] = Inr None"
    and loop_leaf: "loop k ((TLeaf h ty it, nid) # st) = (if lt k (mtag it) then Inr (Some it) else loop k st)"
    and loop_none: "mdepth nid < 64 \<Longrightarrow> first_branch bs (later (nib (mdepth nid) k)) = None \<Longrightarrow>
      loop k ((TInner h bs, nid) # st) = loop k st"
    and loop_some: "mdepth nid < 64 \<Longrightarrow> first_branch bs (later (nib (mdepth nid) k)) = Some i \<Longrightarrow>
      descendthrow (TInner h bs) i = Inr (Some c) \<Longrightarrow> below order c = Inr (Some (TLeaf h' ty it)) \<Longrightarrow>
      loop k ((TInner h bs, nid) # st) = Inr (Some it)"
begin

lemma first_branch_Some:
  "first_branch bs xs = Some i \<Longrightarrow> sorted_wrt before xs \<Longrightarrow>
     i \<in> set xs \<and> \<not> isemptybranch bs i \<and> (\<forall>j\<in>set xs. \<not> isemptybranch bs j \<longrightarrow> j = i \<or> before i j)"
  unfolding first_branch_def by (induction xs) (auto split: if_splits)

lemma first_branch_None: "first_branch bs xs = None \<longleftrightarrow> (\<forall>j\<in>set xs. isemptybranch bs j)"
  unfolding first_branch_def by (induction xs) auto

text \<open>Items of an earlier branch come before those of a later one.\<close>

lemma branches_lt:
  assumes "wf_branches sha T d p bs" "x \<in> branch_items (bs ! i)" "y \<in> branch_items (bs ! j)" "i < 16" "j < 16" "before i j"
  shows "lt (mtag x) (mtag y)"
  using branch_of_item [OF assms(1,4,2)] branch_of_item [OF assms(1,5,3)] nibs [of d "mtag x" "mtag y"]
    wf_branchesD(1) [OF assms(1)] assms(6) by auto

lemma first_used:
  assumes b: "wf_branches sha T d p bs" and xs: "set xs \<subseteq> {..<16}" "sorted_wrt before xs"
    and i: "first_branch bs xs = Some i"
    and c: "\<And>c. bs ! i = (getnodehash c, Some c) \<Longrightarrow> wf_node sha T (Suc d) (16 * p + i) c \<Longrightarrow>
      \<exists>it. below order c = Inr (Some (leaf_of sha T it)) \<and> is_first lt (items c) it"
  obtains c it where "descendthrow (TInner h bs) i = Inr (Some c)" "below order c = Inr (Some (leaf_of sha T it))"
    "i \<in> set xs" "is_first lt (\<Union>j\<in>set xs. branch_items (bs ! j)) it" "bs ! i = (getnodehash c, Some c)" "it \<in> items c"
proof -
  note f = first_branch_Some [OF i xs(2)]
  have i16: "i < 16" using f xs(1) by auto
  then have "i \<in> set (used bs)" using f by (simp add: used_def)
  then obtain c where c': "bs ! i = (getnodehash c, Some c)" "wf_node sha T (Suc d) (16 * p + i) c"
    "descendthrow (TInner h bs) i = Inr (Some c)"
    using used_child [OF b] by metis
  obtain it where it: "below order c = Inr (Some (leaf_of sha T it))" "is_first lt (items c) it"
    using assms(5) [OF c'(1,2)] by blast
  have "x = it \<or> lt (mtag it) (mtag x)" if x: "j \<in> set xs" "x \<in> branch_items (bs ! j)" for x j
  proof (cases "j = i")
    case True
    then show ?thesis using it(2) x c'(1) by (auto simp: is_first_def)
  next
    case False
    have j: "j < 16" using x(1) xs(1) by auto
    then have "before i j" using f x False isemptybranch_iff [OF b j] by auto
    then show ?thesis using branches_lt [OF b _ x(2) i16 j, of it] it(2) c'(1) by (simp add: is_first_def)
  qed
  moreover have "it \<in> items c" "i \<in> set xs" using it(2) f by (simp_all add: is_first_def)
  ultimately have "is_first lt (\<Union>j\<in>set xs. branch_items (bs ! j)) it"
    using c'(1) by (auto simp: is_first_def intro!: bexI [of _ i])
  then show thesis using that c' it f \<open>it \<in> items c\<close> by blast
qed

lemma below_node:
  "wf_node sha T d p t \<Longrightarrow> \<exists>it. below order t = Inr (Some (leaf_of sha T it)) \<and> is_first lt (items t) it"
proof (induction t arbitrary: d p)
  case (TLeaf h ty it)
  then show ?case by (auto simp: wf_node_leaf leaf_of_def is_first_def)
next
  case (TInner h bs)
  then have b: "wf_branches sha T d p bs" "2 \<le> card (bitems bs)" by (simp_all add: wf_node_inner)
  then have "used bs \<noteq> []" using bitems_used [OF b(1)] by auto
  then obtain j where "j \<in> set (used bs)" by (cases "used bs") auto
  then have "first_branch bs order \<noteq> None" using first_branch_None [of bs order] order(1) by (auto simp: used_def)
  then obtain i where i: "first_branch bs order = Some i" by blast
  have "\<exists>it. below order c = Inr (Some (leaf_of sha T it)) \<and> is_first lt (items c) it"
    if "bs ! i = (getnodehash c, Some c)" "wf_node sha T (Suc d) (16 * p + i) c" for c
  proof -
    have "i < 16" using first_branch_Some [OF i order(2)] order(1) by auto
    then show ?thesis using TInner.IH [OF child_mem [OF b(1) that(1)] that(2)] by blast
  qed
  moreover have "set order \<subseteq> {..<16}" using order(1) by simp
  ultimately obtain c it where c: "descendthrow (TInner h bs) i = Inr (Some c)"
      "below order c = Inr (Some (leaf_of sha T it))" "is_first lt (\<Union>j\<in>set order. branch_items (bs ! j)) it"
    using first_used [OF b(1) _ order(2) i, where h = h and thesis = thesis] by blast
  have "bitems bs = (\<Union>j\<in>set order. branch_items (bs ! j))"
    using bitems_nth [OF wf_branchesD(2) [OF b(1)]] order(1) by simp
  then show ?case using i c by (intro exI [of _ it]) simp
qed

lemma first_below:
  assumes b: "wf_branches sha T d p bs" and xs: "set xs \<subseteq> {..<16}" "sorted_wrt before xs"
    and i: "first_branch bs xs = Some i"
  shows "\<exists>c it. descendthrow (TInner h bs) i = Inr (Some c) \<and> below order c = Inr (Some (leaf_of sha T it)) \<and>
    is_first lt (\<Union>j\<in>set xs. branch_items (bs ! j)) it"
proof (rule first_used [OF b xs i, of h])
  show "\<exists>it. below order c = Inr (Some (leaf_of sha T it)) \<and> is_first lt (items c) it"
    if "wf_node sha T (Suc d) (16 * p + i) c" for c
    by (rule below_node [OF that])
qed blast

definition finds :: "uint256 \<Rightarrow> nat \<Rightarrow> shamapitem set \<Rightarrow> (shamapnodeid \<Rightarrow> stack \<Rightarrow> shamapitem option res) \<Rightarrow> bool" where
  "finds k d S run \<longleftrightarrow> (\<exists>r. is_next lt k S r \<and>
     (\<forall>nid st. mdepth nid = d \<longrightarrow> run nid st = (case r of Some it \<Rightarrow> Inr (Some it) | None \<Rightarrow> loop k st)))"

text \<open>The items that are not below the branch of the key come after the key or not, as their branch does.\<close>

lemma other_branches:
  assumes b: "wf_branches sha T d p bs" and p: "pre d k = p" and x: "x \<in> branch_items (bs ! i)" "i < 16"
  shows "before (nib d k) i \<Longrightarrow> lt k (mtag x)" and "before i (nib d k) \<Longrightarrow> \<not> lt k (mtag x)"
proof -
  have e: "pre d (mtag x) = p" "nib d (mtag x) = i" "d < 64"
    using branch_of_item [OF b x(2,1)] wf_branchesD(1) [OF b] by simp_all
  show "before (nib d k) i \<Longrightarrow> lt k (mtag x)" using nibs [of d k "mtag x"] e p by simp
  show "before i (nib d k) \<Longrightarrow> \<not> lt k (mtag x)" using nibs [of d "mtag x" k] e p lt by metis
qed

lemma item_place:
  assumes "wf_branches sha T d p bs" "x \<in> bitems bs"
  obtains (here) "x \<in> branch_items (bs ! nib d k)"
  | (after) i where "i < 16" "before (nib d k) i" "x \<in> branch_items (bs ! i)"
  | (earlier) i where "i < 16" "before i (nib d k)" "x \<in> branch_items (bs ! i)"
proof -
  obtain i where i: "i < 16" "x \<in> branch_items (bs ! i)"
    using assms(2) unfolding bitems_nth [OF wf_branchesD(2) [OF assms(1)]] by blast
  consider "i = nib d k" | "before (nib d k) i" | "before i (nib d k)" using before(3) by blast
  then show thesis by cases (use here after earlier i in blast)+
qed

lemma key_branch:
  assumes b: "wf_branches sha T d p bs"
    and child: "\<And>c. wf_node sha T (Suc d) (16 * p + nib d k) c \<Longrightarrow> bs ! nib d k = (getnodehash c, Some c) \<Longrightarrow>
      finds k (Suc d) (items c) (\<lambda>nid st. rbind (getstack_loop True k c nid st) (loop k))"
  shows "\<exists>r. is_next lt k (branch_items (bs ! nib d k)) r \<and>
    (\<forall>nid st. mdepth nid = d \<longrightarrow> rbind (getstack_loop True k (TInner h bs) nid st) (loop k) =
       (case r of Some it \<Rightarrow> Inr (Some it) | None \<Rightarrow> loop k ((TInner h bs, nid) # st)))"
  using wf_branchesD(3) [OF b nib_less, of d k]
proof (cases rule: branch_cases)
  case empty
  have "rbind (getstack_loop True k (TInner h bs) nid st) (loop k) = loop k ((TInner h bs, nid) # st)"
    if "mdepth nid = d" for nid st
    unfolding getstack_empty_branch [OF b that empty] by simp
  then show ?thesis using empty by (intro exI [of _ None]) (simp add: is_next_def del: getstack_loop.simps)
next
  case (child c)
  obtain r where r: "is_next lt k (items c) r"
    and run: "\<And>nid st. mdepth nid = Suc d \<Longrightarrow> rbind (getstack_loop True k c nid st) (loop k) =
       (case r of Some it \<Rightarrow> Inr (Some it) | None \<Rightarrow> loop k st)"
    using assms(2) [OF child(2,1)] unfolding finds_def by blast
  have "rbind (getstack_loop True k (TInner h bs) nid st) (loop k) =
       (case r of Some it \<Rightarrow> Inr (Some it) | None \<Rightarrow> loop k ((TInner h bs, nid) # st))" if nid: "mdepth nid = d" for nid st
  proof -
    obtain nid' where n: "mdepth nid' = Suc d"
      "\<And>st. getstack_loop True k (TInner h bs) nid st = getstack_loop True k c nid' ((TInner h bs, nid) # st)"
      using getstack_child_branch [OF b nid child(1) node_hash_nz [OF child(2)]] by metis
    show ?thesis unfolding n(2) by (rule run [OF n(1)])
  qed
  then show ?thesis using r child(1) by auto
qed

lemma next_Some:
  assumes b: "wf_branches sha T d p bs" and p: "pre d k = p"
    and it: "is_next lt k (branch_items (bs ! nib d k)) (Some it)"
  shows "is_next lt k (bitems bs) (Some it)"
proof -
  have it': "it \<in> branch_items (bs ! nib d k)" "lt k (mtag it)" using it by (simp_all add: is_next_def)
  have "x = it \<or> lt (mtag it) (mtag x)" if x: "x \<in> bitems bs" "lt k (mtag x)" for x
    using b x(1)
  proof (cases rule: item_place [of sha T d p bs x k])
    case here
    then show ?thesis using it x(2) by (simp add: is_next_def)
  next
    case (after i)
    then show ?thesis using branches_lt [OF b it'(1) _ nib_less] by blast
  next
    case (earlier i)
    then show ?thesis using other_branches(2) [OF b p earlier(3,1)] x(2) by blast
  qed
  then show ?thesis using it' branch_subset [OF b nib_less] by (auto simp: is_next_def)
qed

lemma next_later:
  assumes b: "wf_branches sha T d p bs" and p: "pre d k = p"
    and none: "is_next lt k (branch_items (bs ! nib d k)) None"
    and r: "case r of None \<Rightarrow> (\<Union>j\<in>set (later (nib d k)). branch_items (bs ! j)) = {}
      | Some it \<Rightarrow> is_first lt (\<Union>j\<in>set (later (nib d k)). branch_items (bs ! j)) it"
  shows "is_next lt k (bitems bs) r"
proof -
  let ?L = "\<Union>j\<in>set (later (nib d k)). branch_items (bs ! j)"
  note ls = later(1) [OF nib_less, of d k]
  have in_L: "before (nib d k) (nib d (mtag x))" if "x \<in> ?L" for x
  proof -
    obtain j where j: "j < 16" "before (nib d k) j" "x \<in> branch_items (bs ! j)" using \<open>x \<in> ?L\<close> ls by auto
    then show ?thesis using branch_of_item [OF b j(1,3)] by simp
  qed
  have "lt k (mtag x) \<longleftrightarrow> x \<in> ?L" if x: "x \<in> bitems bs" for x
    using b x
  proof (cases rule: item_place [of sha T d p bs x k])
    case here
    have "x \<notin> ?L" using branch_of_item [OF b nib_less here] in_L [of x] before(1) by metis
    then show ?thesis using here none by (simp add: is_next_def)
  next
    case (after i)
    then have "x \<in> ?L" using ls by blast
    then show ?thesis using other_branches(1) [OF b p after(3,1,2)] by simp
  next
    case (earlier i)
    have "x \<notin> ?L" using branch_of_item [OF b earlier(1,3)] in_L [of x] before(2) [OF earlier(2)] by metis
    then show ?thesis using other_branches(2) [OF b p earlier(3,1,2)] by simp
  qed
  moreover have "?L \<subseteq> bitems bs" using ls branch_subset [OF b] by blast
  ultimately show ?thesis using r by (cases r) (auto simp: is_next_def is_first_def)
qed

lemma next_branches:
  assumes b: "wf_branches sha T d p bs" and p: "pre d k = p"
    and child: "\<And>c. wf_node sha T (Suc d) (16 * p + nib d k) c \<Longrightarrow> bs ! nib d k = (getnodehash c, Some c) \<Longrightarrow>
      finds k (Suc d) (items c) (\<lambda>nid st. rbind (getstack_loop True k c nid st) (loop k))"
  shows "finds k d (bitems bs) (\<lambda>nid st. rbind (getstack_loop True k (TInner h bs) nid st) (loop k))"
proof -
  have d: "d < 64" using wf_branchesD(1) [OF b] .
  obtain r where r: "is_next lt k (branch_items (bs ! nib d k)) r"
    and run: "\<And>nid st. mdepth nid = d \<Longrightarrow> rbind (getstack_loop True k (TInner h bs) nid st) (loop k) =
       (case r of Some it \<Rightarrow> Inr (Some it) | None \<Rightarrow> loop k ((TInner h bs, nid) # st))"
    using key_branch [OF b child, of h] by blast
  show ?thesis
  proof (cases r)
    case (Some it)
    then show ?thesis using next_Some [OF b p] r run unfolding finds_def by (intro exI [of _ r]) simp
  next
    case None
    show ?thesis
    proof (cases "first_branch bs (later (nib d k))")
      case None': None
      then have "(\<Union>j\<in>set (later (nib d k)). branch_items (bs ! j)) = {}"
        using isemptybranch_iff [OF b] later(1) [OF nib_less, of d k] by (auto simp: first_branch_None)
      then have "is_next lt k (bitems bs) None" using next_later [OF b p, of None] r None by simp
      then show ?thesis using run None None' loop_none d unfolding finds_def by (intro exI [of _ None]) simp
    next
      case (Some i)
      have "set (later (nib d k)) \<subseteq> {..<16}" using later(1) [OF nib_less, of d k] by auto
      then obtain c it where c: "descendthrow (TInner h bs) i = Inr (Some c)"
          "below order c = Inr (Some (leaf_of sha T it))"
          "is_first lt (\<Union>j\<in>set (later (nib d k)). branch_items (bs ! j)) it"
        using first_below [OF b _ later(2) Some, of h] by blast
      then have "is_next lt k (bitems bs) (Some it)" using next_later [OF b p, of "Some it"] r None by simp
      moreover have "loop k ((TInner h bs, nid) # st) = Inr (Some it)" if "mdepth nid = d" for nid st
        using loop_some [of nid bs k i h c] d that Some c(1,2) by (simp add: leaf_of_def)
      ultimately show ?thesis using run None unfolding finds_def by (intro exI [of _ "Some it"]) simp
    qed
  qed
qed

lemma next_node:
  "wf_node sha T d p t \<Longrightarrow> pre d k = p \<Longrightarrow>
    finds k d (items t) (\<lambda>nid st. rbind (getstack_loop True k t nid st) (loop k))"
proof (induction t arbitrary: d p)
  case (TLeaf h ty it)
  then show ?case
    unfolding finds_def by (intro exI [of _ "if lt k (mtag it) then Some it else None"]) (simp add: is_next_def loop_leaf)
next
  case (TInner h bs)
  then have b: "wf_branches sha T d p bs" by (simp add: wf_node_inner)
  have "pre (Suc d) k = 16 * p + nib d k" using TInner.prems(2) wf_branchesD(1) [OF b] by (simp add: pre_Suc)
  then show ?case unfolding items_inner
    by (intro next_branches [OF b TInner.prems(2)], intro TInner.IH [OF child_mem [OF b _ nib_less]]) auto
qed

lemma next_root:
  assumes w: "wf_root sha T (root m)"
  shows "\<exists>r. rbind (getstack m k True) (loop k) = Inr r \<and> is_next lt k (items (root m)) r"
proof (rule wf_rootE [OF w])
  fix bs
  assume bs: "root m = inner_of sha bs" "wf_branches sha T 0 0 bs" "items (root m) = bitems bs"
  have "finds k 0 (bitems bs) (\<lambda>nid st. rbind (getstack_loop True k (inner_of sha bs) nid st) (loop k))"
    by (rule next_branches [OF bs(2) pre_0]) (auto intro: next_node simp: pre_Suc)
  then obtain r where r: "is_next lt k (bitems bs) r"
    "rbind (getstack_loop True k (inner_of sha bs) root_id []) (loop k) = (case r of Some it \<Rightarrow> Inr (Some it) | None \<Rightarrow> loop k [])"
    unfolding finds_def root_id_def by (metis shamapnodeid.select_convs(2))
  then show ?thesis by (intro exI [of _ r]) (simp add: bs getstack_def loop_Nil split: option.splits)
qed

lemma below_root:
  assumes w: "wf_root sha T t"
  shows "\<exists>r. rbind (below order t) (\<lambda>p. Inr (item_of p)) = Inr r \<and>
    (case r of None \<Rightarrow> items t = {} | Some it \<Rightarrow> is_first lt (items t) it)"
proof (rule wf_rootE [OF w])
  fix bs
  assume bs: "t = inner_of sha bs" "wf_branches sha T 0 0 bs" "items t = bitems bs"
  have all: "bitems bs = (\<Union>j\<in>set order. branch_items (bs ! j))"
    using bitems_nth [OF wf_branchesD(2) [OF bs(2)]] order(1) by simp
  show ?thesis
  proof (cases "first_branch bs order")
    case None
    then have "items t = {}" using isemptybranch_iff [OF bs(2)] order(1) by (auto simp: first_branch_None bs(3) all)
    then show ?thesis using None bs(1) by (intro exI [of _ None]) (simp add: item_of_def)
  next
    case (Some i)
    have "set order \<subseteq> {..<16}" using order(1) by simp
    then obtain c it where "descendthrow (inner_of sha bs) i = Inr (Some c)"
        "below order c = Inr (Some (leaf_of sha T it))" "is_first lt (\<Union>j\<in>set order. branch_items (bs ! j)) it"
      using first_below [OF bs(2) _ order(2) Some] by blast
    then show ?thesis using Some bs(1,3) all by (intro exI [of _ "Some it"]) (simp add: item_of_def leaf_of_def)
  qed
qed

end

section \<open>Both directions\<close>

lemma nib_order: "d < 64 \<Longrightarrow> pre d k = pre d l \<Longrightarrow> nib d k < nib d l \<Longrightarrow> k < l"
  by (metis pre_eq_less pre_less)

lemma sorted_upt: "sorted_wrt (<) [a..<b]" "sorted_wrt (\<lambda>i j. j < i) (rev [a..<b])"
  by (simp_all add: sorted_wrt_rev strict_sorted_iff [symmetric])

interpretation up: scan "(<)" "(<)" "[0..<16]" "\<lambda>b. [b + 1..<16]" next_loop
proof unfold_locales
  show "nib d k < nib d l \<Longrightarrow> k < l" if "d < 64" "pre d k = pre d l" for d k l
    using nib_order that by blast
qed (auto simp: sorted_upt firstbelow_def selectbranch_nib)

interpretation down: scan "\<lambda>k l. l < k" "\<lambda>i j. j < i" "rev [0..<16]" "\<lambda>b. rev [0..<b]" prev_loop
proof unfold_locales
  show "nib d l < nib d k \<Longrightarrow> l < k" if "d < 64" "pre d k = pre d l" for d k l
    using nib_order [of d l k] that by simp
qed (auto simp: sorted_upt lastbelow_def selectbranch_nib)

lemma is_next_content:
  assumes w: "wf_root sha T (root m)" and r: "is_next lt k (items (root m)) r"
  shows "case r of None \<Rightarrow> \<forall>l\<in>dom (content m). \<not> lt k l
    | Some it \<Rightarrow> content m (mtag it) = Some (mdata it) \<and> lt k (mtag it) \<and>
        (\<forall>l\<in>dom (content m). lt k l \<longrightarrow> l = mtag it \<or> lt (mtag it) l)"
proof -
  have d: "l \<in> dom (content m) \<longleftrightarrow> l \<in> mtag ` items (root m)" for l
    using content_none [OF w, of l] by (auto simp: domIff)
  have "it \<in> items (root m) \<Longrightarrow> content m (mtag it) = Some (mdata it)" for it
    using content_items [OF w, of "mtag it" "mdata it"] by (cases it) simp
  then show ?thesis using r unfolding Ball_def d by (cases r) (auto simp: is_next_def)
qed

lemma is_first_content:
  assumes w: "wf_root sha T (root m)"
    and r: "case r of None \<Rightarrow> items (root m) = {} | Some it \<Rightarrow> is_first lt (items (root m)) it"
  shows "case r of None \<Rightarrow> content m = Map.empty
    | Some it \<Rightarrow> content m (mtag it) = Some (mdata it) \<and> (\<forall>l\<in>dom (content m). l = mtag it \<or> lt (mtag it) l)"
proof -
  have d: "l \<in> dom (content m) \<longleftrightarrow> l \<in> mtag ` items (root m)" for l
    using content_none [OF w, of l] by (auto simp: domIff)
  have "it \<in> items (root m) \<Longrightarrow> content m (mtag it) = Some (mdata it)" for it
    using content_items [OF w, of "mtag it" "mdata it"] by (cases it) simp
  moreover have "content m = Map.empty" if "items (root m) = {}" using d that by auto
  ultimately show ?thesis using r unfolding Ball_def d by (cases r) (auto simp: is_first_def)
qed

lemma map_okD: "map_ok sha T U m \<Longrightarrow> wf_root sha T (root m)"
  by (simp add: map_ok_def)

lemma next_item:
  assumes "map_ok sha T U m"
  shows "\<exists>r. peeknextitem m k = Inr r \<and> (case r of None \<Rightarrow> \<forall>l\<in>dom (content m). l \<le> k
     | Some it \<Rightarrow> content m (mtag it) = Some (mdata it) \<and> k < mtag it \<and> (\<forall>l\<in>dom (content m). k < l \<longrightarrow> mtag it \<le> l))"
proof -
  have h: "wf_root sha T (root m)" by (rule map_okD [OF assms])
  obtain r where r: "peeknextitem m k = Inr r" "is_next (<) k (items (root m)) r"
    using up.next_root [OF h] unfolding peeknextitem_def by blast
  show ?thesis
    by (rule exI [of _ r]) (use r(1) is_next_content [OF h r(2)] in \<open>auto simp: not_less le_less split: option.splits\<close>)
qed

lemma prev_item:
  assumes "map_ok sha T U m"
  shows "\<exists>r. peekprevitem m k = Inr r \<and> (case r of None \<Rightarrow> \<forall>l\<in>dom (content m). k \<le> l
     | Some it \<Rightarrow> content m (mtag it) = Some (mdata it) \<and> mtag it < k \<and> (\<forall>l\<in>dom (content m). l < k \<longrightarrow> l \<le> mtag it))"
proof -
  have h: "wf_root sha T (root m)" by (rule map_okD [OF assms])
  obtain r where r: "peekprevitem m k = Inr r" "is_next (\<lambda>k l. l < k) k (items (root m)) r"
    using down.next_root [OF h] unfolding peekprevitem_def by blast
  show ?thesis
    by (rule exI [of _ r]) (use r(1) is_next_content [OF h r(2)] in \<open>auto simp: not_less le_less split: option.splits\<close>)
qed

lemma first_item:
  assumes "map_ok sha T U m"
  shows "\<exists>r. peekfirstitem m = Inr r \<and> (case r of None \<Rightarrow> content m = Map.empty
     | Some it \<Rightarrow> content m (mtag it) = Some (mdata it) \<and> (\<forall>l\<in>dom (content m). mtag it \<le> l))"
proof -
  have h: "wf_root sha T (root m)" by (rule map_okD [OF assms])
  obtain r where r: "peekfirstitem m = Inr r" "case r of None \<Rightarrow> items (root m) = {} | Some it \<Rightarrow> is_first (<) (items (root m)) it"
    using up.below_root [OF h] unfolding peekfirstitem_def firstbelow_def by blast
  show ?thesis
    by (rule exI [of _ r]) (use r(1) is_first_content [OF h r(2)] in \<open>auto simp: le_less Ball_def domIff split: option.splits\<close>)
qed

lemma last_item:
  assumes "map_ok sha T U m"
  shows "\<exists>r. peeklastitem m = Inr r \<and> (case r of None \<Rightarrow> content m = Map.empty
     | Some it \<Rightarrow> content m (mtag it) = Some (mdata it) \<and> (\<forall>l\<in>dom (content m). l \<le> mtag it))"
proof -
  have h: "wf_root sha T (root m)" by (rule map_okD [OF assms])
  obtain r where r: "peeklastitem m = Inr r" "case r of None \<Rightarrow> items (root m) = {} | Some it \<Rightarrow> is_first (\<lambda>k l. l < k) (items (root m)) it"
    using down.below_root [OF h] unfolding peeklastitem_def lastbelow_def by blast
  show ?thesis
    by (rule exI [of _ r]) (use r(1) is_first_content [OF h r(2)] in \<open>auto simp: le_less Ball_def domIff split: option.splits\<close>)
qed

section \<open>A loop over all items\<close>

text \<open>
  The loop by which the callers visit a map, \<^verbatim>\<open>for (item = peekFirstItem (); item; item = peekNextItem (item->getTag ()))\<close>,
  with its body as a function on the caller's state. Nothing in it bounds the number of rounds.
\<close>

partial_function (option) for_items :: "(shamapitem \<Rightarrow> 's \<Rightarrow> 's res) \<Rightarrow> shamap \<Rightarrow> shamapitem option \<Rightarrow> 's \<Rightarrow> 's res option" where
  "for_items body m item s =
     (case item of
        None \<Rightarrow> Some (Inr s)
      | Some it \<Rightarrow>
          (case body it s of
             Inl e \<Rightarrow> Some (Inl e)
           | Inr s1 \<Rightarrow>
               (case peeknextitem m (mtag it) of
                  Inl e \<Rightarrow> Some (Inl e)
                | Inr item1 \<Rightarrow> for_items body m item1 s1)))"

definition for_all_items :: "(shamapitem \<Rightarrow> 's \<Rightarrow> 's res) \<Rightarrow> shamap \<Rightarrow> 's \<Rightarrow> 's res option" where
  "for_all_items body m s =
     (case peekfirstitem m of Inl e \<Rightarrow> Some (Inl e) | Inr item \<Rightarrow> for_items body m item s)"

definition items_map :: "shamapitem list \<Rightarrow> uint256 \<Rightarrow> blob option" where
  "items_map its = map_of (map (\<lambda>it. (mtag it, mdata it)) its)"

lemma finite_content:
  assumes "wf_root sha T (root m)"
  shows "finite (dom (content m))"
proof -
  have "dom (content m) = mtag ` items (root m)" by (simp add: dom_def content_none [OF assms])
  then show ?thesis by (simp add: finite_items)
qed

text \<open>From an item \<open>it\<close> on, where \<open>it\<close> is the least one with a tag in the upward closed set \<open>K\<close>\<close>

lemma for_items_from:
  assumes m: "map_ok sha T U m"
  shows "case item of
      None \<Rightarrow> dom (content m) \<inter> K = {}
    | Some it \<Rightarrow> content m (mtag it) = Some (mdata it) \<and> mtag it \<in> K \<and> (\<forall>l\<in>dom (content m) \<inter> K. mtag it \<le> l) \<and>
        {l. mtag it < l} \<subseteq> K \<Longrightarrow>
    \<exists>its. (\<forall>s. for_items body m item s = Some (run_ops body its s)) \<and> sorted_wrt (\<lambda>x y. mtag x < mtag y) its \<and>
      items_map its = content m |` K \<and> (\<forall>it\<in>set its. mtag it \<in> K)"
proof (induction "card (dom (content m) \<inter> K)" arbitrary: item K rule: less_induct)
  case less
  have fin: "finite (dom (content m))" using finite_content [OF map_okD [OF m]] .
  show ?case
  proof (cases item)
    case None
    then have "content m |` K = Map.empty" using less.prems by (auto simp: restrict_map_def fun_eq_iff domIff)
    then show ?thesis
      by (intro exI [of _ "[]"]) (simp add: None for_items.simps [of body m None] items_map_def)
  next
    case (Some it)
    let ?K = "{l. mtag it < l}"
    have it: "content m (mtag it) = Some (mdata it)" "mtag it \<in> K" "\<And>l. l \<in> dom (content m) \<Longrightarrow> l \<in> K \<Longrightarrow> mtag it \<le> l" "?K \<subseteq> K"
      using less.prems Some by auto
    obtain q where q: "peeknextitem m (mtag it) = Inr q" "case q of None \<Rightarrow> \<forall>l\<in>dom (content m). l \<le> mtag it
       | Some x \<Rightarrow> content m (mtag x) = Some (mdata x) \<and> mtag it < mtag x \<and> (\<forall>l\<in>dom (content m). mtag it < l \<longrightarrow> mtag x \<le> l)"
      using next_item [OF m] by blast
    have "mtag it \<in> dom (content m) \<inter> K" "mtag it \<notin> dom (content m) \<inter> ?K" using it by auto
    then have "dom (content m) \<inter> ?K \<subset> dom (content m) \<inter> K" using it(4) by blast
    then have "card (dom (content m) \<inter> ?K) < card (dom (content m) \<inter> K)" by (rule psubset_card_mono [OF finite_Int [OF disjI1 [OF fin]]])
    moreover have "case q of None \<Rightarrow> dom (content m) \<inter> ?K = {}
      | Some x \<Rightarrow> content m (mtag x) = Some (mdata x) \<and> mtag x \<in> ?K \<and> (\<forall>l\<in>dom (content m) \<inter> ?K. mtag x \<le> l) \<and>
          {l. mtag x < l} \<subseteq> ?K"
      using q(2) by (cases q) (auto simp: not_less [symmetric])
    ultimately obtain its where its: "\<And>s. for_items body m q s = Some (run_ops body its s)"
      "sorted_wrt (\<lambda>x y. mtag x < mtag y) its" "items_map its = content m |` ?K" "\<forall>x\<in>set its. mtag x \<in> ?K"
      using less.hyps by blast
    have "for_items body m item s = Some (run_ops body (it # its) s)" for s
      using its(1) q(1) by (simp add: Some for_items.simps [of body m "Some it"] rbind_def split: sum.split)
    moreover have "items_map (it # its) = content m |` K"
    proof
      fix l
      show "items_map (it # its) l = (content m |` K) l"
        using it its(3) unfolding items_map_def by (cases "l = mtag it"; cases "content m l") (auto simp: restrict_map_def le_less)
    qed
    moreover have "sorted_wrt (\<lambda>x y. mtag x < mtag y) (it # its)" "\<forall>x\<in>set (it # its). mtag x \<in> K"
      using its(2,4) it(2,4) by auto
    ultimately show ?thesis by blast
  qed
qed

lemma sample_map:
  obtains m1 m where "addgiveitem sample_hash shamap_new item_a False False = Inr (True, m1)"
    "addgiveitem sample_hash m1 item_b False False = Inr (True, m)"
    "map_ok sample_hash tnaccount_state {item_a, item_b} m"
    "content m = [mtag item_a \<mapsto> mdata item_a, mtag item_b \<mapsto> mdata item_b]" "mstate m = smsmodifying"
proof -
  have T: "leaf_type False False = tnaccount_state" by (simp add: leaf_type_def)
  have in_U: "item_a \<in> {item_a, item_b}" "item_b \<in> {item_a, item_b}" by simp_all
  note add = add_new [of sample_hash False False "{item_a, item_b}", unfolded T, OF sample_collision_free]
  obtain m1 where m1: "addgiveitem sample_hash shamap_new item_a False False = Inr (True, m1)"
    "map_ok sample_hash tnaccount_state {item_a, item_b} m1" "content m1 = [mtag item_a \<mapsto> mdata item_a]"
    "mstate m1 = mstate shamap_new"
    using add [OF shamap_new_ok(1) in_U(1) sample_ok(1) shamap_new_ok(3)] by (auto simp: shamap_new_ok(2))
  have "content m1 (mtag item_b) = None" by (simp add: m1(3) item_a_def item_b_def)
  then show thesis using add [OF m1(2) in_U(2) sample_ok(2)] that [OF m1(1)] m1(3,4)
    by (auto simp: writable_def shamap_new_def)
qed

section \<open>Properties\<close>

text \<open>
  C17. A map can be walked in the order of its tags, in both directions: on a well-formed map in any state the first and last
  item are those with the least and the greatest tag, and none exactly when the map is empty; the next item
  after any key, present or not, is the one with the least tag greater than the key, the previous one that
  with the greatest tag below it, and none when there is no such tag.
\<close>

theorem shamap_ordered:
  assumes "map_ok sha T U m"
  shows "(\<exists>r. peekfirstitem m = Inr r \<and> (case r of None \<Rightarrow> content m = Map.empty
      | Some it \<Rightarrow> content m (mtag it) = Some (mdata it) \<and> (\<forall>l\<in>dom (content m). mtag it \<le> l))) \<and>
    (\<exists>r. peeklastitem m = Inr r \<and> (case r of None \<Rightarrow> content m = Map.empty
      | Some it \<Rightarrow> content m (mtag it) = Some (mdata it) \<and> (\<forall>l\<in>dom (content m). l \<le> mtag it))) \<and>
    (\<exists>r. peeknextitem m k = Inr r \<and> (case r of None \<Rightarrow> \<forall>l\<in>dom (content m). l \<le> k
      | Some it \<Rightarrow> content m (mtag it) = Some (mdata it) \<and> k < mtag it \<and> (\<forall>l\<in>dom (content m). k < l \<longrightarrow> mtag it \<le> l))) \<and>
    (\<exists>r. peekprevitem m k = Inr r \<and> (case r of None \<Rightarrow> \<forall>l\<in>dom (content m). k \<le> l
      | Some it \<Rightarrow> content m (mtag it) = Some (mdata it) \<and> mtag it < k \<and> (\<forall>l\<in>dom (content m). l < k \<longrightarrow> l \<le> mtag it)))"
  by (intro conjI first_item [OF assms] last_item [OF assms] next_item [OF assms] prev_item [OF assms])

theorem shamap_ordered_witness:
  "\<exists>m1 m. addgiveitem sample_hash shamap_new item_a False False = Inr (True, m1) \<and>
     addgiveitem sample_hash m1 item_b False False = Inr (True, m) \<and>
     map_ok sample_hash tnaccount_state {item_a, item_b} m \<and>
     peeknextitem m (mtag item_a) = Inr (Some item_b)"
proof (rule sample_map)
  fix m1 m
  assume m: "addgiveitem sample_hash shamap_new item_a False False = Inr (True, m1)"
    "addgiveitem sample_hash m1 item_b False False = Inr (True, m)"
    "map_ok sample_hash tnaccount_state {item_a, item_b} m"
    "content m = [mtag item_a \<mapsto> mdata item_a, mtag item_b \<mapsto> mdata item_b]"
  have lt: "mtag item_a < mtag item_b" by (simp add: item_a_def item_b_def)
  obtain r where r: "peeknextitem m (mtag item_a) = Inr r" "case r of None \<Rightarrow> \<forall>l\<in>dom (content m). l \<le> mtag item_a
      | Some it \<Rightarrow> content m (mtag it) = Some (mdata it) \<and> mtag item_a < mtag it \<and> (\<forall>l\<in>dom (content m). mtag item_a < l \<longrightarrow> mtag it \<le> l)"
    using shamap_ordered [OF m(3), of "mtag item_a"] by blast
  obtain it where it: "r = Some it" using r(2) lt by (cases r) (auto simp: m(4))
  have "mtag it = mtag item_b \<and> mdata it = mdata item_b" using r(2) lt by (auto simp: m(4) it split: if_splits)
  then have "r = Some item_b" using it by (cases it; cases item_b) simp
  then show ?thesis using m r(1) by blast
qed

text \<open>
  C18. The loop from the first item to the next and so on ends on every well-formed map, immutable or not,
  whatever its body does to the caller's state: it runs the body once on each item, in increasing order of the tags, and stops early
  only when the body throws.
\<close>

theorem loop_visits_all:
  assumes "map_ok sha T U m"
  shows "\<exists>its. for_all_items body m s = Some (run_ops body its s) \<and>
    sorted_wrt (\<lambda>x y. mtag x < mtag y) its \<and> items_map its = content m"
proof -
  obtain r where r: "peekfirstitem m = Inr r" "case r of None \<Rightarrow> content m = Map.empty
     | Some it \<Rightarrow> content m (mtag it) = Some (mdata it) \<and> (\<forall>l\<in>dom (content m). mtag it \<le> l)"
    using first_item [OF assms] by blast
  have "\<exists>its. (\<forall>s. for_items body m r s = Some (run_ops body its s)) \<and> sorted_wrt (\<lambda>x y. mtag x < mtag y) its \<and>
      items_map its = content m |` UNIV \<and> (\<forall>it\<in>set its. mtag it \<in> UNIV)"
    by (rule for_items_from [OF assms]) (use r(2) in \<open>auto split: option.splits\<close>)
  then show ?thesis using r(1) by (auto simp: for_all_items_def restrict_map_def)
qed

theorem loop_visits_all_witness:
  "\<exists>m1 m its. addgiveitem sample_hash shamap_new item_a False False = Inr (True, m1) \<and>
     addgiveitem sample_hash m1 item_b False False = Inr (True, m) \<and>
     for_all_items (\<lambda>it n. Inr (n + length (mdata it))) (m\<lparr>mstate := smsimmutable\<rparr>) 0 =
       Some (run_ops (\<lambda>it n. Inr (n + length (mdata it))) its 0) \<and>
     items_map its = [mtag item_a \<mapsto> mdata item_a, mtag item_b \<mapsto> mdata item_b]"
proof (rule sample_map)
  fix m1 m
  assume m: "addgiveitem sample_hash shamap_new item_a False False = Inr (True, m1)"
    "addgiveitem sample_hash m1 item_b False False = Inr (True, m)"
    "map_ok sample_hash tnaccount_state {item_a, item_b} m"
    "content m = [mtag item_a \<mapsto> mdata item_a, mtag item_b \<mapsto> mdata item_b]"
  let ?m = "m\<lparr>mstate := smsimmutable\<rparr>"
  have ok: "map_ok sample_hash tnaccount_state {item_a, item_b} ?m" using m(3) by (simp add: map_ok_def)
  have "content ?m = content m" by (simp add: fun_eq_iff content_def peekitem_def walktopointer_def)
  then show ?thesis
    using loop_visits_all [OF ok, of "\<lambda>it n. Inr (n + length (mdata it))" 0] m(1,2,4) by auto
qed

end
