(* ===== verification/Ledger_State.thy ===== *)
theory Ledger_State
  imports St_Wire Formats Sha_Walk
begin

text \<open>
  The two maps of a ledger, \<^verbatim>\<open>src/ripple/app/ledger/Ledger.h\<close> and \<^verbatim>\<open>Ledger.cpp\<close>: entries are kept in their
  serialized form under their index, transactions under their hash. Of the class, the operations on the maps
  are here; closing, storing and acquiring ledgers are not. The cache of parsed entries behind \<^verbatim>\<open>getSLEi\<close> only
  saves parsing an entry again, so an entry is parsed here on every read.
\<close>

section \<open>Operations\<close>

record ledger =
  maccountstatemap :: shamap
  mtransactionmap :: shamap
  mvalidhash :: bool

definition lepnone :: u32 where "lepnone = 0"
definition lepcreate :: u32 where "lepcreate = 1"
definition lepokay :: u32 where "lepokay = 2"
definition lepmissing :: u32 where "lepmissing = 4"
definition lepcreated :: u32 where "lepcreated = 16"
definition leperror :: u32 where "leperror = 32"

definition sle_of_bytes :: "blob \<Rightarrow> uint256 \<Rightarrow> stledgerentry res" where
  "sle_of_bytes s index = rbind (obj_parse (iter_at [] s)) (\<lambda>(ob, _). sle_of_object ob index)"

definition getsle :: "ledger \<Rightarrow> uint256 \<Rightarrow> stledgerentry option res" where
  "getsle l uhash =
     rbind (peekitem (maccountstatemap l) uhash) (\<lambda>node.
       case node of
         None \<Rightarrow> Inr None
       | Some it \<Rightarrow> rbind (sle_of_bytes (mdata it) (mtag it)) (\<lambda>e. Inr (Some e)))"

definition getslei :: "ledger \<Rightarrow> uint256 \<Rightarrow> stledgerentry option res" where
  "getslei l uid =
     rbind (peekitem_hash (maccountstatemap l) uid) (\<lambda>node.
       case node of
         None \<Rightarrow> Inr None
       | Some (p, _) \<Rightarrow>
           rbind (deref p) (\<lambda>it.
           rbind (sle_of_bytes (mdata it) (mtag it)) (\<lambda>e. Inr (Some (e\<lparr>mmutable := False\<rparr>)))))"

definition writeback :: "hash \<Rightarrow> ledger \<Rightarrow> u32 \<Rightarrow> stledgerentry \<Rightarrow> (u32 \<times> ledger) res" where
  "writeback sha l parms entry =
     rbind (hasitem (maccountstatemap l) (mindex entry)) (\<lambda>has.
       if \<not> has \<and> parms AND lepcreate = 0 then Inr (lepmissing, l)
       else
         rbind (obj_add [] True (sle_object entry)) (\<lambda>s.
           let item = \<lparr>mtag = mindex entry, mdata = s\<rparr>
           in if \<not> has
              then rbind (addgiveitem sha (maccountstatemap l) item False False) (\<lambda>(ok, m).
                     rassert ok (Inr (lepcreated, l\<lparr>maccountstatemap := m\<rparr>)))
              else rbind (updategiveitem sha (maccountstatemap l) item False False) (\<lambda>(ok, m).
                     rassert ok (Inr (lepokay, l\<lparr>maccountstatemap := m\<rparr>)))))"

definition ledger_addtransaction :: "hash \<Rightarrow> ledger \<Rightarrow> uint256 \<Rightarrow> blob \<Rightarrow> (bool \<times> ledger) res" where
  "ledger_addtransaction sha l txid txn =
     rbind (addgiveitem sha (mtransactionmap l) \<lparr>mtag = txid, mdata = txn\<rparr> True False) (\<lambda>(ok, m).
       Inr (if \<not> ok then (False, l) else (True, l\<lparr>mtransactionmap := m, mvalidhash := False\<rparr>)))"

definition ledger_addtransaction_md :: "hash \<Rightarrow> ledger \<Rightarrow> uint256 \<Rightarrow> blob \<Rightarrow> blob \<Rightarrow> (bool \<times> ledger) res" where
  "ledger_addtransaction_md sha l txid txn md =
     rbind (addvl [] txn) (\<lambda>(_, s). rbind (addvl s md) (\<lambda>(_, s1).
     rbind (addgiveitem sha (mtransactionmap l) \<lparr>mtag = txid, mdata = s1\<rparr> True True) (\<lambda>(ok, m).
       Inr (if \<not> ok then (False, l) else (True, l\<lparr>mtransactionmap := m, mvalidhash := False\<rparr>)))))"

definition hastransaction :: "ledger \<Rightarrow> uint256 \<Rightarrow> bool res" where
  "hastransaction l transid = hasitem (mtransactionmap l) transid"

definition tag_or_zero :: "shamapitem option res \<Rightarrow> uint256 res" where
  "tag_or_zero r = rbind r (\<lambda>node. Inr (case node of None \<Rightarrow> 0 | Some it \<Rightarrow> mtag it))"

definition getfirstledgerindex :: "ledger \<Rightarrow> uint256 res" where
  "getfirstledgerindex l = tag_or_zero (peekfirstitem (maccountstatemap l))"

definition getlastledgerindex :: "ledger \<Rightarrow> uint256 res" where
  "getlastledgerindex l = tag_or_zero (peeklastitem (maccountstatemap l))"

definition getnextledgerindex :: "ledger \<Rightarrow> uint256 \<Rightarrow> uint256 res" where
  "getnextledgerindex l uhash = tag_or_zero (peeknextitem (maccountstatemap l) uhash)"

definition getnextledgerindex_end :: "ledger \<Rightarrow> uint256 \<Rightarrow> uint256 \<Rightarrow> uint256 res" where
  "getnextledgerindex_end l uhash uend =
     rbind (peeknextitem (maccountstatemap l) uhash) (\<lambda>node.
       Inr (case node of None \<Rightarrow> 0 | Some it \<Rightarrow> if uend < mtag it then 0 else mtag it))"

definition getprevledgerindex :: "ledger \<Rightarrow> uint256 \<Rightarrow> uint256 res" where
  "getprevledgerindex l uhash = tag_or_zero (peekprevitem (maccountstatemap l) uhash)"

text \<open>The bounded variant walks forwards, as the source does.\<close>

definition getprevledgerindex_begin :: "ledger \<Rightarrow> uint256 \<Rightarrow> uint256 \<Rightarrow> uint256 res" where
  "getprevledgerindex_begin l uhash ubegin =
     rbind (peeknextitem (maccountstatemap l) uhash) (\<lambda>node.
       Inr (case node of None \<Rightarrow> 0 | Some it \<Rightarrow> if mtag it < ubegin then 0 else mtag it))"

section \<open>Entries survive being stored\<close>

lemma norm_fields_map: "norm_fields d = map (\<lambda>(f, v). (f, norm_val v)) d"
  by (induction d) auto

lemma insert_field_set:
  "fieldcode (fst x) \<notin> set (field_codes ys) \<Longrightarrow> set (insert_field x ys) = insert x (set ys)"
  by (induction x ys rule: insert_field.induct) (auto simp: field_codes_def)

lemma insert_field_distinct:
  "fieldcode (fst x) \<notin> set (field_codes ys) \<Longrightarrow> distinct (field_codes ys) \<Longrightarrow> distinct (field_codes (insert_field x ys))"
proof (induction x ys rule: insert_field.induct)
  case (2 x y ys)
  then show ?case using insert_field_set [of x ys] by (auto simp: field_codes_def)
qed (simp add: field_codes_def)

definition written :: "sfield \<times> stvalue \<Rightarrow> bool" where
  "written x \<longleftrightarrow> snd x \<noteq> ST_notpresent \<and> fieldvalue (fst x) < 256"

lemma pick_fields_set:
  "distinct (field_codes (d @ acc)) \<Longrightarrow>
   set (pick_fields True d acc) = {x \<in> set d. written x} \<union> set acc \<and> distinct (field_codes (pick_fields True d acc))"
proof (induction d arbitrary: acc)
  case (Cons x d)
  obtain f v where x: "x = (f, v)" by (cases x)
  have np: "getstype v \<noteq> sti_notpresent \<longleftrightarrow> v \<noteq> ST_notpresent" by (cases v) auto
  have new: "fieldcode (fst x) \<notin> set (field_codes acc)" "distinct (field_codes (d @ acc))"
    using Cons.prems by (auto simp: field_codes_def)
  let ?acc = "if getstype v \<noteq> sti_notpresent \<and> shouldinclude f True then insert_field x acc else acc"
  have "set ?acc = (if written x then insert x (set acc) else set acc)"
    using insert_field_set [OF new(1)] by (simp add: np written_def shouldinclude_def x)
  moreover have "distinct (field_codes (d @ ?acc))"
    using Cons.prems insert_field_set [OF new(1)] insert_field_distinct [OF new(1)] by (auto simp: field_codes_def)
  moreover have "pick_fields True (x # d) acc = pick_fields True d ?acc" by (simp add: x)
  ultimately show ?case using Cons.IH [of ?acc] by (cases "written x") auto
qed simp

lemma sorted_fields_set:
  "distinct (field_codes d) \<Longrightarrow>
   set (sorted_fields True d) = {x \<in> set d. written x} \<and> distinct (field_codes (sorted_fields True d))"
  using pick_fields_set [of d "[]"] by (simp add: sorted_fields_def field_codes_def)

lemma named_member:
  assumes "distinct (field_codes d)" "x \<in> set d" "field_eq (fst x) f"
  shows "named f d = Some x"
proof -
  obtain y where y: "named f d = Some y" using assms(2,3) by (metis find_None_iff option.exhaust)
  then have "y \<in> set d" "fieldcode (fst y) = fieldcode (fst x)" using named_Some [OF y] assms(3) by (simp_all add: field_eq_def)
  then have "y = x" using assms(1,2) by (auto simp: field_codes_def distinct_map dest: inj_onD)
  then show ?thesis using y by simp
qed

text \<open>
  An entry as the program makes and edits it: it has the fields of its format in their order, its type field
  says which format, required fields are there and fields with a default are left out when they have it, and
  its values can be written. Nested objects have their fields in the order they are written in.
\<close>

definition elem_stored :: "soelement \<Rightarrow> sfield \<times> stvalue \<Rightarrow> bool" where
  "elem_stored e x \<longleftrightarrow> fst e = fst x \<and> typed_value x \<and>
     (if snd x = ST_notpresent then snd e \<noteq> soe_required
      else \<not> (snd e = soe_default \<and> value_isdefault (snd x)) \<and> fieldvalue (fst x) < 256 \<and> norm_val (snd x) = snd x)"

definition registered :: "int \<Rightarrow> format \<Rightarrow> bool" where
  "registered type fmt \<longleftrightarrow>
     (case ledgerformats of
        Inl _ \<Rightarrow> False
      | Inr fs \<Rightarrow> findbytype fs type = Some fmt \<and> format_type fmt = type \<and> 0 \<le> type \<and> type < 65536)"

definition sle_wf :: "stledgerentry \<Rightarrow> bool" where
  "sle_wf e \<longleftrightarrow>
     mmutable e \<and> registered (mtype_sle e) (mformat e) \<and>
     otype (sle_object e) = Some (format_elements (mformat e)) \<and>
     list_all2 elem_stored (format_elements (mformat e)) (odata (sle_object e)) \<and>
     obj_get (sle_object e) sfledgerentrytype = Some (ST_uint16 (word_of_int (mtype_sle e))) \<and>
     fields_ok (sorted_fields True (odata (sle_object e)))"

lemma registered_template:
  assumes "registered type fmt"
  shows "template_ok (format_elements fmt)"
proof -
  obtain fs where fs: "ledgerformats = Inr fs" "findbytype fs type = Some fmt"
    using assms by (auto simp: registered_def split: sum.splits)
  then have "fmt \<in> set fs" unfolding findbytype_def by (auto dest!: map_of_SomeD)
  then show ?thesis using ledgerformats_ok unfolding fs(1) formats_ok_def by (simp add: list_all_iff)
qed

lemma stored_names: "list_all2 elem_stored t d \<Longrightarrow> map fst t = map fst d"
  by (induction t d rule: list_all2_induct) (auto simp: elem_stored_def)

lemma names_codes: "map fst t = map fst d \<Longrightarrow> field_codes t = field_codes d"
proof -
  assume "map fst t = map fst d"
  then have "map fieldcode (map fst t) = map fieldcode (map fst d)" by simp
  then show ?thesis by (simp add: field_codes_def comp_def)
qed

text \<open>Matching the fields that were written against the template gives the fields back.\<close>

lemma elem_values:
  assumes "list_all2 elem_stored t d" "distinct (field_codes d)"
  shows "map (elem_value (sorted_fields True d)) t = d" "list_all (elem_ok (sorted_fields True d)) t"
proof -
  let ?s = "sorted_fields True d"
  note ss = sorted_fields_set [OF assms(2)]
  have len: "length t = length d" using assms(1) by (rule list_all2_lengthD)
  have each: "elem_value ?s (t ! i) = d ! i \<and> elem_ok ?s (t ! i)" if i: "i < length d" for i
  proof -
    have st: "elem_stored (t ! i) (d ! i)" using assms(1) i len by (simp add: list_all2_conv_all_nth)
    then have f: "fst (t ! i) = fst (d ! i)" by (simp add: elem_stored_def)
    show ?thesis
    proof (cases "snd (d ! i) = ST_notpresent")
      case True
      have "\<not> field_eq (fst x) (fst (d ! i))" if x: "x \<in> set ?s" for x
      proof
        assume "field_eq (fst x) (fst (d ! i))"
        then have "x = d ! i"
          using x ss assms(2) i by (auto simp: field_codes_def distinct_map field_eq_def dest: inj_onD)
        then show False using x ss True by (auto simp: written_def)
      qed
      then have "named (fst (t ! i)) ?s = None" unfolding find_None_iff f by blast
      then show ?thesis using st True f by (cases "d ! i") (simp add: elem_value_def elem_ok_def elem_stored_def)
    next
      case False
      then have "d ! i \<in> set ?s" using ss st i by (simp add: written_def elem_stored_def)
      then have "named (fst (t ! i)) ?s = Some (d ! i)" using named_member [of ?s "d ! i"] ss f by (simp add: field_eq_def)
      then show ?thesis using st False by (simp add: elem_value_def elem_ok_def elem_stored_def)
    qed
  qed
  show "map (elem_value ?s) t = d" by (rule nth_equalityI) (use each len in auto)
  show "list_all (elem_ok ?s) t" using each len by (simp add: list_all_length)
qed

lemma norm_stored:
  assumes "list_all2 elem_stored t d" "distinct (field_codes d)"
  shows "norm_fields (sorted_fields True d) = sorted_fields True d"
proof -
  have "norm_val v = v" if "(f, v) \<in> set (sorted_fields True d)" for f v
  proof -
    have "(f, v) \<in> set d" "v \<noteq> ST_notpresent" using that sorted_fields_set [OF assms(2)] by (auto simp: written_def)
    then obtain i where "i < length d" "d ! i = (f, v)" by (auto simp: in_set_conv_nth)
    then have "elem_stored (t ! i) (f, v)" using assms(1) by (metis list_all2_nthD2)
    then show ?thesis using \<open>v \<noteq> ST_notpresent\<close> by (simp add: elem_stored_def)
  qed
  then show ?thesis unfolding norm_fields_map by (intro map_idI) auto
qed

definition sle_bytes :: "stledgerentry \<Rightarrow> blob" where
  "sle_bytes e = enc_fields (sorted_fields True (odata (sle_object e)))"

lemma sle_roundtrip:
  assumes "sle_wf e"
  shows "obj_add [] True (sle_object e) = Inr (sle_bytes e)" "sle_of_bytes (sle_bytes e) (mindex e) = Inr e"
proof -
  let ?d = "odata (sle_object e)" and ?t = "format_elements (mformat e)"
  let ?s = "sorted_fields True ?d"
  have e: "mmutable e" "registered (mtype_sle e) (mformat e)" "otype (sle_object e) = Some ?t"
    "list_all2 elem_stored ?t ?d" "obj_get (sle_object e) sfledgerentrytype = Some (ST_uint16 (word_of_int (mtype_sle e)))"
    "fields_ok ?s"
    using assms by (simp_all add: sle_wf_def)
  show "obj_add [] True (sle_object e) = Inr (sle_bytes e)" using obj_enc(1) [OF e(6), of "[]"] by (simp add: sle_bytes_def)
  have t: "template_ok ?t" using registered_template [OF e(2)] .
  have codes: "field_codes ?t = field_codes ?d" by (rule names_codes [OF stored_names [OF e(4)]])
  have dist: "distinct (field_codes ?d)" "distinct (field_codes ?t)" using t codes by (simp_all add: template_ok_def)
  note ss = sorted_fields_set [OF dist(1)]
  have parse: "obj_parse (iter_at [] (sle_bytes e)) = Inr (ST_obj None ?s, iter_at (sle_bytes e) [])"
    using obj_enc(2) [OF e(6), of "[]"] norm_stored [OF e(4) dist(1)] by (simp add: sle_bytes_def)
  have "named sfledgerentrytype ?d \<noteq> None" using e(5) by (auto simp: obj_get_named)
  then obtain x where x: "x \<in> set ?d" "field_eq (fst x) sfledgerentrytype" "snd x = ST_uint16 (word_of_int (mtype_sle e))"
    using e(5) named_Some by (fastforce simp: obj_get_named)
  have px: "proper (fst y) \<and> typed_value y" if y: "y \<in> set ?d" for y
  proof -
    obtain i where i: "i < length ?d" "?d ! i = y" using y by (auto simp: in_set_conv_nth)
    then have "elem_stored (?t ! i) y" "i < length ?t" using e(4) by (auto simp: list_all2_conv_all_nth)
    then show ?thesis using t by (auto simp: elem_stored_def template_ok_def list_all_length)
  qed
  have ok: "obj_ok (ST_obj None ?s)" using ss px by (simp add: obj_ok_def list_all_iff)
  have "written x" using x e(4) by (auto simp: written_def in_set_conv_nth list_all2_conv_all_nth elem_stored_def)
  then have "named sfledgerentrytype ?s = Some x" using named_member [of ?s x] ss x by simp
  then have type: "getfieldu16 (ST_obj None ?s) sfledgerentrytype = Inr (word_of_int (mtype_sle e))"
    using x(3) by (simp add: getfieldu16_def getfieldbyvalue_def peekatpfield_obj [OF ok] indexed_def obj_get_named as_u16_def)
  obtain fs where fs: "ledgerformats = Inr fs" "findbytype fs (mtype_sle e) = Some (mformat e)"
      "format_type (mformat e) = mtype_sle e" "0 \<le> mtype_sle e" "mtype_sle e < 65536"
    using e(2) by (auto simp: registered_def split: sum.splits)
  have "uint (word_of_int (mtype_sle e) :: u16) = mtype_sle e" using fs(4,5) by (simp add: unsigned_of_int take_bit_eq_mod)
  moreover have "fieldcode (fst y) \<in> set (field_codes ?t)" if "y \<in> set ?s" for y
    unfolding codes using ss that by (auto simp: field_codes_def)
  then have "filter (\<lambda>y. fieldcode (fst y) \<notin> set (field_codes ?t)) ?s = []" by (auto simp: filter_empty_conv)
  then have "settype ?t (ST_obj None ?s) = (True, ST_obj (Some ?t) ?d)"
    using settype_loop_char [of ?s ?t] ss dist(2) elem_values [OF e(4) dist(1)] by (simp add: settype_def)
  moreover have "ST_obj (Some ?t) ?d = sle_object e" using e(3) by (cases "sle_object e") simp
  ultimately show "sle_of_bytes (sle_bytes e) (mindex e) = Inr e"
    using fs(2,3) e(1) unfolding sle_of_bytes_def sle_of_object_def fs(1) by (simp add: parse type)
qed

section \<open>Reading and writing entries\<close>

abbreviation state_ok :: "hash \<Rightarrow> shamapitem set \<Rightarrow> ledger \<Rightarrow> bool" where
  "state_ok sha U l \<equiv> map_ok sha tnaccount_state U (maccountstatemap l)"

definition sle_item :: "stledgerentry \<Rightarrow> shamapitem" where
  "sle_item e = \<lparr>mtag = mindex e, mdata = sle_bytes e\<rparr>"

text \<open>An entry that can be stored in a ledger over the items \<open>U\<close>; a leaf of the tree has at least twelve bytes.\<close>

definition storable :: "shamapitem set \<Rightarrow> stledgerentry \<Rightarrow> bool" where
  "storable U e \<longleftrightarrow> sle_wf e \<and> sle_item e \<in> U \<and> 12 \<le> length (sle_bytes e)"

lemma storable_item: "storable U e \<Longrightarrow> sle_item e \<in> U \<and> item_ok sha tnaccount_state (sle_item e)"
  by (simp add: storable_def item_ok_def sle_item_def)

lemma leaf_type_state [simp]: "leaf_type False False = tnaccount_state"
  by (simp add: leaf_type_def)

lemma getsle_content:
  assumes "state_ok sha U l"
  shows "getsle l k = (case content (maccountstatemap l) k of
      None \<Rightarrow> Inr None | Some v \<Rightarrow> rbind (sle_of_bytes v k) (\<lambda>e. Inr (Some e)))"
proof -
  have h: "wf_root sha tnaccount_state (root (maccountstatemap l))" by (rule map_okD [OF assms])
  obtain r where "peekitem (maccountstatemap l) k = Inr r" "\<forall>x. r = Some x \<longrightarrow> mtag x = k"
      "content (maccountstatemap l) k = map_option mdata r"
    using peekitem_found [OF h] by blast
  then show ?thesis by (cases r) (simp_all add: getsle_def)
qed

lemma writeback_has:
  assumes "state_ok sha U l"
  shows "hasitem (maccountstatemap l) k = Inr (content (maccountstatemap l) k \<noteq> None)"
proof -
  have h: "wf_root sha tnaccount_state (root (maccountstatemap l))" by (rule map_okD [OF assms])
  show ?thesis using peekitem_found [OF h, of k] by auto
qed

lemma writeback_content:
  assumes cf: "collision_free sha tnaccount_state U" and l: "state_ok sha U l" "writable (maccountstatemap l)"
    and e: "storable U e"
    and p: "content (maccountstatemap l) (mindex e) \<noteq> None \<or> parms AND lepcreate \<noteq> 0"
  shows "\<exists>m. writeback sha l parms e =
      Inr (if content (maccountstatemap l) (mindex e) = None then lepcreated else lepokay, l\<lparr>maccountstatemap := m\<rparr>) \<and>
    map_ok sha tnaccount_state U m \<and> mstate m = mstate (maccountstatemap l) \<and>
    content m = (content (maccountstatemap l))(mindex e \<mapsto> sle_bytes e)"
proof -
  have w: "obj_add [] True (sle_object e) = Inr (sle_bytes e)" using sle_roundtrip(1) e by (simp add: storable_def)
  note it = storable_item [OF e]
  show ?thesis
  proof (cases "content (maccountstatemap l) (mindex e)")
    case None
    then obtain m where "addgiveitem sha (maccountstatemap l) (sle_item e) False False = Inr (True, m)"
        "map_ok sha tnaccount_state U m" "mstate m = mstate (maccountstatemap l)"
        "content m = (content (maccountstatemap l))(mindex e \<mapsto> sle_bytes e)"
      using add_new [of sha False False U "maccountstatemap l" "sle_item e"] cf l it by (auto simp: sle_item_def)
    then show ?thesis using None p w writeback_has [OF l(1)] by (intro exI [of _ m]) (simp add: writeback_def sle_item_def)
  next
    case (Some v)
    then obtain m where "updategiveitem sha (maccountstatemap l) (sle_item e) False False = Inr (True, m)"
        "map_ok sha tnaccount_state U m" "mstate m = mstate (maccountstatemap l)"
        "content m = (content (maccountstatemap l))(mindex e \<mapsto> sle_bytes e)"
      using upd_old [of sha False False U "maccountstatemap l" "sle_item e" v] cf l it by (auto simp: sle_item_def)
    then show ?thesis using Some w writeback_has [OF l(1)] by (intro exI [of _ m]) (simp add: writeback_def sle_item_def)
  qed
qed

lemma writeback_missing:
  assumes "state_ok sha U l" "content (maccountstatemap l) (mindex e) = None" "parms AND lepcreate = 0"
  shows "writeback sha l parms e = Inr (lepmissing, l)"
  using writeback_has [OF assms(1), of "mindex e"] assms(2,3) by (simp add: writeback_def)

section \<open>An entry and a hash for examples\<close>

definition single_strings :: "tntype \<Rightarrow> shamapitem \<Rightarrow> blob list" where
  "single_strings T it = leaf_string T it # map (\<lambda>b. inner_string ((replicate 16 0)[b := 1])) [0..<16]"

lemma single_collision_free: "collision_free (index_hash (single_strings T it)) T {it}"
proof -
  let ?sha = "index_hash (single_strings T it)"
  have lh: "leaf_hash ?sha T it = 1" by (simp add: leaf_hash_def index_hash_def single_strings_def)
  have "inner_string (map fst bs) \<in> set (single_strings T it)"
    if b: "wf_branches ?sha T d p bs" "bitems bs \<subseteq> {it}" "bitems bs \<noteq> {}" for d p bs
  proof -
    have "bitems bs = {it}" using b(2,3) by blast
    then have "map fst bs = (replicate 16 0)[nib d (mtag it) := 1]" using single_string [OF b(1)] by (simp add: lh)
    then show ?thesis by (auto simp: single_strings_def)
  qed
  moreover have "leaf_string T it \<in> set (single_strings T it)" by (simp add: single_strings_def)
  ultimately have "hashed_strings ?sha T {it} \<subseteq> set (single_strings T it)" unfolding hashed_strings_def by blast
  moreover have "length (single_strings T it) < 1000" by (simp add: single_strings_def)
  ultimately show ?thesis
    using index_hash_ok [of "single_strings T it"] inj_on_subset unfolding collision_free_def by blast
qed

definition sample_elements :: sotemplate where
  "sample_elements = ledger_common @ ledger_generatormap"

definition sample_entry :: stledgerentry where
  "sample_entry =
     \<lparr>sle_object = ST_obj (Some sample_elements)
        [(sfledgerindex, ST_notpresent), (sfledgerentrytype, ST_uint16 103), (sfflags, ST_uint32 0),
         (sfgenerator, ST_vl (replicate 12 7))],
      mindex = 5, mtype_sle = 103,
      mformat = \<lparr>format_name = ''generatormap'', format_type = 103, format_elements = sample_elements\<rparr>,
      mmutable = True\<rparr>"

lemma sample_sorted:
  "sorted_fields True (odata (sle_object sample_entry)) =
     [(sfledgerentrytype, ST_uint16 103), (sfflags, ST_uint32 0), (sfgenerator, ST_vl (replicate 12 7))]"
  by code_simp

lemma sample_entry_wf: "sle_wf sample_entry"
proof -
  have known: "field_ok sfledgerentrytype" "field_ok sfflags" "field_ok sfgenerator"
    by (rule known_field_ok; (simp add: known_fields_def; fail)?; code_simp)+
  have types: "fieldtype sfledgerentrytype = 1" "fieldtype sfflags = 2" "fieldtype sfgenerator = 7" by code_simp+
  have "fields_ok (sorted_fields True (odata (sle_object sample_entry)))" by (simp add: sample_sorted known types)
  moreover have "registered (mtype_sle sample_entry) (mformat sample_entry)" by code_simp
  moreover have "list_all2 elem_stored (format_elements (mformat sample_entry)) (odata (sle_object sample_entry))" by code_simp
  moreover have "obj_get (sle_object sample_entry) sfledgerentrytype = Some (ST_uint16 103)" by code_simp
  ultimately show ?thesis by (simp add: sle_wf_def) (simp add: sample_entry_def)
qed

lemma sample_storable: "storable {sle_item sample_entry} sample_entry"
proof -
  have "12 \<le> length (sle_bytes sample_entry)" by (simp add: sle_bytes_def sample_sorted vl_enc_def addvl_def encodevl_def encodelengthlength_def to_i32_id addraw_def)
  then show ?thesis using sample_entry_wf by (simp add: storable_def)
qed

section \<open>Properties\<close>

text \<open>
  C15. An entry that is written to a ledger is read back unchanged. The state map of the ledger is well formed and
  neither immutable nor being synchronised, the hash is injective and not zero on the strings hashed for trees
  over the items in use, and the entry is one that can be stored: it has the fields of its format, values that
  survive being serialized, and at least twelve bytes. \<^verbatim>\<open>writeBack\<close> of it, when the ledger has an entry of that
  index or creation is asked for, succeeds and tells which of the two it was; \<^verbatim>\<open>getSLE\<close> then returns exactly
  that entry, and for any other index what it returned before. Without either, it reports a missing entry
  and changes nothing.
\<close>

theorem ledger_stores_entries:
  assumes "collision_free sha tnaccount_state U" "state_ok sha U l" "writable (maccountstatemap l)" "storable U e"
  shows "if content (maccountstatemap l) (mindex e) = None \<and> parms AND lepcreate = 0
    then writeback sha l parms e = Inr (lepmissing, l)
    else \<exists>l'. writeback sha l parms e =
        Inr (if content (maccountstatemap l) (mindex e) = None then lepcreated else lepokay, l') \<and>
      state_ok sha U l' \<and> writable (maccountstatemap l') \<and> getsle l' (mindex e) = Inr (Some e) \<and> (\<forall>k. k \<noteq> mindex e \<longrightarrow> getsle l' k = getsle l k)"
proof (cases "content (maccountstatemap l) (mindex e) = None \<and> parms AND lepcreate = 0")
  case True
  then show ?thesis using writeback_missing [OF assms(2)] by simp
next
  case False
  then obtain m where m: "writeback sha l parms e =
      Inr (if content (maccountstatemap l) (mindex e) = None then lepcreated else lepokay, l\<lparr>maccountstatemap := m\<rparr>)"
    "map_ok sha tnaccount_state U m" "mstate m = mstate (maccountstatemap l)"
    "content m = (content (maccountstatemap l))(mindex e \<mapsto> sle_bytes e)"
    using writeback_content [OF assms, of parms] by auto
  let ?l = "l\<lparr>maccountstatemap := m\<rparr>"
  have ok: "state_ok sha U ?l" "writable (maccountstatemap ?l)" using m(2,3) assms(3) by (simp_all add: writable_def)
  have "getsle ?l (mindex e) = Inr (Some e)"
    using sle_roundtrip(2) [of e] assms(4) by (simp add: getsle_content [OF ok(1)] m(4) storable_def)
  moreover have "getsle ?l k = getsle l k" if "k \<noteq> mindex e" for k
    using that by (simp add: getsle_content [OF ok(1)] getsle_content [OF assms(2)] m(4))
  ultimately have "\<exists>l'. writeback sha l parms e =
        Inr (if content (maccountstatemap l) (mindex e) = None then lepcreated else lepokay, l') \<and>
      state_ok sha U l' \<and> writable (maccountstatemap l') \<and> getsle l' (mindex e) = Inr (Some e) \<and> (\<forall>k. k \<noteq> mindex e \<longrightarrow> getsle l' k = getsle l k)"
    using m(1) ok by blast
  then show ?thesis using False by auto
qed

theorem ledger_stores_entries_witness:
  "\<exists>l'. writeback (index_hash (single_strings tnaccount_state (sle_item sample_entry)))
      \<lparr>maccountstatemap = shamap_new, mtransactionmap = shamap_new, mvalidhash = False\<rparr> lepcreate sample_entry = Inr (lepcreated, l') \<and>
    getsle l' 5 = Inr (Some sample_entry)"
proof -
  let ?l = "\<lparr>maccountstatemap = shamap_new, mtransactionmap = shamap_new, mvalidhash = False\<rparr>"
  have l: "state_ok (index_hash (single_strings tnaccount_state (sle_item sample_entry))) {sle_item sample_entry} ?l"
    "writable (maccountstatemap ?l)"
    using shamap_new_ok(1,3) by simp_all
  have "mindex sample_entry = 5" "lepcreate AND lepcreate \<noteq> 0" by (simp_all add: sample_entry_def lepcreate_def)
  then show ?thesis
    using ledger_stores_entries [OF single_collision_free l sample_storable, of lepcreate] by (auto simp: shamap_new_ok(2))
qed

end
