(* ===== verification/Entry_Set.thy ===== *)
theory Entry_Set
  imports Ledger_State
begin

text \<open>
  The set of entries a transaction works on, \<^verbatim>\<open>src/ripple/app/ledger/LedgerEntrySet.h\<close> and
  \<^verbatim>\<open>LedgerEntrySet.cpp\<close>, and how it is written to the ledger (\<^verbatim>\<open>txnWrite\<close> of
  \<^verbatim>\<open>src/ripple/app/tx/TransactionEngine.cpp\<close>). Entries are shared by pointer, between the set and its callers
  and between a set and its duplicates, so they live in a store of cells. Of the set, the entries, the
  sequence number, the ledger and the flag for immutable sets are modelled; metadata and parameters are not.
  The sequence number, an \<^verbatim>\<open>int\<close> that grows by one per duplicate, is kept unbounded.
\<close>

section \<open>Cells\<close>

type_synonym ptr = nat

record store =
  cells :: "ptr \<Rightarrow> stledgerentry option"
  next_ptr :: ptr

definition alloc :: "store \<Rightarrow> stledgerentry \<Rightarrow> ptr \<times> store" where
  "alloc st e = (next_ptr st, st\<lparr>cells := (cells st)(next_ptr st \<mapsto> e), next_ptr := Suc (next_ptr st)\<rparr>)"

definition load :: "store \<Rightarrow> ptr \<Rightarrow> stledgerentry res" where
  "load st p = (case cells st p of None \<Rightarrow> Inl Undefined_behaviour | Some e \<Rightarrow> Inr e)"

text \<open>A change of the fields of an entry through a pointer to it\<close>

definition assign :: "store \<Rightarrow> ptr \<Rightarrow> (stobject \<Rightarrow> stobject) \<Rightarrow> store res" where
  "assign st p f = rbind (load st p) (\<lambda>e. Inr (st\<lparr>cells := (cells st)(p \<mapsto> e\<lparr>sle_object := f (sle_object e)\<rparr>)\<rparr>))"

section \<open>The set\<close>

datatype ledgerentryaction = taanone | taacached | taamodify | taadelete | taacreate

record ledgerentrysetentry =
  mentry :: ptr
  maction :: ledgerentryaction
  ent_seq :: int

text \<open>\<^verbatim>\<open>std::map\<close> as the list of its pairs in the order of the keys\<close>

type_synonym entries = "(uint256 \<times> ledgerentrysetentry) list"

fun ents_put :: "uint256 \<Rightarrow> ledgerentrysetentry \<Rightarrow> entries \<Rightarrow> entries" where
  "ents_put k v [] = [(k, v)]"
| "ents_put k v ((l, w) # xs) =
     (if k < l then (k, v) # (l, w) # xs else if k = l then (k, v) # xs else (l, w) # ents_put k v xs)"

definition ents_erase :: "uint256 \<Rightarrow> entries \<Rightarrow> entries" where
  "ents_erase k xs = filter (\<lambda>x. fst x \<noteq> k) xs"

record ledgerentryset =
  mledger :: "ledger option"
  mentries :: entries
  mseq :: int
  mimmutable :: bool

definition les_new :: "ledger \<Rightarrow> bool \<Rightarrow> ledgerentryset" where
  "les_new l immutable = \<lparr>mledger = Some l, mentries = [], mseq = 0, mimmutable = immutable\<rparr>"

definition les_init :: "ledgerentryset \<Rightarrow> ledger \<Rightarrow> ledgerentryset" where
  "les_init s l = s\<lparr>mentries := [], mledger := Some l, mseq := 0\<rparr>"

definition les_clear :: "ledgerentryset \<Rightarrow> ledgerentryset" where
  "les_clear s = s\<lparr>mentries := []\<rparr>"

definition duplicate :: "ledgerentryset \<Rightarrow> ledgerentryset" where
  "duplicate s = \<lparr>mledger = mledger s, mentries = mentries s, mseq = mseq s + 1, mimmutable = False\<rparr>"

definition swapwith :: "ledgerentryset \<Rightarrow> ledgerentryset \<Rightarrow> ledgerentryset \<times> ledgerentryset" where
  "swapwith s e =
     (s\<lparr>mledger := mledger e, mentries := mentries e, mseq := mseq e\<rparr>,
      e\<lparr>mledger := mledger s, mentries := mentries s, mseq := mseq s\<rparr>)"

definition les_invalidate :: "ledgerentryset \<Rightarrow> ledgerentryset" where
  "les_invalidate s = s\<lparr>mledger := None\<rparr>"

definition les_isvalid :: "ledgerentryset \<Rightarrow> bool" where
  "les_isvalid s \<longleftrightarrow> mledger s \<noteq> None"

definition bumpseq :: "ledgerentryset \<Rightarrow> ledgerentryset" where
  "bumpseq s = s\<lparr>mseq := mseq s + 1\<rparr>"

definition hasentry :: "ledgerentryset \<Rightarrow> uint256 \<Rightarrow> ledgerentryaction" where
  "hasentry s index = (case map_of (mentries s) index of None \<Rightarrow> taanone | Some it \<Rightarrow> maction it)"

definition put_entry :: "ledgerentryset \<Rightarrow> uint256 \<Rightarrow> ptr \<Rightarrow> ledgerentryaction \<Rightarrow> ledgerentryset" where
  "put_entry s k p a = s\<lparr>mentries := ents_put k \<lparr>mentry = p, maction = a, ent_seq = mseq s\<rparr> (mentries s)\<rparr>"

text \<open>Copy on read: an entry of an earlier sequence number is copied first.\<close>

definition getentry :: "store \<Rightarrow> ledgerentryset \<Rightarrow> uint256 \<Rightarrow> (ptr option \<times> ledgerentryaction \<times> store \<times> ledgerentryset) res" where
  "getentry st s index =
     (case map_of (mentries s) index of
        None \<Rightarrow> Inr (None, taanone, st, s)
      | Some it \<Rightarrow>
          if ent_seq it \<noteq> mseq s
          then rassert (ent_seq it < mseq s)
                 (rbind (load st (mentry it)) (\<lambda>e.
                    let (p, st1) = alloc st e
                    in Inr (Some p, maction it, st1, put_entry s index p (maction it))))
          else Inr (Some (mentry it), maction it, st, s))"

definition entrycache_sle :: "store \<Rightarrow> ledgerentryset \<Rightarrow> ptr \<Rightarrow> ledgerentryset res" where
  "entrycache_sle st s p =
     rassert (mledger s \<noteq> None)
       (rbind (load st p) (\<lambda>sle.
        rassert (mmutable sle \<or> mimmutable s)
          (case map_of (mentries s) (mindex sle) of
             None \<Rightarrow> Inr (put_entry s (mindex sle) p taacached)
           | Some it \<Rightarrow>
               if maction it = taacached
               then rassert (p = mentry it) (Inr (put_entry s (mindex sle) p taacached))
               else Inl (Runtime_error ''cache after modify/delete/create''))))"

definition entrycreate_sle :: "store \<Rightarrow> ledgerentryset \<Rightarrow> ptr \<Rightarrow> ledgerentryset res" where
  "entrycreate_sle st s p =
     rassert (mledger s \<noteq> None \<and> \<not> mimmutable s)
       (rbind (load st p) (\<lambda>sle.
        rassert (mmutable sle)
          (case map_of (mentries s) (mindex sle) of
             None \<Rightarrow> Inr (put_entry s (mindex sle) p taacreate)
           | Some it \<Rightarrow>
               (case maction it of
                  taadelete \<Rightarrow> Inr (put_entry s (mindex sle) p taamodify)
                | taamodify \<Rightarrow> Inl (Runtime_error ''create after modify'')
                | taacreate \<Rightarrow> Inl (Runtime_error ''create after create'')
                | taacached \<Rightarrow> Inl (Runtime_error ''create after cache'')
                | taanone \<Rightarrow> Inl (Runtime_error ''unknown taa'')))))"

definition entrymodify :: "store \<Rightarrow> ledgerentryset \<Rightarrow> ptr \<Rightarrow> ledgerentryset res" where
  "entrymodify st s p =
     rbind (load st p) (\<lambda>sle.
     rassert (mmutable sle \<and> \<not> mimmutable s) (rassert (mledger s \<noteq> None)
       (case map_of (mentries s) (mindex sle) of
          None \<Rightarrow> Inr (put_entry s (mindex sle) p taamodify)
        | Some it \<Rightarrow>
            rassert (ent_seq it = mseq s) (rassert (mentry it = p)
              (case maction it of
                 taacached \<Rightarrow> Inr (put_entry s (mindex sle) p taamodify)
               | taacreate \<Rightarrow> Inr (put_entry s (mindex sle) p taacreate)
               | taamodify \<Rightarrow> Inr (put_entry s (mindex sle) p taamodify)
               | taadelete \<Rightarrow> Inl (Runtime_error ''modify after delete'')
               | taanone \<Rightarrow> Inl (Runtime_error ''unknown taa''))))))"

definition entrydelete :: "store \<Rightarrow> ledgerentryset \<Rightarrow> ptr \<Rightarrow> ledgerentryset res" where
  "entrydelete st s p =
     rbind (load st p) (\<lambda>sle.
     rassert (mmutable sle \<and> \<not> mimmutable s) (rassert (mledger s \<noteq> None)
       (case map_of (mentries s) (mindex sle) of
          None \<Rightarrow> Inl Assertion_failed
        | Some it \<Rightarrow>
            rassert (ent_seq it = mseq s) (rassert (mentry it = p)
              (case maction it of
                 taacached \<Rightarrow> Inr (put_entry s (mindex sle) p taadelete)
               | taamodify \<Rightarrow> Inr (put_entry s (mindex sle) p taadelete)
               | taacreate \<Rightarrow> Inr (s\<lparr>mentries := ents_erase (mindex sle) (mentries s)\<rparr>)
               | taadelete \<Rightarrow> Inr s
               | taanone \<Rightarrow> Inl (Runtime_error ''unknown taa''))))))"

definition entrycreate :: "store \<Rightarrow> ledgerentryset \<Rightarrow> int \<Rightarrow> uint256 \<Rightarrow> (ptr \<times> store \<times> ledgerentryset) res" where
  "entrycreate st s lettype index =
     rassert (index \<noteq> 0)
       (rbind (sle_new lettype index) (\<lambda>e.
          let (p, st1) = alloc st e
          in rbind (entrycreate_sle st1 s p) (\<lambda>s1. Inr (p, st1, s1))))"

text \<open>The type is not looked at.\<close>

definition entrycache :: "store \<Rightarrow> ledgerentryset \<Rightarrow> int \<Rightarrow> uint256 \<Rightarrow> (ptr option \<times> store \<times> ledgerentryset) res" where
  "entrycache st s lettype index =
     rassert (mledger s \<noteq> None)
       (if index = 0 then Inr (None, st, s)
       else rbind (getentry st s index) (\<lambda>(p, action, st1, s1).
         case p of
           None \<Rightarrow>
             rassert (action \<noteq> taadelete)
               (rbind (deref (mledger s)) (\<lambda>l.
                rbind (if mimmutable s then getslei l index else getsle l index) (\<lambda>r.
                  case r of
                    None \<Rightarrow> Inr (None, st1, s1)
                  | Some e \<Rightarrow>
                      let (q, st2) = alloc st1 e
                      in rbind (entrycache_sle st2 s1 q) (\<lambda>s2. Inr (Some q, st2, s2)))))
         | Some q \<Rightarrow> Inr (if action = taadelete then None else Some q, st1, s1)))"

section \<open>The next index\<close>

text \<open>The next entry of the ledger that the set does not delete\<close>

partial_function (option) ledger_next :: "ledger \<Rightarrow> entries \<Rightarrow> uint256 \<Rightarrow> uint256 res option" where
  "ledger_next l es ledgernext =
     (case Ledger_State.getnextledgerindex l ledgernext of
        Inl e \<Rightarrow> Some (Inl e)
      | Inr n \<Rightarrow>
          (case map_of es n of
             Some it \<Rightarrow> if maction it = taadelete then ledger_next l es n else Some (Inr n)
           | None \<Rightarrow> Some (Inr n)))"

definition les_next :: "entries \<Rightarrow> uint256 \<Rightarrow> uint256 option" where
  "les_next es uhash = map_option fst (find (\<lambda>x. maction (snd x) \<noteq> taadelete) (dropWhile (\<lambda>x. fst x \<le> uhash) es))"

definition les_getnextledgerindex :: "ledgerentryset \<Rightarrow> uint256 \<Rightarrow> uint256 res option" where
  "les_getnextledgerindex s uhash =
     (case mledger s of
        None \<Rightarrow> Some (Inl Undefined_behaviour)
      | Some l \<Rightarrow>
          map_option (\<lambda>r. rbind r (\<lambda>ledgernext.
              Inr (case les_next (mentries s) uhash of
                     Some k \<Rightarrow> if ledgernext \<noteq> 0 \<and> ledgernext < k then ledgernext else k
                   | None \<Rightarrow> ledgernext)))
            (ledger_next l (mentries s) uhash))"

definition les_getnextledgerindex_end :: "ledgerentryset \<Rightarrow> uint256 \<Rightarrow> uint256 \<Rightarrow> uint256 res option" where
  "les_getnextledgerindex_end s uhash uend =
     map_option (\<lambda>r. rbind r (\<lambda>next. Inr (if uend < next then 0 else next))) (les_getnextledgerindex s uhash)"

section \<open>Writing the set to the ledger\<close>

fun txnwrite :: "hash \<Rightarrow> store \<Rightarrow> entries \<Rightarrow> ledger \<Rightarrow> ledger res" where
  "txnwrite sha st [] l = Inr l"
| "txnwrite sha st ((k, it) # es) l =
     rbind
       (case maction it of
          taanone \<Rightarrow> Inl Assertion_failed
        | taacached \<Rightarrow> Inr l
        | taacreate \<Rightarrow> rbind (load st (mentry it)) (\<lambda>e. rbind (writeback sha l lepcreate e) (\<lambda>(r, l1).
            rassert (r AND leperror = 0) (Inr l1)))
        | taamodify \<Rightarrow> rbind (load st (mentry it)) (\<lambda>e. rbind (writeback sha l lepnone e) (\<lambda>(r, l1).
            rassert (r AND leperror = 0) (Inr l1)))
        | taadelete \<Rightarrow> rbind (delitem sha (maccountstatemap l) k) (\<lambda>(ok, m).
            rassert ok (Inr (l\<lparr>maccountstatemap := m\<rparr>))))
       (\<lambda>l1. txnwrite sha st es l1)"

end
