(* ===== verification/Entry_View.thy ===== *)
theory Entry_View
  imports Entry_Set
begin

text \<open>
  What a set of entries shows of the ledger, and that it is what the ledger holds once the set is written:
  reading, editing, creating and deleting entries through the set are the same operations on a map of entries,
  and \<^verbatim>\<open>txnWrite\<close> turns the ledger into that map.
\<close>

section \<open>Ordered lists of entries\<close>

abbreviation sorted_keys :: "entries \<Rightarrow> bool" where
  "sorted_keys es \<equiv> sorted_wrt (<) (map fst es)"

lemma map_of_put [simp]: "map_of (ents_put k v es) = (map_of es)(k \<mapsto> v)"
  by (induction k v es rule: ents_put.induct) (auto simp: fun_eq_iff)

lemma map_of_erase [simp]: "map_of (ents_erase k es) = (map_of es)(k := None)"
  by (induction es) (auto simp: ents_erase_def fun_eq_iff)

lemma keys_put: "set (map fst (ents_put k v es)) = insert k (set (map fst es))"
  by (induction k v es rule: ents_put.induct) auto

lemma sorted_put: "sorted_keys es \<Longrightarrow> sorted_keys (ents_put k v es)"
proof (induction es)
  case (Cons x es)
  then show ?case using keys_put [of k v es] by (cases x) (auto intro: order.strict_trans)
qed simp

lemma sorted_erase: "sorted_keys es \<Longrightarrow> sorted_keys (ents_erase k es)"
  by (induction es) (auto simp: ents_erase_def)

section \<open>The invariant\<close>

text \<open>
  For each key the entry has that index and is a good one, and its action agrees with the ledger: a cached entry is
  as it is there, a created one is not there, a modified or deleted one is.
\<close>

definition ent_ok :: "ledger \<Rightarrow> (stledgerentry \<Rightarrow> bool) \<Rightarrow> store \<Rightarrow> int \<Rightarrow> uint256 \<Rightarrow> ledgerentrysetentry \<Rightarrow> bool" where
  "ent_ok l good st seq k it \<longleftrightarrow>
     k \<noteq> 0 \<and> mentry it < next_ptr st \<and> ent_seq it \<le> seq \<and>
     (\<exists>e. cells st (mentry it) = Some e \<and> mindex e = k \<and> good e \<and>
       (case maction it of
          taanone \<Rightarrow> False
        | taacached \<Rightarrow> getsle l k = Inr (Some e)
        | taacreate \<Rightarrow> getsle l k = Inr None
        | taamodify \<Rightarrow> \<exists>e0. getsle l k = Inr (Some e0)
        | taadelete \<Rightarrow> \<exists>e0. getsle l k = Inr (Some e0)))"

definition les_ok :: "ledger \<Rightarrow> (stledgerentry \<Rightarrow> bool) \<Rightarrow> store \<Rightarrow> ledgerentryset \<Rightarrow> bool" where
  "les_ok l good st s \<longleftrightarrow>
     mledger s = Some l \<and> \<not> mimmutable s \<and> sorted_keys (mentries s) \<and>
     (\<forall>k it. map_of (mentries s) k = Some it \<longrightarrow> ent_ok l good st (mseq s) k it)"

definition ledger_good :: "(stledgerentry \<Rightarrow> bool) \<Rightarrow> ledger \<Rightarrow> bool" where
  "ledger_good good l \<longleftrightarrow> getsle l 0 = Inr None \<and>
     (\<forall>k. \<exists>r. getsle l k = Inr r \<and> (\<forall>e. r = Some e \<longrightarrow> good e \<and> mindex e = k))"

definition ledger_view :: "ledger \<Rightarrow> uint256 \<Rightarrow> stledgerentry option" where
  "ledger_view l k = (case getsle l k of Inr r \<Rightarrow> r | Inl _ \<Rightarrow> None)"

definition view :: "store \<Rightarrow> ledgerentryset \<Rightarrow> uint256 \<Rightarrow> stledgerentry option" where
  "view st s k =
     (case map_of (mentries s) k of
        Some it \<Rightarrow> if maction it = taadelete then None else cells st (mentry it)
      | None \<Rightarrow> (case mledger s of Some l \<Rightarrow> ledger_view l k | None \<Rightarrow> None))"

lemma put_entry_simps [simp]:
  "mentries (put_entry s k p a) = ents_put k \<lparr>mentry = p, maction = a, ent_seq = mseq s\<rparr> (mentries s)"
  "mseq (put_entry s k p a) = mseq s" "mledger (put_entry s k p a) = mledger s" "mimmutable (put_entry s k p a) = mimmutable s"
  by (simp_all add: put_entry_def)

lemma les_okD:
  assumes "les_ok l good st s" "map_of (mentries s) k = Some it"
  obtains e where "k \<noteq> 0" "mentry it < next_ptr st" "ent_seq it \<le> mseq s" "cells st (mentry it) = Some e" "mindex e = k" "good e"
    "maction it \<noteq> taanone"
proof -
  have ok: "ent_ok l good st (mseq s) k it" using assms by (simp add: les_ok_def)
  then obtain e where e: "k \<noteq> 0" "mentry it < next_ptr st" "ent_seq it \<le> mseq s" "cells st (mentry it) = Some e"
    "mindex e = k" "good e" by (auto simp: ent_ok_def)
  have "maction it \<noteq> taanone" using ok by (auto simp: ent_ok_def)
  then show thesis by (rule that [OF e])
qed

lemma pointers_differ:
  assumes "les_ok l good st s" "map_of (mentries s) k = Some it" "map_of (mentries s) k' = Some it'" "k \<noteq> k'"
  shows "mentry it \<noteq> mentry it'"
proof (rule les_okD [OF assms(1,2)])
  fix e
  assume e: "cells st (mentry it) = Some e" "mindex e = k"
  show ?thesis by (rule les_okD [OF assms(1,3)]) (use e assms(4) in auto)
qed

text \<open>The one step all operations consist of: an entry is put for a key, and the cells of other keys are as before.\<close>

lemma put_ok:
  assumes s: "les_ok l good st s" and n: "next_ptr st \<le> next_ptr st'"
    and same: "\<And>k' it. k' \<noteq> k \<Longrightarrow> map_of (mentries s) k' = Some it \<Longrightarrow> cells st' (mentry it) = cells st (mentry it)"
    and it: "ent_ok l good st' (mseq s) k \<lparr>mentry = p, maction = a, ent_seq = mseq s\<rparr>"
  shows "les_ok l good st' (put_entry s k p a)"
    and "view st' (put_entry s k p a) = (view st s)(k := if a = taadelete then None else cells st' p)"
proof -
  have old: "ent_ok l good st' (mseq s) k' it'" if "k' \<noteq> k" "map_of (mentries s) k' = Some it'" for k' it'
  proof -
    have "ent_ok l good st (mseq s) k' it'" using s that(2) by (simp add: les_ok_def)
    then show ?thesis using same [OF that] n by (simp add: ent_ok_def)
  qed
  show "les_ok l good st' (put_entry s k p a)" using s it old by (auto simp: les_ok_def sorted_put)
  show "view st' (put_entry s k p a) = (view st s)(k := if a = taadelete then None else cells st' p)"
  proof
    fix k'
    show "view st' (put_entry s k p a) k' = ((view st s)(k := if a = taadelete then None else cells st' p)) k'"
      using same [of k'] by (cases "k' = k"; cases "map_of (mentries s) k'") (simp_all add: view_def)
  qed
qed

lemma alloc_simps [simp]:
  "fst (alloc st e) = next_ptr st" "cells (snd (alloc st e)) = (cells st)(next_ptr st \<mapsto> e)"
  "next_ptr (snd (alloc st e)) = Suc (next_ptr st)"
  by (simp_all add: alloc_def)

lemma alloc_same:
  assumes "les_ok l good st s" "map_of (mentries s) k = Some it"
  shows "cells (snd (alloc st e)) (mentry it) = cells st (mentry it)"
  by (rule les_okD [OF assms]) simp

section \<open>Reading an entry\<close>

definition current :: "ledgerentryset \<Rightarrow> uint256 \<Rightarrow> ptr \<Rightarrow> ledgerentryaction \<Rightarrow> bool" where
  "current s k p a \<longleftrightarrow> map_of (mentries s) k = Some \<lparr>mentry = p, maction = a, ent_seq = mseq s\<rparr>"

lemma view_entry: "map_of (mentries s) k = Some it \<Longrightarrow> view st s k = (if maction it = taadelete then None else cells st (mentry it))"
  by (simp add: view_def)

lemma getentry_ok:
  assumes s: "les_ok l good st s" and it: "map_of (mentries s) k = Some it"
  shows "\<exists>p st' s'. getentry st s k = Inr (Some p, maction it, st', s') \<and> les_ok l good st' s' \<and>
    view st' s' = view st s \<and> current s' k p (maction it) \<and> cells st' p = cells st (mentry it)"
proof (rule les_okD [OF s it])
  fix e
  assume e: "k \<noteq> 0" "mentry it < next_ptr st" "ent_seq it \<le> mseq s" "cells st (mentry it) = Some e" "mindex e = k" "good e"
    "maction it \<noteq> taanone"
  show ?thesis
  proof (cases "ent_seq it = mseq s")
    case True
    then have "current s k (mentry it) (maction it)" using it by (cases it) (simp add: current_def)
    moreover have "getentry st s k = Inr (Some (mentry it), maction it, st, s)" using it True by (simp add: getentry_def)
    ultimately show ?thesis using s by blast
  next
    case False
    let ?st = "snd (alloc st e)" and ?p = "next_ptr st"
    let ?s = "put_entry s k ?p (maction it)"
    have "ent_ok l good st (mseq s) k it" using s it by (simp add: les_ok_def)
    then have ok: "ent_ok l good ?st (mseq s) k \<lparr>mentry = ?p, maction = maction it, ent_seq = mseq s\<rparr>"
      using e by (simp add: ent_ok_def)
    have n: "next_ptr st \<le> next_ptr ?st" by simp
    note q = put_ok [OF s n alloc_same [OF s] ok]
    have "view ?st ?s = view st s" using q(2) view_entry [OF it, of st] e(4) by (simp add: fun_eq_iff)
    moreover have "getentry st s k = Inr (Some ?p, maction it, ?st, ?s)"
      using it False e(3,4) by (simp add: getentry_def load_def alloc_def)
    moreover have "current ?s k ?p (maction it)" by (simp add: current_def)
    ultimately show ?thesis using q(1) e(4) by (intro exI [of _ ?p] exI [of _ ?st] exI [of _ ?s]) simp
  qed
qed

text \<open>The entry a read returns is what the set shows, and reading changes nothing of that.\<close>

lemma entrycache_ok:
  assumes l: "ledger_good good l" and s: "les_ok l good st s" and mut: "\<And>e. good e \<Longrightarrow> mmutable e"
  shows "\<exists>r st' s'. entrycache st s t k = Inr (r, st', s') \<and> les_ok l good st' s' \<and> view st' s' = view st s \<and>
    (case r of None \<Rightarrow> view st s k = None
     | Some p \<Rightarrow> k \<noteq> 0 \<and> (\<exists>a. current s' k p a \<and> a \<noteq> taadelete) \<and> cells st' p = view st s k \<and> view st s k \<noteq> None)"
proof -
  have led: "mledger s = Some l" "\<not> mimmutable s" using s by (simp_all add: les_ok_def)
  have l0: "getsle l 0 = Inr None" using l by (simp add: ledger_good_def)
  consider (zero) "k = 0" | (there) it where "k \<noteq> 0" "map_of (mentries s) k = Some it"
    | (fetch) "k \<noteq> 0" "map_of (mentries s) k = None" by (cases "map_of (mentries s) k") auto
  then show ?thesis
  proof cases
    case zero
    then have "map_of (mentries s) k = None" using les_okD [OF s, of k] by (cases "map_of (mentries s) k") auto
    then have "view st s k = None" using led l0 zero by (simp add: view_def ledger_view_def)
    then show ?thesis using zero s led by (intro exI [of _ None] exI [of _ st] exI [of _ s]) (simp add: entrycache_def)
  next
    case there
    obtain p st' s' where g: "getentry st s k = Inr (Some p, maction it, st', s')" "les_ok l good st' s'"
      "view st' s' = view st s" "current s' k p (maction it)" "cells st' p = cells st (mentry it)"
      using getentry_ok [OF s there(2)] by blast
    show ?thesis
    proof (cases "maction it = taadelete")
      case True
      then show ?thesis using g there led view_entry [OF there(2), of st]
        by (intro exI [of _ None] exI [of _ st'] exI [of _ s']) (simp add: entrycache_def)
    next
      case False
      have "cells st (mentry it) \<noteq> None" by (rule les_okD [OF s there(2)]) simp
      then show ?thesis using g there led view_entry [OF there(2), of st] False
        by (intro exI [of _ "Some p"] exI [of _ st'] exI [of _ s']) (auto simp: entrycache_def)
    qed
  next
    case fetch
    obtain r where r: "getsle l k = Inr r" "\<forall>e. r = Some e \<longrightarrow> good e \<and> mindex e = k" using l by (auto simp: ledger_good_def)
    have g: "getentry st s k = Inr (None, taanone, st, s)" using fetch(2) by (simp add: getentry_def)
    have v: "view st s k = r" using fetch(2) led r(1) by (simp add: view_def ledger_view_def)
    show ?thesis
    proof (cases r)
      case None
      then show ?thesis using g fetch led r(1) v s
        by (intro exI [of _ None] exI [of _ st] exI [of _ s]) (simp add: entrycache_def)
    next
      case (Some e)
      let ?st = "snd (alloc st e)" and ?p = "next_ptr st"
      let ?s = "put_entry s k ?p taacached"
      have e: "good e" "mindex e = k" using r(2) Some by simp_all
      have ok: "ent_ok l good ?st (mseq s) k \<lparr>mentry = ?p, maction = taacached, ent_seq = mseq s\<rparr>"
        using e fetch(1) r(1) Some by (simp add: ent_ok_def)
      have n: "next_ptr st \<le> next_ptr ?st" by simp
      note q = put_ok [OF s n alloc_same [OF s] ok]
      have "view ?st ?s = view st s" using q(2) v Some by (simp add: fun_eq_iff)
      moreover have "entrycache_sle ?st s ?p = Inr ?s"
        using led e mut [OF e(1)] fetch(2) by (simp add: entrycache_sle_def load_def)
      then have "entrycache st s t k = Inr (Some ?p, ?st, ?s)"
        using g fetch(1) led r(1) Some by (simp add: entrycache_def alloc_def)
      moreover have "current ?s k ?p taacached" by (simp add: current_def)
      ultimately show ?thesis using q(1) v Some fetch(1)
        by (intro exI [of _ "Some ?p"] exI [of _ ?st] exI [of _ ?s]) auto
    qed
  qed
qed

section \<open>Changing entries\<close>

abbreviation edit :: "(stobject \<Rightarrow> stobject) \<Rightarrow> stledgerentry \<Rightarrow> stledgerentry" where
  "edit f e \<equiv> e\<lparr>sle_object := f (sle_object e)\<rparr>"

text \<open>An edit of an entry that was read, made known with \<^verbatim>\<open>entryModify\<close>\<close>

lemma edit_ok:
  assumes s: "les_ok l good st s" and p: "current s k p a" "a \<noteq> taadelete" and e: "cells st p = Some e"
    and f: "good (edit f e)" and mut: "\<And>e. good e \<Longrightarrow> mmutable e"
  shows "\<exists>st' s'. assign st p f = Inr st' \<and> entrymodify st' s p = Inr s' \<and> les_ok l good st' s' \<and>
    view st' s' = (view st s)(k \<mapsto> edit f e)"
proof -
  let ?st = "st\<lparr>cells := (cells st)(p \<mapsto> edit f e)\<rparr>" and ?a = "if a = taacached then taamodify else a"
  have it: "map_of (mentries s) k = Some \<lparr>mentry = p, maction = a, ent_seq = mseq s\<rparr>" using p(1) by (simp add: current_def)
  have old: "ent_ok l good st (mseq s) k \<lparr>mentry = p, maction = a, ent_seq = mseq s\<rparr>" using s it by (simp add: les_ok_def)
  then have k: "mindex e = k" using e by (simp add: ent_ok_def)
  have ok: "ent_ok l good ?st (mseq s) k \<lparr>mentry = p, maction = ?a, ent_seq = mseq s\<rparr>"
    using old e f p(2) by (cases a) (auto simp: ent_ok_def)
  have same: "cells ?st (mentry it') = cells st (mentry it')" if "k' \<noteq> k" "map_of (mentries s) k' = Some it'" for k' it'
    using pointers_differ [OF s it that(2)] that(1) by simp
  have n: "next_ptr st \<le> next_ptr ?st" by simp
  note q = put_ok [OF s n same ok]
  have "mmutable (edit f e)" using mut f by blast
  then have "entrymodify ?st s p = Inr (put_entry s k p ?a)"
    using it k s p(2) old by (cases a) (auto simp: entrymodify_def load_def les_ok_def ent_ok_def)
  moreover have "assign st p f = Inr ?st" using e by (simp add: assign_def load_def)
  ultimately show ?thesis using q p(2) by (intro exI [of _ ?st] exI [of _ "put_entry s k p ?a"]) auto
qed

text \<open>A new entry for an index the set shows none for, filled in afterwards\<close>

lemma create_ok:
  assumes l: "ledger_good good l" and s: "les_ok l good st s" and k: "k \<noteq> 0" "view st s k = None"
    and e: "sle_new t k = Inr e" "good (edit f e)"
  shows "\<exists>p st1 s' st'. entrycreate st s t k = Inr (p, st1, s') \<and> assign st1 p f = Inr st' \<and> les_ok l good st' s' \<and>
    view st' s' = (view st s)(k \<mapsto> edit f e)"
proof -
  let ?p = "next_ptr st" and ?st1 = "snd (alloc st e)"
  let ?st = "?st1\<lparr>cells := (cells ?st1)(?p \<mapsto> edit f e)\<rparr>"
  have new: "mindex e = k" "mmutable e"
    using e(1) by (auto simp: sle_new_def rbind_eq_Inr_iff split: option.splits)
  have led: "mledger s = Some l" "\<not> mimmutable s" using s by (simp_all add: les_ok_def)
  obtain r where r: "getsle l k = Inr r" using l by (auto simp: ledger_good_def)
  have act: "map_of (mentries s) k = None \<and> r = None \<or>
      (\<exists>it. map_of (mentries s) k = Some it \<and> maction it = taadelete \<and> (\<exists>e0. getsle l k = Inr (Some e0)))"
  proof (cases "map_of (mentries s) k")
    case None
    then show ?thesis using k(2) led r by (simp add: view_def ledger_view_def)
  next
    case (Some it)
    have "ent_ok l good st (mseq s) k it" using s Some by (simp add: les_ok_def)
    then show ?thesis using k(2) Some by (auto simp: view_def ent_ok_def split: if_splits)
  qed
  define a where "a = (if map_of (mentries s) k = None then taacreate else taamodify)"
  have ok: "ent_ok l good ?st (mseq s) k \<lparr>mentry = ?p, maction = a, ent_seq = mseq s\<rparr>"
    using act new e(2) k(1) r by (auto simp: ent_ok_def a_def)
  have same: "cells ?st (mentry it') = cells st (mentry it')" if "k' \<noteq> k" "map_of (mentries s) k' = Some it'" for k' it'
    using alloc_same [OF s that(2), of e] les_okD [OF s that(2)] by fastforce
  have n: "next_ptr st \<le> next_ptr ?st" by simp
  note q = put_ok [OF s n same ok]
  have "entrycreate_sle ?st1 s ?p = Inr (put_entry s k ?p a)"
    using act led new by (auto simp: entrycreate_sle_def load_def a_def)
  then have "entrycreate st s t k = Inr (?p, ?st1, put_entry s k ?p a)"
    using k(1) e(1) by (simp add: entrycreate_def alloc_def)
  moreover have "assign ?st1 ?p f = Inr ?st" by (simp add: assign_def load_def)
  moreover have "a \<noteq> taadelete" by (simp add: a_def)
  ultimately show ?thesis using q by (intro exI [of _ ?p] exI [of _ ?st1] exI [of _ "put_entry s k ?p a"] exI [of _ ?st]) simp
qed

lemma delete_ok:
  assumes s: "les_ok l good st s" and p: "current s k p a" "a \<noteq> taadelete" and mut: "\<And>e. good e \<Longrightarrow> mmutable e"
  shows "\<exists>s'. entrydelete st s p = Inr s' \<and> les_ok l good st s' \<and> view st s' = (view st s)(k := None)"
proof -
  have it: "map_of (mentries s) k = Some \<lparr>mentry = p, maction = a, ent_seq = mseq s\<rparr>" using p(1) by (simp add: current_def)
  have old: "ent_ok l good st (mseq s) k \<lparr>mentry = p, maction = a, ent_seq = mseq s\<rparr>" using s it by (simp add: les_ok_def)
  then obtain e where e: "cells st p = Some e" "mindex e = k" "mmutable e" using mut by (auto simp: ent_ok_def)
  have led: "mledger s = Some l" "\<not> mimmutable s" using s by (simp_all add: les_ok_def)
  show ?thesis
  proof (cases "a = taacreate")
    case True
    let ?s = "s\<lparr>mentries := ents_erase k (mentries s)\<rparr>"
    have "les_ok l good st ?s" using s by (auto simp: les_ok_def sorted_erase)
    moreover have "getsle l k = Inr None" using old True by (auto simp: ent_ok_def)
    then have "view st ?s = (view st s)(k := None)" using led by (auto simp: fun_eq_iff view_def ledger_view_def split: option.split)
    moreover have "entrydelete st s p = Inr ?s" using it e led True by (simp add: entrydelete_def load_def)
    ultimately show ?thesis by blast
  next
    case False
    have ok: "ent_ok l good st (mseq s) k \<lparr>mentry = p, maction = taadelete, ent_seq = mseq s\<rparr>"
      using old p(2) False by (cases a) (auto simp: ent_ok_def)
    note q = put_ok [OF s order_refl refl ok]
    have "entrydelete st s p = Inr (put_entry s k p taadelete)"
      using it e led p(2) False old by (cases a) (simp_all add: entrydelete_def load_def ent_ok_def)
    then show ?thesis using q by auto
  qed
qed

section \<open>Programs that use a set\<close>

text \<open>
  What transactors do with a set: look an entry up; look it up, create it if there is none, and set its fields;
  look it up and delete it.
\<close>

datatype les_op = Op_read uint256 | Op_put int uint256 "stobject \<Rightarrow> stobject" | Op_delete uint256

fun les_apply :: "les_op \<Rightarrow> store \<times> ledgerentryset \<Rightarrow> (store \<times> ledgerentryset) res" where
  "les_apply (Op_read k) (st, s) = rbind (entrycache st s ltinvalid k) (\<lambda>(_, st1, s1). Inr (st1, s1))"
| "les_apply (Op_put t k f) (st, s) =
     rbind (entrycache st s t k) (\<lambda>(r, st1, s1).
       case r of
         None \<Rightarrow> rbind (entrycreate st1 s1 t k) (\<lambda>(p, st2, s2). rbind (assign st2 p f) (\<lambda>st3. Inr (st3, s2)))
       | Some p \<Rightarrow> rbind (assign st1 p f) (\<lambda>st2. rbind (entrymodify st2 s1 p) (\<lambda>s2. Inr (st2, s2))))"
| "les_apply (Op_delete k) (st, s) =
     rbind (entrycache st s ltinvalid k) (\<lambda>(r, st1, s1).
       case r of
         None \<Rightarrow> Inr (st1, s1)
       | Some p \<Rightarrow> rbind (entrydelete st1 s1 p) (\<lambda>s2. Inr (st1, s2)))"

text \<open>The same on a map of entries\<close>

fun map_apply :: "les_op \<Rightarrow> (uint256 \<Rightarrow> stledgerentry option) \<Rightarrow> uint256 \<Rightarrow> stledgerentry option" where
  "map_apply (Op_read k) m = m"
| "map_apply (Op_put t k f) m =
     m(k := case m k of
              Some e \<Rightarrow> Some (edit f e)
            | None \<Rightarrow> (case sle_new t k of Inr e \<Rightarrow> Some (edit f e) | Inl _ \<Rightarrow> None))"
| "map_apply (Op_delete k) m = m(k := None)"

fun op_ok :: "(stledgerentry \<Rightarrow> bool) \<Rightarrow> les_op \<Rightarrow> bool" where
  "op_ok good (Op_put t k f) \<longleftrightarrow> k \<noteq> 0 \<and> (\<forall>e. good e \<and> mindex e = k \<longrightarrow> good (edit f e)) \<and>
     (\<exists>e. sle_new t k = Inr e \<and> good (edit f e))"
| "op_ok good _ \<longleftrightarrow> True"

definition les_inv :: "ledger \<Rightarrow> (stledgerentry \<Rightarrow> bool) \<Rightarrow> store \<times> ledgerentryset \<Rightarrow> bool" where
  "les_inv l good x \<longleftrightarrow> les_ok l good (fst x) (snd x) \<and> ledger_good good l \<and> (\<forall>e. good e \<longrightarrow> mmutable e)"

lemma view_good:
  assumes "ledger_good good l" "les_ok l good st s" "view st s k = Some e"
  shows "good e \<and> mindex e = k"
proof (cases "map_of (mentries s) k")
  case None
  obtain r where "getsle l k = Inr r" "\<forall>e. r = Some e \<longrightarrow> good e \<and> mindex e = k" using assms(1) by (auto simp: ledger_good_def)
  then show ?thesis using assms(2,3) None by (simp add: view_def ledger_view_def les_ok_def)
next
  case (Some it)
  show ?thesis by (rule les_okD [OF assms(2) Some]) (use assms(3) Some in \<open>auto simp: view_def split: if_splits\<close>)
qed

lemma put_step:
  assumes inv: "les_inv l good (st, s)" and op: "op_ok good (Op_put t k f)"
  shows "\<exists>st' s'. les_apply (Op_put t k f) (st, s) = Inr (st', s') \<and> les_ok l good st' s' \<and>
    view st' s' = map_apply (Op_put t k f) (view st s)"
proof -
  have l: "ledger_good good l" "les_ok l good st s" "\<And>e. good e \<Longrightarrow> mmutable e" using inv by (simp_all add: les_inv_def)
  obtain r st1 s1 where c: "entrycache st s t k = Inr (r, st1, s1)" "les_ok l good st1 s1" "view st1 s1 = view st s"
    "case r of None \<Rightarrow> view st s k = None
     | Some p \<Rightarrow> k \<noteq> 0 \<and> (\<exists>a. current s1 k p a \<and> a \<noteq> taadelete) \<and> cells st1 p = view st s k \<and> view st s k \<noteq> None"
    using entrycache_ok [OF l, of t k] by blast
  show ?thesis
  proof (cases r)
    case None
    obtain e where e: "sle_new t k = Inr e" "good (edit f e)" and k: "k \<noteq> 0" using op by auto
    obtain p st2 s2 st3 where "entrycreate st1 s1 t k = Inr (p, st2, s2)" "assign st2 p f = Inr st3" "les_ok l good st3 s2"
      "view st3 s2 = (view st1 s1)(k \<mapsto> edit f e)"
      using create_ok [OF l(1) c(2) k, of t e f] c(3,4) None e by auto
    then show ?thesis using c None e(1) by (intro exI [of _ st3] exI [of _ s2]) simp
  next
    case (Some p)
    then obtain a e where a: "current s1 k p a" "a \<noteq> taadelete" "cells st1 p = Some e" "view st s k = Some e" using c(4) by auto
    have "good (edit f e)" using view_good [OF l(1,2) a(4)] op by simp
    then obtain st2 s2 where "assign st1 p f = Inr st2" "entrymodify st2 s1 p = Inr s2" "les_ok l good st2 s2"
      "view st2 s2 = (view st1 s1)(k \<mapsto> edit f e)"
      using edit_ok [OF c(2) a(1,2,3) _ l(3)] by blast
    then show ?thesis using c Some a(4) by (intro exI [of _ st2] exI [of _ s2]) simp
  qed
qed

lemma delete_step:
  assumes inv: "les_inv l good (st, s)"
  shows "\<exists>st' s'. les_apply (Op_delete k) (st, s) = Inr (st', s') \<and> les_ok l good st' s' \<and>
    view st' s' = (view st s)(k := None)"
proof -
  have l: "ledger_good good l" "les_ok l good st s" "\<And>e. good e \<Longrightarrow> mmutable e" using inv by (simp_all add: les_inv_def)
  obtain r st1 s1 where c: "entrycache st s ltinvalid k = Inr (r, st1, s1)" "les_ok l good st1 s1" "view st1 s1 = view st s"
    "case r of None \<Rightarrow> view st s k = None
     | Some p \<Rightarrow> k \<noteq> 0 \<and> (\<exists>a. current s1 k p a \<and> a \<noteq> taadelete) \<and> cells st1 p = view st s k \<and> view st s k \<noteq> None"
    using entrycache_ok [OF l, of ltinvalid k] by blast
  show ?thesis
  proof (cases r)
    case None
    then show ?thesis using c by (intro exI [of _ st1] exI [of _ s1]) (auto simp: fun_eq_iff)
  next
    case (Some p)
    then obtain a where a: "current s1 k p a" "a \<noteq> taadelete" using c(4) by auto
    obtain s2 where "entrydelete st1 s1 p = Inr s2" "les_ok l good st1 s2" "view st1 s2 = (view st1 s1)(k := None)"
      using delete_ok [OF c(2) a l(3)] by blast
    then show ?thesis using c Some by (intro exI [of _ st1] exI [of _ s2]) simp
  qed
qed

interpretation les_sim: simulation "\<lambda>op _. op_ok good op" "les_inv l good" "\<lambda>(st, s). view st s" les_apply map_apply for l good
proof
  fix op and x :: "store \<times> ledgerentryset"
  assume op: "op_ok good op" and inv: "les_inv l good x"
  obtain st s where x: "x = (st, s)" by (cases x)
  have rest: "ledger_good good l" "les_ok l good st s" "\<And>e. good e \<Longrightarrow> mmutable e" using inv by (simp_all add: les_inv_def x)
  have "\<exists>st' s'. les_apply op (st, s) = Inr (st', s') \<and> les_ok l good st' s' \<and> view st' s' = map_apply op (view st s)"
  proof (cases op)
    case (Op_read k)
    then show ?thesis using entrycache_ok [OF rest, of ltinvalid k] by fastforce
  next
    case (Op_put t k f)
    then show ?thesis using put_step inv op unfolding x by blast
  next
    case (Op_delete k)
    then show ?thesis using delete_step [of l good st s k] inv by (simp add: x del: les_apply.simps)
  qed
  then show "\<exists>x'. les_apply op x = Inr x' \<and> les_inv l good x' \<and>
      (case x' of (st, s) \<Rightarrow> view st s) = map_apply op (case x of (st, s) \<Rightarrow> view st s)"
    using rest by (auto simp: x les_inv_def)
qed

section \<open>Writing the set\<close>

lemma getsle_none:
  assumes "state_ok sha U l"
  shows "getsle l k = Inr None \<longleftrightarrow> content (maccountstatemap l) k = None"
  using getsle_content [OF assms, of k] by (auto simp: rbind_def split: option.splits sum.splits)

text \<open>What a written entry leaves in the ledger\<close>

definition written_bytes :: "store \<Rightarrow> ledgerentrysetentry \<Rightarrow> blob option \<Rightarrow> blob option" where
  "written_bytes st it old =
     (case maction it of
        taadelete \<Rightarrow> None
      | taacreate \<Rightarrow> map_option sle_bytes (cells st (mentry it))
      | taamodify \<Rightarrow> map_option sle_bytes (cells st (mentry it))
      | _ \<Rightarrow> old)"

lemma lep_flags [simp]: "lepcreated AND leperror = 0" "lepokay AND leperror = 0" "lepmissing AND leperror = 0"
  "lepcreate \<noteq> 0" "lepnone AND lepcreate = 0"
  by (simp_all add: lepcreated_def leperror_def lepokay_def lepmissing_def lepcreate_def lepnone_def)

lemma txnwrite_entry:
  assumes cf: "collision_free sha tnaccount_state U" and l: "state_ok sha U l0" "state_ok sha U l" "writable (maccountstatemap l)"
    and it: "ent_ok l0 good st seq k it" and good: "\<And>e. good e \<Longrightarrow> storable U e"
    and same: "content (maccountstatemap l) k = content (maccountstatemap l0) k"
  shows "\<exists>m. txnwrite sha st ((k, it) # es) l = txnwrite sha st es (l\<lparr>maccountstatemap := m\<rparr>) \<and> map_ok sha tnaccount_state U m \<and>
    mstate m = mstate (maccountstatemap l) \<and> content m = (content (maccountstatemap l))(k := written_bytes st it (content (maccountstatemap l) k))"
proof -
  let ?c = "content (maccountstatemap l)"
  obtain e where e: "cells st (mentry it) = Some e" "mindex e = k" "good e"
    and a: "case maction it of taanone \<Rightarrow> False | taacached \<Rightarrow> getsle l0 k = Inr (Some e) | taacreate \<Rightarrow> getsle l0 k = Inr None
      | taamodify \<Rightarrow> \<exists>e0. getsle l0 k = Inr (Some e0) | taadelete \<Rightarrow> \<exists>e0. getsle l0 k = Inr (Some e0)"
    using it by (auto simp: ent_ok_def)
  have ld: "load st (mentry it) = Inr e" using e by (simp add: load_def)
  note wr = writeback_content [OF cf l(2,3) good [OF e(3)], unfolded e(2)]
  note gn = getsle_none [OF l(1), of k]
  show ?thesis
  proof (cases "maction it")
    case taanone
    then show ?thesis using a by simp
  next
    case taacached
    then show ?thesis using l(2) by (intro exI [of _ "maccountstatemap l"]) (simp add: written_bytes_def fun_eq_iff)
  next
    case taamodify
    then have "?c k \<noteq> None" using a gn same by auto
    then obtain m where "writeback sha l lepnone e = Inr (lepokay, l\<lparr>maccountstatemap := m\<rparr>)" "map_ok sha tnaccount_state U m"
      "mstate m = mstate (maccountstatemap l)" "content m = ?c(k \<mapsto> sle_bytes e)" using wr [of lepnone] by auto
    then show ?thesis using taamodify ld e(1) by (intro exI [of _ m]) (simp add: written_bytes_def)
  next
    case taadelete
    then have "?c k \<noteq> None" using a gn same by auto
    then obtain v m where "delitem sha (maccountstatemap l) k = Inr (True, m)" "map_ok sha tnaccount_state U m"
      "mstate m = mstate (maccountstatemap l)" "content m = ?c(k := None)"
      using del_old [OF cf _ l(2), of k] l(3) by (auto simp: isleaf_type_def writable_def)
    then show ?thesis using taadelete by (intro exI [of _ m]) (simp add: written_bytes_def)
  next
    case taacreate
    then have "?c k = None" using a gn same by simp
    then obtain m where "writeback sha l lepcreate e = Inr (lepcreated, l\<lparr>maccountstatemap := m\<rparr>)" "map_ok sha tnaccount_state U m"
      "mstate m = mstate (maccountstatemap l)" "content m = ?c(k \<mapsto> sle_bytes e)" using wr [of lepcreate] by auto
    then show ?thesis using taacreate ld e(1) by (intro exI [of _ m]) (simp add: written_bytes_def)
  qed
qed

lemma txnwrite_content:
  assumes cf: "collision_free sha tnaccount_state U" and l0: "state_ok sha U l0" and good: "\<And>e. good e \<Longrightarrow> storable U e"
  shows "state_ok sha U l \<Longrightarrow> writable (maccountstatemap l) \<Longrightarrow> sorted_keys es \<Longrightarrow> (\<forall>(k, it)\<in>set es. ent_ok l0 good st seq k it) \<Longrightarrow>
    (\<forall>k\<in>set (map fst es). content (maccountstatemap l) k = content (maccountstatemap l0) k) \<Longrightarrow>
    \<exists>l'. txnwrite sha st es l = Inr l' \<and> state_ok sha U l' \<and> writable (maccountstatemap l') \<and>
      content (maccountstatemap l') = (\<lambda>k. case map_of es k of None \<Rightarrow> content (maccountstatemap l) k
        | Some it \<Rightarrow> written_bytes st it (content (maccountstatemap l) k))"
proof (induction es arbitrary: l)
  case (Cons x es)
  obtain k it where x: "x = (k, it)" by (cases x)
  have hd: "ent_ok l0 good st seq k it" "content (maccountstatemap l) k = content (maccountstatemap l0) k"
    and k: "k \<notin> set (map fst es)"
    using Cons.prems(3,4,5) by (auto simp: x)
  obtain m where m: "txnwrite sha st ((k, it) # es) l = txnwrite sha st es (l\<lparr>maccountstatemap := m\<rparr>)" "map_ok sha tnaccount_state U m"
    "mstate m = mstate (maccountstatemap l)" "content m = (content (maccountstatemap l))(k := written_bytes st it (content (maccountstatemap l) k))"
    using txnwrite_entry [OF cf l0 Cons.prems(1,2) hd(1) good hd(2)] by blast
  let ?l = "l\<lparr>maccountstatemap := m\<rparr>"
  have "content (maccountstatemap ?l) k' = content (maccountstatemap l0) k'" if "k' \<in> set (map fst es)" for k'
    using Cons.prems(5) k that by (auto simp: x m(4))
  moreover have "sorted_keys es" "\<forall>(k, it)\<in>set es. ent_ok l0 good st seq k it" "state_ok sha U ?l"
    "writable (maccountstatemap ?l)"
    using Cons.prems(2-4) m(2,3) by (auto simp: x writable_def)
  ultimately have "\<exists>l'. txnwrite sha st es ?l = Inr l' \<and> state_ok sha U l' \<and> writable (maccountstatemap l') \<and>
      content (maccountstatemap l') = (\<lambda>k. case map_of es k of None \<Rightarrow> content (maccountstatemap ?l) k
        | Some it \<Rightarrow> written_bytes st it (content (maccountstatemap ?l) k))"
    by (intro Cons.IH) blast+
  then obtain l' where l': "txnwrite sha st es ?l = Inr l'" "state_ok sha U l'" "writable (maccountstatemap l')"
    "content (maccountstatemap l') = (\<lambda>k. case map_of es k of None \<Rightarrow> content m k | Some it \<Rightarrow> written_bytes st it (content m k))"
    by (auto cong: option.case_cong)
  have "map_of es k = None" using k by (simp add: map_of_eq_None_iff)
  then have "content (maccountstatemap l') = (\<lambda>k'. case map_of (x # es) k' of None \<Rightarrow> content (maccountstatemap l) k'
        | Some it \<Rightarrow> written_bytes st it (content (maccountstatemap l) k'))"
    by (auto simp: l'(4) m(4) x fun_eq_iff split: option.splits)
  then show ?case using l'(1-3) m(1) by (intro exI [of _ l']) (simp add: x)
qed simp

lemma commit_view:
  assumes cf: "collision_free sha tnaccount_state U" and l: "state_ok sha U l" "ledger_good good l" "writable (maccountstatemap l)"
    and good: "\<And>e. good e \<Longrightarrow> storable U e" and s: "les_ok l good st s"
  shows "\<exists>l'. txnwrite sha st (mentries s) l = Inr l' \<and> state_ok sha U l' \<and> writable (maccountstatemap l') \<and>
    (\<forall>k. getsle l' k = Inr (view st s k))"
proof -
  have led: "mledger s = Some l" "sorted_keys (mentries s)" using s by (simp_all add: les_ok_def)
  then have "distinct (map fst (mentries s))" by (simp add: strict_sorted_iff)
  then have ents: "\<forall>(k, it)\<in>set (mentries s). ent_ok l good st (mseq s) k it" using s by (auto simp: les_ok_def)
  obtain l' where l': "txnwrite sha st (mentries s) l = Inr l'" "state_ok sha U l'" "writable (maccountstatemap l')"
    "content (maccountstatemap l') = (\<lambda>k. case map_of (mentries s) k of None \<Rightarrow> content (maccountstatemap l) k
        | Some it \<Rightarrow> written_bytes st it (content (maccountstatemap l) k))"
    using txnwrite_content [OF cf l(1) good l(1,3) led(2) ents] by auto
  have "getsle l' k = Inr (view st s k)" for k
  proof (cases "map_of (mentries s) k")
    case None
    obtain r where "getsle l k = Inr r" using l(2) by (auto simp: ledger_good_def)
    moreover have "getsle l' k = getsle l k" using None
      by (simp add: getsle_content [OF l'(2)] getsle_content [OF l(1)] l'(4))
    ultimately show ?thesis using None led(1) by (simp add: view_def ledger_view_def)
  next
    case (Some it)
    then have "ent_ok l good st (mseq s) k it" using s by (simp add: les_ok_def)
    then obtain e where e: "cells st (mentry it) = Some e" "mindex e = k" "good e"
      and a: "case maction it of taanone \<Rightarrow> False | taacached \<Rightarrow> getsle l k = Inr (Some e) | taacreate \<Rightarrow> getsle l k = Inr None
      | taamodify \<Rightarrow> \<exists>e0. getsle l k = Inr (Some e0) | taadelete \<Rightarrow> \<exists>e0. getsle l k = Inr (Some e0)"
      by (auto simp: ent_ok_def)
    have rt: "sle_of_bytes (sle_bytes e) k = Inr e" using sle_roundtrip(2) [of e] good [OF e(3)] e(2) by (simp add: storable_def)
    have gl: "getsle l' k = (case written_bytes st it (content (maccountstatemap l) k) of
        None \<Rightarrow> Inr None | Some v \<Rightarrow> rbind (sle_of_bytes v k) (\<lambda>e. Inr (Some e)))"
      by (simp add: getsle_content [OF l'(2)] l'(4) Some)
    show ?thesis
    proof (cases "maction it")
      case taacached
      then show ?thesis using a e(1) Some gl getsle_content [OF l(1), of k] by (simp add: view_def written_bytes_def)
    qed (use a e(1) Some gl rt in \<open>simp_all add: view_def written_bytes_def\<close>)
  qed
  then show ?thesis using l'(1-3) by blast
qed

section \<open>Cells a set may write\<close>

text \<open>
  Entries of the current sequence number lie in cells from \<open>base\<close> on. Operations keep that, and write no cell
  below \<open>base\<close>.
\<close>

definition owns :: "ptr \<Rightarrow> ledgerentryset \<Rightarrow> bool" where
  "owns base s \<longleftrightarrow> (\<forall>k it. map_of (mentries s) k = Some it \<longrightarrow> ent_seq it = mseq s \<longrightarrow> base \<le> mentry it)"

definition framed :: "ptr \<Rightarrow> store \<Rightarrow> ledgerentryset \<Rightarrow> store \<Rightarrow> ledgerentryset \<Rightarrow> bool" where
  "framed base st s st' s' \<longleftrightarrow>
     (base \<le> next_ptr st \<and> owns base s \<longrightarrow>
      base \<le> next_ptr st' \<and> owns base s' \<and> mseq s' = mseq s \<and> (\<forall>p<base. cells st' p = cells st p))"

lemma framed_trans: "framed base st s st1 s1 \<Longrightarrow> framed base st1 s1 st2 s2 \<Longrightarrow> framed base st s st2 s2"
  by (simp add: framed_def)

lemma owns_put: "owns base s \<Longrightarrow> base \<le> p \<Longrightarrow> owns base (put_entry s k p a)"
  by (simp add: owns_def)

lemma framed_alloc: "framed base st s (snd (alloc st e)) (put_entry s k (next_ptr st) a)"
  by (simp add: framed_def owns_put)

lemma getentry_framed:
  "getentry st s k = Inr (r, a, st', s') \<Longrightarrow> framed base st s st' s' \<and> (base \<le> next_ptr st \<and> owns base s \<longrightarrow> (\<forall>p. r = Some p \<longrightarrow> base \<le> p))"
proof (cases "map_of (mentries s) k")
  case (Some it)
  assume "getentry st s k = Inr (r, a, st', s')"
  then show ?thesis using Some framed_alloc [of base st s _ k "maction it"]
    by (auto simp: getentry_def rassert_def alloc_def rbind_eq_Inr_iff framed_def owns_def split: if_splits)
qed (simp add: getentry_def framed_def)

lemma entrycache_sle_put: "entrycache_sle st s p = Inr s' \<Longrightarrow> \<exists>k. s' = put_entry s k p taacached"
  by (auto simp: entrycache_sle_def rbind_eq_Inr_iff rassert_def split: if_splits option.splits)

lemma entrycache_framed:
  assumes "entrycache st s t k = Inr (r, st', s')"
  shows "framed base st s st' s' \<and> (base \<le> next_ptr st \<and> owns base s \<longrightarrow> (\<forall>p. r = Some p \<longrightarrow> base \<le> p))"
proof (cases "k = 0")
  case True
  then show ?thesis using assms by (auto simp: entrycache_def rbind_eq_Inr_iff framed_def rassert_eq_Inr_iff)
next
  case False
  then obtain q a st1 s1 where g: "getentry st s k = Inr (q, a, st1, s1)"
    using assms by (auto simp: entrycache_def rbind_eq_Inr_iff rassert_eq_Inr_iff)
  note f = getentry_framed [OF g, of base]
  show ?thesis
  proof (cases q)
    case None
    show ?thesis
    proof (cases r)
      case None': None
      then show ?thesis using assms False g None f
        by (auto simp: entrycache_def rbind_eq_Inr_iff rassert_def alloc_def split: if_splits option.splits)
    next
      case (Some p)
      obtain e where e: "p = next_ptr st1" "st' = snd (alloc st1 e)" "entrycache_sle st' s1 p = Inr s'"
        using assms False g None Some
        by (auto simp: entrycache_def rbind_eq_Inr_iff rassert_def alloc_def split: if_splits option.splits)
      then obtain k' where "s' = put_entry s1 k' p taacached" using entrycache_sle_put by blast
      then show ?thesis using f framed_alloc [of base st1 s1 e k' taacached] Some e(1,2)
        by (auto intro: framed_trans simp: framed_def)
    qed
  next
    case (Some p)
    then show ?thesis using assms False g f by (auto simp: entrycache_def rbind_eq_Inr_iff rassert_eq_Inr_iff split: if_splits)
  qed
qed

lemma entrycreate_framed:
  assumes "entrycreate st s t k = Inr (p, st', s')"
  shows "framed base st s st' s' \<and> (base \<le> next_ptr st \<longrightarrow> base \<le> p)"
proof -
  obtain e k' a where "p = next_ptr st" "st' = snd (alloc st e)" "s' = put_entry s k' p a"
    using assms
    by (auto simp: entrycreate_def entrycreate_sle_def load_def rbind_eq_Inr_iff rassert_def alloc_def
        split: if_splits option.splits ledgerentryaction.splits)
  then show ?thesis using framed_alloc [of base st s e k' a] by simp
qed

lemma assign_framed: "assign st p f = Inr st' \<Longrightarrow> base \<le> p \<Longrightarrow> framed base st s st' s"
  by (auto simp: assign_def rbind_eq_Inr_iff framed_def)

lemma entrymodify_framed: "entrymodify st s p = Inr s' \<Longrightarrow> base \<le> p \<Longrightarrow> framed base st s st s'"
  by (auto simp: entrymodify_def rbind_eq_Inr_iff rassert_def framed_def owns_put
      split: if_splits option.splits ledgerentryaction.splits)

lemma entrydelete_framed: "entrydelete st s p = Inr s' \<Longrightarrow> base \<le> p \<Longrightarrow> framed base st s st s'"
  by (auto simp: entrydelete_def rbind_eq_Inr_iff rassert_def framed_def owns_put owns_def
      split: if_splits option.splits ledgerentryaction.splits)

lemma les_apply_framed:
  assumes "les_apply op (st, s) = Inr (st', s')"
  shows "framed base st s st' s'"
proof (cases "base \<le> next_ptr st \<and> owns base s")
  case True
  obtain t k where op: "op = Op_read k \<and> t = ltinvalid \<or> (\<exists>f. op = Op_put t k f) \<or> op = Op_delete k \<and> t = ltinvalid" by (cases op) auto
  then obtain r st1 s1 where c: "entrycache st s t k = Inr (r, st1, s1)"
    using assms by (auto simp: rbind_eq_Inr_iff)
  have f1: "framed base st s st1 s1" "\<And>p. r = Some p \<Longrightarrow> base \<le> p" using entrycache_framed [OF c, of base] True by auto
  have b1: "base \<le> next_ptr st1" using f1(1) True by (simp add: framed_def)
  have "framed base st1 s1 st' s'"
  proof (cases r)
    case None
    then show ?thesis
    proof (cases op)
      case (Op_put t' k' f)
      then obtain p st2 where "entrycreate st1 s1 t k = Inr (p, st2, s')" "assign st2 p f = Inr st'"
        using assms op c None by (auto simp: rbind_eq_Inr_iff)
      then show ?thesis using entrycreate_framed [of st1 s1 t k p st2 s' base] assign_framed [of st2 p f st' base s'] b1
        by (blast intro: framed_trans)
    qed (use assms op c None in \<open>auto simp: framed_def\<close>)
  next
    case (Some p)
    show ?thesis
    proof (cases op)
      case (Op_put t' k' f)
      then have "assign st1 p f = Inr st'" "entrymodify st' s1 p = Inr s'"
        using assms op c Some by (auto simp: rbind_eq_Inr_iff)
      then show ?thesis using assign_framed [of st1 p f st' base s1] entrymodify_framed [of st' s1 p s' base] f1(2) Some
        by (blast intro: framed_trans)
    next
      case (Op_delete k')
      then have "st' = st1" "entrydelete st1 s1 p = Inr s'" using assms op c Some by (auto simp: rbind_eq_Inr_iff)
      then show ?thesis using entrydelete_framed [of st1 s1 p s' base] f1(2) Some by blast
    qed (use assms op c in \<open>auto simp: framed_def\<close>)
  qed
  then show ?thesis using f1(1) by (rule framed_trans [rotated])
qed (auto simp: framed_def)

lemma run_framed: "run_ops les_apply ops (st, s) = Inr (st', s') \<Longrightarrow> framed base st s st' s'"
proof (induction ops arbitrary: st s)
  case (Cons op ops)
  then obtain st1 s1 where "les_apply op (st, s) = Inr (st1, s1)" "run_ops les_apply ops (st1, s1) = Inr (st', s')"
    by (auto simp: rbind_eq_Inr_iff)
  then show ?case using les_apply_framed Cons.IH framed_trans by blast
qed (simp add: framed_def)

text \<open>Working on a duplicate leaves the cells of the original alone.\<close>

lemma duplicate_frame:
  assumes s: "les_ok l good st s" and run: "run_ops les_apply ops (st, duplicate s) = Inr (st', s')"
  shows "view st' s = view st s" and "les_ok l good st' s"
proof -
  have "owns (next_ptr st) (duplicate s)"
    unfolding owns_def
  proof (intro allI impI)
    fix k it
    assume "map_of (mentries (duplicate s)) k = Some it" "ent_seq it = mseq (duplicate s)"
    then show "next_ptr st \<le> mentry it" using les_okD [OF s, of k it] by (auto simp: duplicate_def)
  qed
  then have f: "next_ptr st \<le> next_ptr st'" "\<And>p. p < next_ptr st \<Longrightarrow> cells st' p = cells st p"
    using run_framed [OF run, of "next_ptr st"] by (simp_all add: framed_def)
  have same: "cells st' (mentry it) = cells st (mentry it)" if "map_of (mentries s) k = Some it" for k it
    using les_okD [OF s that] f(2) by metis
  then show "view st' s = view st s" by (auto simp: fun_eq_iff view_def split: option.split)
  have "ent_ok l good st' (mseq s) k it" if it: "map_of (mentries s) k = Some it" for k it
  proof -
    have "ent_ok l good st (mseq s) k it" using s it by (simp add: les_ok_def)
    then show ?thesis using same [OF it] f(1) by (simp add: ent_ok_def)
  qed
  then show "les_ok l good st' s" using s by (simp add: les_ok_def)
qed

lemma duplicate_ok: "les_ok l good st s \<Longrightarrow> les_ok l good st (duplicate s) \<and> view st (duplicate s) = view st s"
proof
  assume s: "les_ok l good st s"
  have "ent_ok l good st (mseq s + 1) k it" if "map_of (mentries s) k = Some it" for k it
  proof -
    have "ent_ok l good st (mseq s) k it" using s that by (simp add: les_ok_def)
    then show ?thesis by (auto simp: ent_ok_def)
  qed
  then show "les_ok l good st (duplicate s)" using s by (simp add: les_ok_def duplicate_def)
qed (simp add: duplicate_def view_def fun_eq_iff cong: option.case_cong)

section \<open>Properties\<close>

text \<open>
  C1. A transaction acts on the ledger as its operations act on a map of entries. An operation looks an entry up
  through the set and then reads it, edits it or deletes it, or creates it where there is none; index 0 is not
  in use; the entries of the ledger and those an operation leaves are well formed and can be stored, the hash is injective and not
  zero on the strings hashed for trees over these entries, and the state map is neither immutable nor being
  synchronised. Any sequence of such operations on a new set over the ledger runs without an exception or
  a failed assertion, and writing the set to the ledger then succeeds and leaves a ledger in which every index
  has exactly the entry that the same operations on a map of entries give, the entries that were not touched
  included. Calls that are not preceded by a look-up, such as creating an entry twice, are not covered.
\<close>

theorem les_commit:
  assumes "collision_free sha tnaccount_state U" "state_ok sha U l" "writable (maccountstatemap l)" "ledger_good good l"
    and "\<forall>e. good e \<longrightarrow> storable U e" "list_all (op_ok good) ops"
  shows "\<exists>st' s' l'. run_ops les_apply ops (st, les_new l False) = Inr (st', s') \<and>
    txnwrite sha st' (mentries s') l = Inr l' \<and> state_ok sha U l' \<and> writable (maccountstatemap l') \<and>
    (\<forall>k. getsle l' k = Inr (fold map_apply ops (ledger_view l) k))"
proof -
  have good: "storable U e" "mmutable e" if "good e" for e using that assms(5) by (auto simp: storable_def sle_wf_def)
  have "les_ok l good st (les_new l False)" by (simp add: les_ok_def les_new_def)
  then have "les_inv l good (st, les_new l False)" using assms(4) good(2) by (simp add: les_inv_def)
  then obtain x where x: "run_ops les_apply ops (st, les_new l False) = Inr x" "les_inv l good x"
    "(case x of (st, s) \<Rightarrow> view st s) = fold map_apply ops (view st (les_new l False))"
    using les_sim.run [of good ops "(st, les_new l False)" l] assms(6) by (auto simp: run_ok_list_all)
  obtain st' s' where x': "x = (st', s')" by (cases x)
  obtain l' where "txnwrite sha st' (mentries s') l = Inr l'" "state_ok sha U l'" "writable (maccountstatemap l')" "\<And>k. getsle l' k = Inr (view st' s' k)"
    using commit_view [OF assms(1,2,4,3) good(1), of st' s'] x(2) by (auto simp: x' les_inv_def)
  moreover have "view st (les_new l False) = ledger_view l" by (simp add: fun_eq_iff view_def les_new_def)
  ultimately show ?thesis using x(1,3) by (intro exI [of _ st'] exI [of _ s'] exI [of _ l']) (simp add: x')
qed

definition empty_ledger :: ledger where
  "empty_ledger = \<lparr>maccountstatemap = shamap_new, mtransactionmap = shamap_new, mvalidhash = False\<rparr>"

abbreviation sample_entry_hash :: hash where
  "sample_entry_hash \<equiv> index_hash (single_strings tnaccount_state (sle_item sample_entry))"

lemma empty_ledger_ok:
  "state_ok sample_entry_hash {sle_item sample_entry} empty_ledger" "ledger_good good empty_ledger" "ledger_view empty_ledger = Map.empty"
  "writable (maccountstatemap empty_ledger)"
proof -
  show "writable (maccountstatemap empty_ledger)" by (simp add: empty_ledger_def shamap_new_ok(3))
  show ok: "state_ok sample_entry_hash {sle_item sample_entry} empty_ledger" by (simp add: empty_ledger_def shamap_new_ok(1))
  have "getsle empty_ledger k = Inr None" for k
    using getsle_content [OF ok, of k] by (simp add: empty_ledger_def shamap_new_ok(2))
  then show "ledger_good good empty_ledger" "ledger_view empty_ledger = Map.empty"
    by (simp_all add: ledger_good_def ledger_view_def fun_eq_iff)
qed

definition sample_put :: les_op where
  "sample_put = Op_put 103 5 (\<lambda>_. sle_object sample_entry)"

lemma sample_new: "case sle_new 103 5 of Inl _ \<Rightarrow> False | Inr e \<Rightarrow> edit (\<lambda>_. sle_object sample_entry) e = sample_entry"
  by code_simp

lemma sample_put_ok: "op_ok (\<lambda>e. e = sample_entry) sample_put"
  and sample_put_map: "map_apply sample_put m 5 = Some (case m 5 of None \<Rightarrow> sample_entry | Some e \<Rightarrow> edit (\<lambda>_. sle_object sample_entry) e)"
  using sample_new by (auto simp: sample_put_def split: sum.splits option.splits)

theorem les_commit_witness:
  "\<exists>st s l. run_ops les_apply [sample_put, Op_read 9, Op_delete 77] (\<lparr>cells = (\<lambda>_. None), next_ptr = 0\<rparr>, les_new empty_ledger False) = Inr (st, s) \<and>
     txnwrite sample_entry_hash st (mentries s) empty_ledger = Inr l \<and> getsle l 5 = Inr (Some sample_entry)"
proof -
  have ops: "list_all (op_ok (\<lambda>e. e = sample_entry)) [sample_put, Op_read 9, Op_delete 77]" using sample_put_ok by simp
  have good: "\<forall>e. e = sample_entry \<longrightarrow> storable {sle_item sample_entry} e" using sample_storable by simp
  have "fold map_apply [sample_put, Op_read 9, Op_delete 77] (ledger_view empty_ledger) 5 = Some sample_entry"
    by (simp add: sample_put_map empty_ledger_ok(3))
  then show ?thesis
    using les_commit [OF single_collision_free empty_ledger_ok(1,4,2) good ops, of "\<lparr>cells = (\<lambda>_. None), next_ptr = 0\<rparr>"] by metis
qed

text \<open>
  C3. A duplicate of a set is a checkpoint. Operations on the duplicate run as on any set, starting from what the
  original shows, and none of them, although the two share entries by pointer, changes what the original shows:
  dropping the duplicate undoes them, and swapping it with the original makes them the original's.
\<close>

theorem les_checkpoint:
  assumes "les_ok l good st s" "ledger_good good l" "\<forall>e. good e \<longrightarrow> mmutable e" "list_all (op_ok good) ops"
  shows "\<exists>st' s'. run_ops les_apply ops (st, duplicate s) = Inr (st', s') \<and>
    les_ok l good st' s' \<and> view st' s' = fold map_apply ops (view st s) \<and>
    les_ok l good st' s \<and> view st' s = view st s \<and>
    view st' (fst (swapwith s s')) = fold map_apply ops (view st s)"
proof -
  have d: "les_ok l good st (duplicate s)" "view st (duplicate s) = view st s" using duplicate_ok [OF assms(1)] by simp_all
  then have "les_inv l good (st, duplicate s)" using assms(2,3) by (simp add: les_inv_def)
  then obtain x where x: "run_ops les_apply ops (st, duplicate s) = Inr x" "les_inv l good x"
    "(case x of (st, s) \<Rightarrow> view st s) = fold map_apply ops (view st (duplicate s))"
    using les_sim.run [of good ops "(st, duplicate s)" l] assms(4) by (auto simp: run_ok_list_all)
  obtain st' s' where x': "x = (st', s')" by (cases x)
  have "view st' (fst (swapwith s s')) = view st' s'" by (simp add: swapwith_def view_def fun_eq_iff cong: option.case_cong)
  then show ?thesis using x d(2) duplicate_frame [OF assms(1), of ops st' s']
    by (intro exI [of _ st'] exI [of _ s']) (simp add: x' les_inv_def)
qed

theorem les_checkpoint_witness:
  "\<exists>st s st' s'. run_ops les_apply [sample_put] (\<lparr>cells = (\<lambda>_. None), next_ptr = 0\<rparr>, les_new empty_ledger False) = Inr (st, s) \<and>
     run_ops les_apply [Op_delete 5] (st, duplicate s) = Inr (st', s') \<and>
     view st' s' 5 = None \<and> view st' s 5 = Some sample_entry"
proof -
  let ?x = "(\<lparr>cells = (\<lambda>_. None), next_ptr = 0\<rparr>, les_new empty_ledger False)" and ?good = "\<lambda>e. e = sample_entry"
  have "les_inv empty_ledger ?good ?x"
    using empty_ledger_ok(2) by (auto simp: les_inv_def les_ok_def les_new_def sample_entry_def)
  then obtain st s where x: "run_ops les_apply [sample_put] ?x = Inr (st, s)" "les_inv empty_ledger ?good (st, s)"
    "view st s = fold map_apply [sample_put] (view (fst ?x) (snd ?x))"
    using les_sim.run [of ?good "[sample_put]" ?x empty_ledger] sample_put_ok by (auto simp: run_ok_list_all)
  have "view (fst ?x) (snd ?x) = Map.empty" by (simp add: view_def les_new_def empty_ledger_ok(3) fun_eq_iff)
  then have v: "view st s 5 = Some sample_entry" using x(3) by (simp add: sample_put_map)
  have s: "les_ok empty_ledger ?good st s" using x(2) by (simp add: les_inv_def)
  have mut: "\<forall>e. e = sample_entry \<longrightarrow> mmutable e" by (simp add: sample_entry_def)
  have ops: "list_all (op_ok ?good) [Op_delete 5]" by simp
  have "fold map_apply [Op_delete 5] (view st s) 5 = None" by simp
  then show ?thesis using les_checkpoint [OF s empty_ledger_ok(2) mut ops] v x(1) by metis
qed

end
