(* ===== verification/Entry_Next.thy ===== *)
theory Entry_Next
  imports Entry_View
begin

text \<open>
  Walking the keys of a set of entries: \<^verbatim>\<open>LedgerEntrySet::getNextLedgerIndex\<close> merges the entries of the ledger with
  those of the set and steps over the deleted ones. The loop over the ledger ends, and the walk visits the keys of
  what the set shows in order.
\<close>

text \<open>The next key of a map, 0 where there is none\<close>

definition next_key :: "(uint256 \<Rightarrow> 'v option) \<Rightarrow> uint256 \<Rightarrow> uint256 \<Rightarrow> bool" where
  "next_key m k n \<longleftrightarrow>
     (if n = 0 then \<forall>j>k. m j = None
      else k < n \<and> m n \<noteq> None \<and> (\<forall>j. k < j \<and> j < n \<longrightarrow> m j = None))"

lemma next_key_after: "k < n \<Longrightarrow> (\<forall>j. k < j \<and> j \<le> n \<longrightarrow> m j = None) \<Longrightarrow> next_key m n r \<Longrightarrow> next_key m k r"
proof (cases "r = 0")
  case False
  assume "k < n" "\<forall>j. k < j \<and> j \<le> n \<longrightarrow> m j = None" "next_key m n r"
  moreover have "m j = None" if "k < j" "j < r" for j
    using calculation that False by (cases "j \<le> n") (auto simp: next_key_def)
  ultimately show ?thesis using False by (auto simp: next_key_def)
next
  case True
  assume "k < n" "\<forall>j. k < j \<and> j \<le> n \<longrightarrow> m j = None" "next_key m n r"
  moreover have "m j = None" if "k < j" for j
    using calculation that True by (cases "j \<le> n") (auto simp: next_key_def)
  ultimately show ?thesis using True by (simp add: next_key_def)
qed

lemma next_key_cong: "(\<And>j. k < j \<Longrightarrow> f j = g j) \<Longrightarrow> next_key f k n \<longleftrightarrow> next_key g k n"
  by (auto simp: next_key_def)

text \<open>The next key of two maps together is the nearer one.\<close>

lemma next_key_merge:
  assumes "next_key f k a" "next_key g k b" "\<And>j. m j = None \<longleftrightarrow> f j = None \<and> g j = None"
  shows "next_key m k (if b = 0 \<or> a \<noteq> 0 \<and> a < b then a else b)"
proof -
  consider "b = 0" | "b \<noteq> 0" "a = 0" | "b \<noteq> 0" "a \<noteq> 0" "a < b" | "b \<noteq> 0" "a \<noteq> 0" "b \<le> a" by fastforce
  then show ?thesis
  proof cases
    case 3
    then have "\<forall>j. k < j \<and> j < a \<longrightarrow> m j = None" using assms by (auto simp: next_key_def intro: order.strict_trans)
    then show ?thesis using 3 assms by (simp add: next_key_def)
  next
    case 4
    then have "\<forall>j. k < j \<and> j < b \<longrightarrow> m j = None" using assms by (auto simp: next_key_def intro: order.strict_trans2)
    then show ?thesis using 4 assms by (simp add: next_key_def)
  qed (use assms in \<open>simp_all add: next_key_def\<close>)
qed

lemma ledger_view_content:
  assumes "state_ok sha U l" "ledger_good good l"
  shows "ledger_view l k = None \<longleftrightarrow> content (maccountstatemap l) k = None"
proof -
  obtain r where "getsle l k = Inr r" using assms(2) by (auto simp: ledger_good_def)
  then show ?thesis using getsle_content [OF assms(1), of k]
    by (auto simp: ledger_view_def rbind_eq_Inr_iff split: option.splits)
qed

lemma ledger_next_key:
  assumes "state_ok sha U l" "ledger_good good l"
  shows "\<exists>n. Ledger_State.getnextledgerindex l k = Inr n \<and> next_key (ledger_view l) k n"
proof -
  note c = ledger_view_content [OF assms]
  obtain r where r: "peeknextitem (maccountstatemap l) k = Inr r"
    "case r of None \<Rightarrow> \<forall>j\<in>dom (content (maccountstatemap l)). j \<le> k
     | Some it \<Rightarrow> content (maccountstatemap l) (mtag it) = Some (mdata it) \<and> k < mtag it \<and>
         (\<forall>j\<in>dom (content (maccountstatemap l)). k < j \<longrightarrow> mtag it \<le> j)"
    using next_item [OF assms(1)] by blast
  show ?thesis
  proof (cases r)
    case None
    then have "next_key (ledger_view l) k 0" using r(2) by (fastforce simp: next_key_def c dom_def)
    then show ?thesis using r(1) None by (simp add: getnextledgerindex_def tag_or_zero_def)
  next
    case (Some it)
    then have i: "content (maccountstatemap l) (mtag it) = Some (mdata it)" "k < mtag it"
      "\<forall>j\<in>dom (content (maccountstatemap l)). k < j \<longrightarrow> mtag it \<le> j" using r(2) by auto
    have "mtag it \<noteq> 0" using i(2) by auto
    moreover have "ledger_view l j = None" if "k < j" "j < mtag it" for j
      using i(3) that unfolding c by (metis domIff linorder_not_less)
    ultimately have "next_key (ledger_view l) k (mtag it)" using i(1,2) by (simp add: next_key_def c)
    then show ?thesis using r(1) Some by (simp add: getnextledgerindex_def tag_or_zero_def)
  qed
qed

definition deleted :: "entries \<Rightarrow> uint256 \<Rightarrow> bool" where
  "deleted es k \<longleftrightarrow> (\<exists>it. map_of es k = Some it \<and> maction it = taadelete)"

lemma ledger_next_unfold:
  "Ledger_State.getnextledgerindex l k = Inr n \<Longrightarrow>
     ledger_next l es k = (if deleted es n then ledger_next l es n else Some (Inr n))"
  by (subst ledger_next.simps) (auto simp: deleted_def split: option.splits)

text \<open>The loop over the ledger ends, and finds the next key that is not deleted.\<close>

lemma ledger_next_ends:
  assumes "state_ok sha U l" "ledger_good good l" "map_of es 0 = None"
  shows "\<exists>n. ledger_next l es k = Some (Inr n) \<and> next_key (\<lambda>j. if deleted es j then None else ledger_view l j) k n"
proof (induction k rule: measure_induct_rule [of "\<lambda>k. 2 ^ 256 - unat k"])
  case (less k)
  obtain n where n: "Ledger_State.getnextledgerindex l k = Inr n" "next_key (ledger_view l) k n"
    using ledger_next_key [OF assms(1,2)] by blast
  show ?case
  proof (cases "deleted es n")
    case True
    then have "n \<noteq> 0" using assms(3) by (auto simp: deleted_def)
    then have k: "k < n" "\<forall>j. k < j \<and> j < n \<longrightarrow> ledger_view l j = None" using n(2) by (auto simp: next_key_def)
    have "unat k < unat n" "unat n < 2 ^ 256" using k(1) unsigned_less [of n] by (simp_all add: word_less_nat_alt)
    then obtain r where "ledger_next l es n = Some (Inr r)"
      "next_key (\<lambda>j. if deleted es j then None else ledger_view l j) n r"
      using less [of n] by (auto simp: diff_less_mono2)
    moreover have "\<forall>j. k < j \<and> j \<le> n \<longrightarrow> (if deleted es j then None else ledger_view l j) = None"
      using k(2) True by (auto simp: order.order_iff_strict)
    ultimately show ?thesis using next_key_after [OF k(1)] ledger_next_unfold [OF n(1)] True by auto
  next
    case False
    then show ?thesis using n ledger_next_unfold [OF n(1), of es] by (auto simp: next_key_def)
  qed
qed

lemma les_next_entry: "les_next es k = Some n \<Longrightarrow> map_of es n \<noteq> None"
proof -
  assume "les_next es k = Some n"
  then obtain y where y: "find (\<lambda>x. maction (snd x) \<noteq> taadelete) (dropWhile (\<lambda>x. fst x \<le> k) es) = Some y" "fst y = n"
    by (auto simp: les_next_def)
  then have "y \<in> set (dropWhile (\<lambda>x. fst x \<le> k) es)" by (auto simp: find_Some_iff)
  then show ?thesis using y(2) by (auto simp: map_of_eq_None_iff dest!: set_dropWhileD)
qed

lemma les_next_key:
  assumes "sorted_keys es" "map_of es 0 = None"
  shows "next_key (\<lambda>j. if deleted es j then None else map_of es j) k (case les_next es k of None \<Rightarrow> 0 | Some n \<Rightarrow> n)"
  using assms
proof (induction es)
  case Nil
  then show ?case by (simp add: next_key_def les_next_def deleted_def)
next
  case (Cons x es)
  obtain i it where x: "x = (i, it)" by (cases x)
  have lt: "\<forall>j\<in>dom (map_of es). i < j" using Cons.prems(1) x by (auto simp: dom_map_of_conv_image_fst)
  have i0: "i \<noteq> 0" "map_of es 0 = None" using Cons.prems(2) x by (auto split: if_splits)
  have del: "deleted ((i, it) # es) j = (if j = i then maction it = taadelete else deleted es j)" for j
    by (auto simp: deleted_def)
  have no: "map_of es j = None" if "j \<le> i" for j using lt that by (metis domIff linorder_not_less)
  have IH: "next_key (\<lambda>j. if deleted es j then None else map_of es j) k (case les_next es k of None \<Rightarrow> 0 | Some n \<Rightarrow> n)"
    using Cons.IH i0(2) Cons.prems(1) by simp
  show ?case
  proof (cases "k < i \<and> maction it \<noteq> taadelete")
    case True
    then have "les_next (x # es) k = Some i" by (auto simp: les_next_def x)
    then show ?thesis using True i0(1) no by (auto simp: next_key_def del x intro: less_imp_le)
  next
    case False
    have "les_next (x # es) k = les_next es k"
    proof (cases "k < i")
      case True
      then have "dropWhile (\<lambda>y. fst y \<le> k) es = es" using Cons.prems(1) x by (cases es) auto
      then show ?thesis using True False by (simp add: les_next_def x)
    qed (auto simp: les_next_def x)
    moreover have eq: "(if deleted (x # es) j then None else map_of (x # es) j) = (if deleted es j then None else map_of es j)"
      if "k < j" for j using that False no [of j] by (auto simp: del x)
    ultimately show ?thesis using IH by (simp only: next_key_cong [OF eq])
  qed
qed

text \<open>
  C16. Asking a set for the next index after a key always returns, and gives the least key above it that the set
  shows an entry for, whether the entry is of the ledger or of the set, or 0 when no entry follows.
\<close>

theorem les_next_index:
  assumes "state_ok sha U l" "ledger_good good l" "les_ok l good st s"
  shows "\<exists>n. les_getnextledgerindex s k = Some (Inr n) \<and> next_key (view st s) k n"
proof -
  have s: "mledger s = Some l" "sorted_keys (mentries s)" using assms(3) by (simp_all add: les_ok_def)
  have z: "map_of (mentries s) 0 = None" 
  proof (cases "map_of (mentries s) 0")
    case (Some it)
    then show ?thesis using les_okD [OF assms(3), of 0 it] by blast
  qed
  obtain a where a: "ledger_next l (mentries s) k = Some (Inr a)"
    "next_key (\<lambda>j. if deleted (mentries s) j then None else ledger_view l j) k a"
    using ledger_next_ends [OF assms(1,2) z] by blast
  let ?b = "case les_next (mentries s) k of None \<Rightarrow> 0 | Some n \<Rightarrow> n"
  note b = les_next_key [OF s(2) z, of k]
  have "view st s j = None \<longleftrightarrow> (if deleted (mentries s) j then None else ledger_view l j) = None \<and>
      (if deleted (mentries s) j then None else map_of (mentries s) j) = None" for j
  proof (cases "map_of (mentries s) j")
    case (Some it)
    then obtain e where "cells st (mentry it) = Some e" using les_okD [OF assms(3)] by blast
    then show ?thesis using Some by (simp add: view_def deleted_def)
  qed (simp add: view_def deleted_def s(1))
  then have "next_key (view st s) k (if ?b = 0 \<or> a \<noteq> 0 \<and> a < ?b then a else ?b)"
    by (rule next_key_merge [OF a(2) b])
  moreover have "les_next (mentries s) k \<noteq> Some 0" using les_next_entry z by blast
  then have "les_getnextledgerindex s k = Some (Inr (if ?b = 0 \<or> a \<noteq> 0 \<and> a < ?b then a else ?b))"
    using a(1) by (auto simp: les_getnextledgerindex_def s(1) split: option.splits)
  ultimately show ?thesis by blast
qed

theorem les_next_index_witness:
  "\<exists>st s. run_ops les_apply [sample_put] (\<lparr>cells = (\<lambda>_. None), next_ptr = 0\<rparr>, les_new empty_ledger False) = Inr (st, s) \<and>
     les_getnextledgerindex s 0 = Some (Inr 5)"
proof -
  let ?x = "(\<lparr>cells = (\<lambda>_. None), next_ptr = 0\<rparr>, les_new empty_ledger False)" and ?good = "\<lambda>e. e = sample_entry"
  have "les_inv empty_ledger ?good ?x"
    using empty_ledger_ok(2) by (auto simp: les_inv_def les_ok_def les_new_def sample_entry_def)
  then obtain st s where x: "run_ops les_apply [sample_put] ?x = Inr (st, s)" "les_inv empty_ledger ?good (st, s)"
    "view st s = fold map_apply [sample_put] (view (fst ?x) (snd ?x))"
    using les_sim.run [of ?good "[sample_put]" ?x empty_ledger] sample_put_ok by (auto simp: run_ok_list_all)
  have v: "view (fst ?x) (snd ?x) = Map.empty" by (simp add: view_def les_new_def empty_ledger_ok(3) fun_eq_iff)
  have "view st s j = None \<longleftrightarrow> j \<noteq> 5" for j
    using x(3) sample_put_map [of Map.empty] unfolding v by (auto simp: sample_put_def)
  then have v5: "view st s 5 \<noteq> None" "\<And>n. view st s n \<noteq> None \<Longrightarrow> n = 5" by simp_all
  have "les_ok empty_ledger ?good st s" using x(2) by (simp add: les_inv_def)
  then obtain n where n: "les_getnextledgerindex s 0 = Some (Inr n)" "next_key (view st s) 0 n"
    using les_next_index [OF empty_ledger_ok(1,2)] by blast
  have "n \<noteq> 0"
  proof
    assume "n = 0"
    then have "0 < j \<longrightarrow> view st s j = None" for j using n(2) by (simp add: next_key_def)
    from this [of 5] show False using v5(1) by simp
  qed
  then have "n = 5" using n(2) v5(2) by (simp add: next_key_def)
  then show ?thesis using x(1) n(1) by blast
qed

end
