(* ===== verification/Spec2Isabelle.thy ===== *)
theory Spec2Isabelle
  imports Amount_Rounding Quality Range_Set St_Wire Formats Ter Indexes Entry_Next
begin

text \<open>
  Verification of the ledger core of the MooreCoin server, a fork of rippled with two native currencies
  (XRP, currency code 0, and VBC, all bytes ff). All paths below are under \<^verbatim>\<open>src/src/ripple/\<close>.

  \<^bold>\<open>The program and its parts.\<close> The server keeps a ledger: a hash tree (\<^verbatim>\<open>shamap\<close>) of entries, each a
  serialized object (\<^verbatim>\<open>protocol/STObject\<close>) under a 256-bit key (\<^verbatim>\<open>protocol/Indexes\<close>). Objects are made
  of fields (\<^verbatim>\<open>SField\<close>) with values of a dozen serialized types; the central one is the amount
  (\<^verbatim>\<open>STAmount\<close>), a native integer or a decimal floating-point number of an issue. Every object has a canonical
  binary form (\<^verbatim>\<open>Serializer\<close>), which is what is hashed, signed and sent to peers. Transactions change entries and
  yield a result code (\<^verbatim>\<open>TER\<close>); which ledgers a server holds is a set of ranges (\<^verbatim>\<open>RangeSet\<close>). The components
  below are layered in this order, each theory importing the ones it calls.

  \<^bold>\<open>Conventions.\<close> A C++ function that may throw returns \<open>exn + 'a\<close>, \<open>Inl\<close> the exception, and is sequenced with
  \<open>rbind\<close>. Unsigned integers are words of their width; an \<open>int\<close> that cannot overflow is an integer. A method that
  mutates its object returns the new object. Signed 64-bit conversions and truncating division are written out
  in \<open>Prelude\<close>. Names are those of the source in lower case.

  \<^bold>\<open>Theories.\<close>
  \<^item> \<open>Prelude\<close>: results, machine integers, big-endian byte strings, the locale \<open>simulation\<close> (an implementation with an
    invariant and an abstraction function, and what that gives for a sequence of operations, each permitted in the
    abstract state it meets).
  \<^item> \<open>Base_Uint\<close>: \<^verbatim>\<open>basics/base_uint.h\<close> (a big number as an array of 32-bit limbs, with carries) and the
    hexadecimal conversions of \<^verbatim>\<open>StringUtilities\<close>. Arithmetic is that of the numbers modulo their size, the
    lexicographic comparison is the numeric one, text round trips.
  \<^item> \<open>Uint_Types\<close>: \<^verbatim>\<open>protocol/UintTypes\<close>, \<^verbatim>\<open>Issue.h\<close>, \<^verbatim>\<open>Book.h\<close>: currency codes and their text, native issues, and
    the comparisons of issues and books, which are strict weak orders.
  \<^item> \<open>Serializer\<close>: \<^verbatim>\<open>protocol/Serializer.h\<close> and its implementation: the writers, the positional readers, field
    identifiers, variable-length prefixes, and the throwing iterator. Each reader inverts its writer.
  \<^item> \<open>St_Amount\<close>, \<open>Amount_Arith\<close>: \<^verbatim>\<open>protocol/impl/STAmount.cpp\<close>: constructors, canonicalize, comparison, addition, the wire
    format, multiplication and division through \<^verbatim>\<open>CBigNum\<close> (here \<open>int\<close>), the rounding variants, exchange rates. The theories
    \<open>Amount_Canon\<close>, \<open>Amount_Wire\<close>, \<open>Amount_Order\<close>, \<open>Amount_Sum\<close>, \<open>Amount_Accuracy\<close> and \<open>Amount_Rounding\<close> relate them to the
    rational number an amount denotes: canonicalize truncates, the wire format is canonical and round trips, the
    comparison is the numeric one, sums, products and quotients have stated error bounds or are exact; rounding down
    never exceeds the exact value, and rounding up is within a unit of the last place of it, on either side. Amounts
    of the two native currencies are comparable and can be added, and a sum is in the currency of the left operand.
  \<^item> \<open>Quality\<close>: \<^verbatim>\<open>app/book/Quality.h\<close>, \<^verbatim>\<open>app/book/impl/Quality.cpp\<close>: rates as 64-bit keys whose order is that of the rates, and
    scaling an offer down to a limit: one amount becomes the limit, the other the limit times or divided by the rate, to
    within a unit of the last place, or stays what the offer has where that is less.
  \<^item> \<open>Range_Set\<close>: \<^verbatim>\<open>basics/RangeSet.h\<close> and its implementation; \<^verbatim>\<open>std::map\<close> is a list of pairs in the
    order of the keys, and the locale \<open>simulation\<close> is interpreted on its operations. A sequence of \<^verbatim>\<open>setValue\<close>, \<^verbatim>\<open>clearValue\<close>, \<^verbatim>\<open>setRange\<close> and
    \<^verbatim>\<open>simplify\<close> does to the ranges what the set operations do to the set, as long as no \<^verbatim>\<open>setRange\<close> meets a set that lacks just
    the last number of the range: there the code adds nothing.
  \<^item> \<open>S_Field\<close>: \<^verbatim>\<open>protocol/SField\<close>, the table of fields and the lookup of a code. \<open>St_Path\<close>: \<^verbatim>\<open>STPathSet\<close>, \<^verbatim>\<open>STVector256\<close>.
  \<^item> \<open>St_Object\<close>: \<^verbatim>\<open>protocol/STObject\<close>, \<^verbatim>\<open>STArray\<close>, \<^verbatim>\<open>SOTemplate\<close> and the scalar types: templates, free objects, typed
    getters and setters. The index table of a template covers the fields declared when it was made, and the accessors that
    consult it throw for any other. A locale states the contract of a typed field and is interpreted for the thirteen types.
  \<^item> \<open>St_Wire\<close>: \<^verbatim>\<open>add\<close> and \<^verbatim>\<open>set\<close> of objects and arrays, nested to any depth. The reader takes fuel; the fuel used is
    one more than the number of bytes left, and \<open>parse_terminates\<close> shows it is never exhausted, since every round
    of the loop consumes a byte.
  \<^item> \<open>Formats\<close>: \<^verbatim>\<open>protocol/KnownFormats.h\<close>, \<^verbatim>\<open>LedgerFormats\<close>, \<^verbatim>\<open>TxFormats\<close>, \<^verbatim>\<open>STLedgerEntry\<close>: the template of every type of
    entry and transaction, and the objects it admits. Four ledger formats are registered under a type that a later format
    takes over; the theory names them.
  \<^item> \<open>Ter\<close>: \<^verbatim>\<open>protocol/TER.h\<close>, the result codes and their classes. \<open>Indexes\<close>: \<^verbatim>\<open>protocol/impl/Indexes.cpp\<close>, the keys of
    ledger entries and the windows of an order book.
  \<^item> \<open>Sha_Node\<close>, \<open>Sha_Map\<close>: \<^verbatim>\<open>shamap\<close>: the nodes of the hash tree with their hashes and raw formats (a node that is read is a
    \<open>rawnode\<close>, which has the hashes of its children and not the children), and the tree
    with its lookups, ordered walks, insertion, update and deletion, and the assertions these make on the state of the map. \<open>Sha_Tree\<close> says when a tree is well formed and
    shows that the items determine it and, for a collision-free hash, that its root hash determines the
    items; \<open>Sha_Ops\<close> and \<open>Sha_Del\<close> follow the operations along the stack of nodes they walk; \<open>Sha_Refine\<close> shows
    that a tree in a state that may be written implements a map from tags to data, that an immutable one refuses, and that
    the root hash commits to the map; \<open>Sha_Walk\<close> shows
    that it is walked in the order of the tags, in a locale \<open>scan\<close> interpreted for the two directions, and that
    the loop from item to item ends (it is a \<open>partial_function\<close>, so that not ending would be the value \<open>None\<close>).
  \<^item> \<open>Ledger_State\<close>: \<^verbatim>\<open>app/ledger/Ledger.cpp\<close>: the map of entries and the map of transactions of a ledger, \<^verbatim>\<open>getSLE\<close>,
    \<^verbatim>\<open>writeBack\<close> and the walks over the keys. A well-formed entry survives being serialized, stored in the hash tree,
    fetched and parsed, and no other entry changes.
  \<^item> \<open>Entry_Set\<close>: \<^verbatim>\<open>app/ledger/LedgerEntrySet.cpp\<close>, the set of entries a transaction works on, and \<^verbatim>\<open>txnWrite\<close> of
    \<^verbatim>\<open>app/tx/TransactionEngine.cpp\<close>. Entries shared by pointer are cells of a store, so that copy on read is visible.
    \<open>Entry_View\<close> says what a set shows of the ledger, interprets \<open>simulation\<close> for operations that look an entry up and then
    read, edit, create or delete it, on a plain map of entries, shows that \<^verbatim>\<open>txnWrite\<close> turns the ledger into that map, and that work on a duplicate never reaches the
    cells of the original. \<open>Entry_Next\<close> shows that the walk over the keys of a set ends and follows their order.

  \<^bold>\<open>Parameters.\<close> The cryptographic hash (SHA-512 half) is a function argument \<open>sha\<close>. Where the code relies on it,
  the hypothesis (\<open>collision_free\<close>) is that it is injective and not zero on the byte strings hashed for trees over
  the items in use, a finite set of strings when the items are, and a witness gives a function for which this holds.

  \<^bold>\<open>Not modelled.\<close> Of \<^verbatim>\<open>LedgerEntrySet\<close>, the metadata, directories, trust lines, balances and payments; of the
  transaction engine, everything but \<^verbatim>\<open>txnWrite\<close>; the transactors, order-book crossing and payment paths, which work on
  the set of entries; of \<^verbatim>\<open>Ledger\<close>, closing, saving and loading, and the accessors of single entry types; the cache of
  parsed entries behind \<^verbatim>\<open>getSLEi\<close> (an entry is parsed on every read); consensus, validation, voting
  and dividends, which depend on clocks and peers; the overlay, peer finder, resource manager, RPC, node
  store, configuration and server, which are input and output; JSON and human-readable text; keys and
  addresses, which are calls into OpenSSL and secp256k1; the bundled libraries (beast, leveldb, rocksdb, lz4, snappy,
  secp256k1). Of the hash tree, synchronisation with peers, the node store and the sharing of nodes between
  snapshots are left out: the model holds all nodes in memory, unshared.
\<close>

end
